(* ===== verification/Telos_Prelude.thy ===== *)
theory Telos_Prelude
  imports Main "HOL-Library.Word" "HOL-Library.Multiset"
begin

unbundle bit_operations_syntax

text \<open>
  Shared vocabulary of the development.  Telos is compiled for i386, so \<^verbatim>\<open>unsigned long\<close>,
  \<^verbatim>\<open>unsigned int\<close>, \<^verbatim>\<open>uintptr_t\<close> and \<^verbatim>\<open>size_t\<close> are all 32 bits wide: the model keeps them
  as \<open>32 word\<close>, whose arithmetic wraps exactly as the C arithmetic does.  This theory holds the
  type synonyms, the error codes of \<^verbatim>\<open>src/include/telos/errno.h\<close>, the outcome of code that may
  panic, and the lemmas on lists, options and words that the components share.
\<close>

section \<open>Machine types\<close>

type_synonym u8 = "8 word"
type_synonym u16 = "16 word"
type_synonym u32 = "32 word"
type_synonym u64 = "64 word"

section \<open>Error codes and outcomes\<close>

text \<open>
  The error numbers the modelled code returns.  A C function that returns \<^verbatim>\<open>0\<close> or \<^verbatim>\<open>-EFOO\<close> is
  modelled by a value of a sum type, \<open>Inl EFOO\<close> being the error.
\<close>

datatype errno =
    EACCES | EAGAIN | EBADF | EBUSY | ECHILD | EEXIST | EFAULT | EINTR | EINVAL | EIO
  | EISDIR | EMFILE | ENFILE | ENODEV | ENOENT | ENOMEM | ENOSPC | ENOTBLK | ENOTDIR
  | ENOTEMPTY | ENOTSUP | ENXIO | EPERM | ERANGE | EROFS | ESPIPE | ESRCH | EXDEV

text \<open>
  A call that does not come back to its caller, because it reaches \<^verbatim>\<open>panic()\<close> or because it
  touches memory it does not own, is the outcome \<open>Stuck\<close>.
\<close>

datatype 'a outcome = Ret 'a | Stuck

primrec bind_outcome :: "'a outcome \<Rightarrow> ('a \<Rightarrow> 'b outcome) \<Rightarrow> 'b outcome" where
  "bind_outcome (Ret x) f = f x"
| "bind_outcome Stuck f = Stuck"

lemma bind_outcome_eq_Ret [simp]:
  "bind_outcome m f = Ret y \<longleftrightarrow> (\<exists>x. m = Ret x \<and> f x = Ret y)"
  by (cases m) auto

section \<open>Collections of facts\<close>

named_theorems word_nat \<open>readings of word operations as natural numbers\<close>
named_theorems ring_simps \<open>unfolding of the linked-list operations\<close>

section \<open>Lists and options\<close>

lemma find_None_upt [simp]: "List.find P [0..<n] = None \<longleftrightarrow> (\<forall>i<n. \<not> P i)"
  by (auto simp: find_None_iff)

lemma find_Some_upt:
  "List.find P [0..<n] = Some i \<longleftrightarrow> i < n \<and> P i \<and> (\<forall>j<i. \<not> P j)"
proof
  assume "List.find P [0..<n] = Some i"
  then obtain k where "k < n" "P k" "i = k" "\<forall>j<k. \<not> P j"
    by (auto simp: find_Some_iff)
  then show "i < n \<and> P i \<and> (\<forall>j<i. \<not> P j)" by auto
next
  assume "i < n \<and> P i \<and> (\<forall>j<i. \<not> P j)"
  then show "List.find P [0..<n] = Some i"
    by (auto simp: find_Some_iff intro!: exI [of _ i])
qed

lemma find_SomeD: "List.find P xs = Some x \<Longrightarrow> x \<in> set xs \<and> P x"
  by (auto simp: find_Some_iff)

lemma find_Some_split:
  "List.find P xs = Some x \<Longrightarrow> \<exists>ys zs. xs = ys @ x # zs \<and> P x \<and> (\<forall>y \<in> set ys. \<not> P y)"
proof (induction xs)
  case (Cons y xs)
  show ?case
  proof (cases "P y")
    case True
    then show ?thesis using Cons.prems by (intro exI [of _ "[]"] exI [of _ xs]) simp
  next
    case False
    then obtain ys zs where "xs = ys @ x # zs" "P x" "\<forall>y \<in> set ys. \<not> P y"
      using Cons by auto
    then show ?thesis using False by (intro exI [of _ "y # ys"] exI [of _ zs]) simp
  qed
qed simp

lemma find_NoneD: "List.find P xs = None \<Longrightarrow> x \<in> set xs \<Longrightarrow> \<not> P x"
  by (auto simp: find_None_iff)

lemma sum_list_update_nat:
  fixes f :: "'a \<Rightarrow> nat"
  assumes "k < length xs"
  shows "sum_list (map f (xs[k := x])) + f (xs ! k) = sum_list (map f xs) + f x"
  using assms
proof (induction xs arbitrary: k)
  case Nil
  then show ?case by simp
next
  case (Cons y ys)
  then show ?case by (cases k) (auto simp: add_ac)
qed

lemma take_map_nth: "n \<le> length xs \<Longrightarrow> map (\<lambda>i. xs ! i) [0..<n] = take n xs"
  by (auto intro: nth_equalityI)

text \<open>Replacing one entry of a list by another in place, the effect of \<^verbatim>\<open>list_replace\<close>.\<close>

primrec replace1 :: "'a \<Rightarrow> 'a \<Rightarrow> 'a list \<Rightarrow> 'a list" where
  "replace1 p r [] = []"
| "replace1 p r (x # xs) = (if x = p then r # xs else x # replace1 p r xs)"

lemma replace1_split: "p \<notin> set xs \<Longrightarrow> replace1 p r (xs @ p # ys) = xs @ r # ys"
  by (induction xs) auto

lemma set_replace1:
  "distinct xs \<Longrightarrow> p \<in> set xs \<Longrightarrow> set (replace1 p r xs) = insert r (set xs - {p})"
  by (induction xs) auto

lemma distinct_replace1:
  "distinct xs \<Longrightarrow> r \<notin> set xs \<Longrightarrow> distinct (replace1 p r xs)"
proof (induction xs)
  case (Cons x xs)
  have "set (replace1 p r xs) \<subseteq> insert r (set xs)" by (induction xs) auto
  with Cons show ?case by auto
qed simp

section \<open>Rounding natural numbers\<close>

lemma ceil_div:
  fixes d n :: nat
  assumes "0 < d"
  shows "(n + (d - 1)) div d = (if d dvd n then n div d else n div d + 1)"
proof -
  let ?m = "n mod d"
  have "n + (d - 1) = n div d * d + (?m + (d - 1))" by simp
  then have "(n + (d - 1)) div d = n div d + (?m + (d - 1)) div d"
    using assms by (metis div_mult_self3 neq0_conv)
  moreover have "(?m + (d - 1)) div d = (if ?m = 0 then 0 else 1)"
  proof (cases "?m = 0")
    case False
    then have "(?m + (d - 1)) div d = 1"
      using mod_less_divisor [OF assms, of n] by (intro div_nat_eqI) simp_all
    with False show ?thesis by simp
  qed (use assms in simp)
  ultimately show ?thesis by (simp add: dvd_eq_mod_eq_0)
qed

lemma round_down_ge:
  fixes d m n :: nat
  assumes "d dvd m" "m \<le> n"
  shows "m \<le> n div d * d"
proof -
  have "m = m div d * d" using assms(1) by simp
  also have "\<dots> \<le> n div d * d" using assms(2) by (intro mult_le_mono1 div_le_mono)
  finally show ?thesis .
qed

section \<open>Words read as natural numbers\<close>

lemma unat_add_no_wrap [word_nat]:
  fixes a b :: "'a::len word"
  assumes "unat a + unat b < 2 ^ LENGTH('a)"
  shows "unat (a + b) = unat a + unat b"
  using assms by (simp add: unat_word_ariths)

lemma unat_sub_no_wrap [word_nat]:
  fixes a b :: "'a::len word"
  assumes "b \<le> a"
  shows "unat (a - b) = unat a - unat b"
  using assms by (rule unat_sub)

lemma unat_mult_no_wrap [word_nat]:
  fixes a b :: "'a::len word"
  assumes "unat a * unat b < 2 ^ LENGTH('a)"
  shows "unat (a * b) = unat a * unat b"
  using assms by (simp add: unat_word_ariths)

lemma word_le_unat [word_nat]: "(a :: 'a::len word) \<le> b \<longleftrightarrow> unat a \<le> unat b"
  by (rule word_le_nat_alt)

lemma word_less_unat [word_nat]: "(a :: 'a::len word) < b \<longleftrightarrow> unat a < unat b"
  by (rule word_less_nat_alt)

lemma u32_bound: "unat (w :: u32) < 4294967296"
  using unsigned_less [of w] by simp

lemma unat_drop: "unat (drop_bit k w) = unat w div 2 ^ k"
proof -
  have "unat (drop_bit k w) = drop_bit k (unat w)"
    by (simp add: unsigned_drop_bit_eq take_bit_nat_eq_self)
  then show ?thesis by (simp only: drop_bit_eq_div)
qed

lemma bit_one_shift [simp]: "bit (2 ^ n :: 'a::len word) m \<longleftrightarrow> m = n \<and> n < LENGTH('a)"
  by (auto simp: bit_simps)

end
