(* ===== verification/KList.thy ===== *)
theory KList
  imports Telos_Prelude
begin

text \<open>
  The doubly linked rings of \<^verbatim>\<open>src/include/kernel/list.h\<close>.  A \<^verbatim>\<open>struct list_head\<close> lives at an
  address; the heap gives the \<^verbatim>\<open>next\<close> and \<^verbatim>\<open>prev\<close> fields of the structure at every address, and an
  operation is the sequence of its assignments, in the order of the source.  The abstraction
  \<open>is_list H h xs\<close> says that \<open>h\<close> is the head of a ring whose entries are \<open>xs\<close>, in order and
  without repetition.  Each operation is shown to be the corresponding operation on the list of
  entries, and to leave every ring that shares no address with it as it was.
\<close>

section \<open>The heap\<close>

type_synonym addr = u32

record list_heap =
  nxt :: "addr \<Rightarrow> addr"
  prv :: "addr \<Rightarrow> addr"

definition set_next :: "addr \<Rightarrow> addr \<Rightarrow> list_heap \<Rightarrow> list_heap" where
  "set_next a v H = H\<lparr>nxt := (nxt H)(a := v)\<rparr>"

definition set_prev :: "addr \<Rightarrow> addr \<Rightarrow> list_heap \<Rightarrow> list_heap" where
  "set_prev a v H = H\<lparr>prv := (prv H)(a := v)\<rparr>"

definition LIST_POISON1 :: addr where "LIST_POISON1 = 0x00100100"
definition LIST_POISON2 :: addr where "LIST_POISON2 = 0x00200200"

section \<open>The operations of list.h\<close>

definition INIT_LIST_HEAD :: "addr \<Rightarrow> list_heap \<Rightarrow> list_heap" where
  "INIT_LIST_HEAD l H = set_prev l l (set_next l l H)"

definition list_add_between :: "addr \<Rightarrow> addr \<Rightarrow> addr \<Rightarrow> list_heap \<Rightarrow> list_heap" where
  "list_add_between new pr nx H =
     (let H = set_prev nx new H;
          H = set_next new nx H;
          H = set_prev new pr H
      in set_next pr new H)"

definition list_add :: "addr \<Rightarrow> addr \<Rightarrow> list_heap \<Rightarrow> list_heap" where
  "list_add new head H = list_add_between new head (nxt H head) H"

definition list_add_tail :: "addr \<Rightarrow> addr \<Rightarrow> list_heap \<Rightarrow> list_heap" where
  "list_add_tail new head H = list_add_between new (prv H head) head H"

definition list_del_between :: "addr \<Rightarrow> addr \<Rightarrow> list_heap \<Rightarrow> list_heap" where
  "list_del_between pr nx H = set_next pr nx (set_prev nx pr H)"

definition list_del_entry :: "addr \<Rightarrow> list_heap \<Rightarrow> list_heap" where
  "list_del_entry e H = list_del_between (prv H e) (nxt H e) H"

definition list_del :: "addr \<Rightarrow> list_heap \<Rightarrow> list_heap" where
  "list_del e H =
     set_prev e LIST_POISON2 (set_next e LIST_POISON1 (list_del_between (prv H e) (nxt H e) H))"

definition list_remove_head :: "addr \<Rightarrow> list_heap \<Rightarrow> addr option \<times> list_heap" where
  "list_remove_head head H =
     (let ret = nxt H head
      in if head = ret then (None, H) else (Some ret, list_del ret H))"

definition list_replace :: "addr \<Rightarrow> addr \<Rightarrow> list_heap \<Rightarrow> list_heap" where
  "list_replace old new H =
     (let H = set_next new (nxt H old) H;
          H = set_prev (nxt H new) new H;
          H = set_prev new (prv H old) H
      in set_next (prv H new) new H)"

definition list_replace_init :: "addr \<Rightarrow> addr \<Rightarrow> list_heap \<Rightarrow> list_heap" where
  "list_replace_init old new H = INIT_LIST_HEAD old (list_replace old new H)"

definition list_del_init :: "addr \<Rightarrow> list_heap \<Rightarrow> list_heap" where
  "list_del_init e H = INIT_LIST_HEAD e (list_del_entry e H)"

definition list_move :: "addr \<Rightarrow> addr \<Rightarrow> list_heap \<Rightarrow> list_heap" where
  "list_move l head H = list_add l head (list_del_entry l H)"

definition list_move_tail :: "addr \<Rightarrow> addr \<Rightarrow> list_heap \<Rightarrow> list_heap" where
  "list_move_tail l head H = list_add_tail l head (list_del_entry l H)"

definition list_is_last :: "addr \<Rightarrow> addr \<Rightarrow> list_heap \<Rightarrow> bool" where
  "list_is_last l head H \<longleftrightarrow> nxt H l = head"

definition list_empty :: "addr \<Rightarrow> list_heap \<Rightarrow> bool" where
  "list_empty head H \<longleftrightarrow> nxt H head = head"

definition list_empty_careful :: "addr \<Rightarrow> list_heap \<Rightarrow> bool" where
  "list_empty_careful head H \<longleftrightarrow> (let nx = nxt H head in nx = head \<and> nx = prv H head)"

definition list_rotate_left :: "addr \<Rightarrow> list_heap \<Rightarrow> list_heap" where
  "list_rotate_left head H =
     (if \<not> list_empty head H then list_move_tail (nxt H head) head H else H)"

definition list_is_singular :: "addr \<Rightarrow> list_heap \<Rightarrow> bool" where
  "list_is_singular head H \<longleftrightarrow> \<not> list_empty head H \<and> nxt H head = prv H head"

definition list_cut_position_at :: "addr \<Rightarrow> addr \<Rightarrow> addr \<Rightarrow> list_heap \<Rightarrow> list_heap" where
  "list_cut_position_at l head entry H =
     (let new_first = nxt H entry;
          H = set_next l (nxt H head) H;
          H = set_prev (nxt H l) l H;
          H = set_prev l entry H;
          H = set_next entry l H;
          H = set_next head new_first H
      in set_prev new_first head H)"

definition list_cut_position :: "addr \<Rightarrow> addr \<Rightarrow> addr \<Rightarrow> list_heap \<Rightarrow> list_heap" where
  "list_cut_position l head entry H =
     (if list_empty head H then H
      else if list_is_singular head H \<and> nxt H head \<noteq> entry \<and> head \<noteq> entry then H
      else if entry = head then INIT_LIST_HEAD l H
      else list_cut_position_at l head entry H)"

definition list_splice_between :: "addr \<Rightarrow> addr \<Rightarrow> addr \<Rightarrow> list_heap \<Rightarrow> list_heap" where
  "list_splice_between l pr nx H =
     (let first = nxt H l;
          last = prv H l;
          H = set_prev first pr H;
          H = set_next pr first H;
          H = set_next last nx H
      in set_prev nx last H)"

definition list_splice :: "addr \<Rightarrow> addr \<Rightarrow> list_heap \<Rightarrow> list_heap" where
  "list_splice l head H =
     (if \<not> list_empty l H then list_splice_between l head (nxt H head) H else H)"

definition list_splice_tail :: "addr \<Rightarrow> addr \<Rightarrow> list_heap \<Rightarrow> list_heap" where
  "list_splice_tail l head H =
     (if \<not> list_empty l H then list_splice_between l (prv H head) head H else H)"

definition list_splice_init :: "addr \<Rightarrow> addr \<Rightarrow> list_heap \<Rightarrow> list_heap" where
  "list_splice_init l head H =
     (if \<not> list_empty l H
      then INIT_LIST_HEAD l (list_splice_between l head (nxt H head) H) else H)"

definition list_splice_tail_init :: "addr \<Rightarrow> addr \<Rightarrow> list_heap \<Rightarrow> list_heap" where
  "list_splice_tail_init l head H =
     (if \<not> list_empty l H
      then INIT_LIST_HEAD l (list_splice_between l (prv H head) head H) else H)"

text \<open>
  The iteration \<^verbatim>\<open>list_for_each\<close> visits \<^verbatim>\<open>head->next\<close>, then the successor of each entry, until it is
  back at the head; the fuel bounds the number of entries visited, and \<open>None\<close> is a walk that has
  not come back to the head within it.
\<close>

fun list_for_each :: "nat \<Rightarrow> addr \<Rightarrow> addr \<Rightarrow> list_heap \<Rightarrow> addr list option" where
  "list_for_each fuel pos head H =
     (if pos = head then Some []
      else case fuel of
        0 \<Rightarrow> None
      | Suc f \<Rightarrow> map_option (Cons pos) (list_for_each f (nxt H pos) head H))"

definition list_entries :: "nat \<Rightarrow> addr \<Rightarrow> list_heap \<Rightarrow> addr list option" where
  "list_entries fuel head H = list_for_each fuel (nxt H head) head H"

text \<open>
  The loop of \<^verbatim>\<open>dequeue_iterate\<close>: take the head of the queue until the queue is empty; the result
  lists the entries in the order in which the loop body sees them.  Every structure the kernel
  links this way has its \<^verbatim>\<open>list_head\<close> first, so the pointer to the structure is the pointer to the
  link and \<^verbatim>\<open>NULL\<close> stays \<^verbatim>\<open>NULL\<close>.
\<close>

fun dequeue_iterate :: "nat \<Rightarrow> addr \<Rightarrow> list_heap \<Rightarrow> (addr list \<times> list_heap) option" where
  "dequeue_iterate fuel head H =
     (case list_remove_head head H of
        (None, H') \<Rightarrow> Some ([], H')
      | (Some pos, H') \<Rightarrow>
          (case fuel of
             0 \<Rightarrow> None
           | Suc f \<Rightarrow> map_option (\<lambda>(ps, H''). (pos # ps, H'')) (dequeue_iterate f head H')))"

declare list_for_each.simps [simp del] dequeue_iterate.simps [simp del]

section \<open>Abstraction\<close>

text \<open>
  \<open>edge H a b\<close>: the two links between neighbours agree.  A \<open>chain\<close> is a sequence of addresses with
  an edge between each and the next; a ring with head \<open>h\<close> and entries \<open>xs\<close> is the chain from \<open>h\<close>
  through \<open>xs\<close> back to \<open>h\<close>.
\<close>

definition edge :: "list_heap \<Rightarrow> addr \<Rightarrow> addr \<Rightarrow> bool" where
  "edge H a b \<longleftrightarrow> nxt H a = b \<and> prv H b = a"

fun chain :: "list_heap \<Rightarrow> addr list \<Rightarrow> bool" where
  "chain H (x # y # zs) \<longleftrightarrow> edge H x y \<and> chain H (y # zs)"
| "chain H _ \<longleftrightarrow> True"

definition is_list :: "list_heap \<Rightarrow> addr \<Rightarrow> addr list \<Rightarrow> bool" where
  "is_list H h xs \<longleftrightarrow> distinct (h # xs) \<and> chain H (h # xs @ [h])"

section \<open>Chains and updates\<close>

lemma nxt_set_next [simp]: "nxt (set_next a v H) x = (if x = a then v else nxt H x)"
  by (simp add: set_next_def)

lemma nxt_set_prev [simp]: "nxt (set_prev a v H) = nxt H"
  by (simp add: set_prev_def)

lemma prv_set_prev [simp]: "prv (set_prev a v H) x = (if x = a then v else prv H x)"
  by (simp add: set_prev_def)

lemma prv_set_next [simp]: "prv (set_next a v H) = prv H"
  by (simp add: set_next_def)

lemma chain_append:
  "chain H (xs @ ys) \<longleftrightarrow>
     chain H xs \<and> chain H ys \<and> (xs \<noteq> [] \<longrightarrow> ys \<noteq> [] \<longrightarrow> edge H (last xs) (hd ys))"
proof (induction xs rule: induct_list012)
  case (2 x)
  then show ?case by (cases ys) auto
qed auto

lemma chain_set_next [simp]: "a \<notin> set (butlast zs) \<Longrightarrow> chain (set_next a v H) zs = chain H zs"
  by (induction zs rule: induct_list012) (auto simp: edge_def split: if_splits)

lemma chain_set_prev [simp]: "a \<notin> set (tl zs) \<Longrightarrow> chain (set_prev a v H) zs = chain H zs"
  by (induction zs rule: induct_list012) (auto simp: edge_def split: if_splits)

lemma last_notin_butlast: "distinct zs \<Longrightarrow> zs \<noteq> [] \<Longrightarrow> last zs \<notin> set (butlast zs)"
  by (induction zs) auto

lemma hd_notin_tl: "distinct zs \<Longrightarrow> hd zs \<notin> set (tl zs)"
  by (cases zs) auto

lemma in_set_tlD: "a \<in> set (tl zs) \<Longrightarrow> a \<in> set zs"
  by (cases zs) auto

lemma notin_butlast: "a \<notin> set zs \<Longrightarrow> a \<notin> set (butlast zs)"
  by (auto dest: in_set_butlastD)

lemma notin_tl: "a \<notin> set zs \<Longrightarrow> a \<notin> set (tl zs)"
  by (cases zs) auto

text \<open>A ring cut open at any place: the part from the head, the rest back to it, and the edge.\<close>

lemma is_list_split:
  "is_list H h (xs @ ys) \<longleftrightarrow>
     distinct (h # xs @ ys) \<and> chain H (h # xs) \<and> chain H (ys @ [h]) \<and>
     edge H (last (h # xs)) (hd (ys @ [h]))"
  using chain_append [of H "h # xs" "ys @ [h]"] by (auto simp: is_list_def)

lemma last_in_ring: "last (h # xs) = h \<or> last (h # xs) \<in> set xs"
  by simp

lemma hd_in_ring: "hd (ys @ [h]) = h \<or> hd (ys @ [h]) \<in> set ys"
  by (cases ys) auto

lemma is_list_frame_next: "a \<notin> set (h # xs) \<Longrightarrow> is_list (set_next a v H) h xs = is_list H h xs"
  unfolding is_list_def by (subst chain_set_next) (auto simp: butlast_append)

lemma is_list_frame_prev: "a \<notin> set (h # xs) \<Longrightarrow> is_list (set_prev a v H) h xs = is_list H h xs"
  unfolding is_list_def by (subst chain_set_prev) auto

lemmas is_list_frame [simp] = is_list_frame_next is_list_frame_prev

lemma is_list_distinct: "is_list H h xs \<Longrightarrow> distinct (h # xs)"
  by (simp add: is_list_def)

lemma is_list_edge: "is_list H h (xs @ ys) \<Longrightarrow> edge H (last (h # xs)) (hd (ys @ [h]))"
  by (simp only: is_list_split)

lemma nxt_last_part: "is_list H h (xs @ ys) \<Longrightarrow> nxt H (last (h # xs)) = hd (ys @ [h])"
  using is_list_edge [of H h xs ys] by (simp add: edge_def)

lemma prv_hd_part: "is_list H h (xs @ ys) \<Longrightarrow> prv H (hd (ys @ [h])) = last (h # xs)"
  using is_list_edge [of H h xs ys] by (simp add: edge_def)

lemma ring_next_head: "is_list H h xs \<Longrightarrow> nxt H h = hd (xs @ [h])"
  using nxt_last_part [of H h "[]" xs] by simp

lemma ring_prev_head: "is_list H h xs \<Longrightarrow> prv H h = last (h # xs)"
  using prv_hd_part [of H h xs "[]"] by simp

section \<open>Insertion and removal anywhere in a ring\<close>

lemma is_list_insert:
  assumes L: "is_list H h (xs @ ys)" and new: "new \<notin> set (h # xs @ ys)"
    and pr: "pr = last (h # xs)" and nx: "nx = hd (ys @ [h])"
  shows "is_list (list_add_between new pr nx H) h (xs @ new # ys)"
proof -
  from L have d: "distinct (h # xs @ ys)" and c: "chain H (h # xs)" "chain H (ys @ [h])"
    by (simp_all only: is_list_split)
  have pr_in: "pr = h \<or> pr \<in> set xs" and nx_in: "nx = h \<or> nx \<in> set ys"
    unfolding pr nx by (rule last_in_ring, rule hd_in_ring)
  have "pr \<notin> set (butlast (h # xs))" "nx \<notin> set xs"
    using d last_notin_butlast [of "h # xs"] nx_in by (auto simp: pr)
  moreover have "pr \<notin> set ys" "nx \<notin> set (tl (ys @ [h]))"
    using d hd_notin_tl [of "ys @ [h]"] pr_in by (auto simp: nx)
  moreover have "new \<notin> set (butlast (h # xs))" "new \<notin> set (tl (ys @ [h]))"
    using new by (auto dest: in_set_butlastD list.set_sel(2) [rotated])
  ultimately have c': "chain (list_add_between new pr nx H) (h # xs)"
      "chain (list_add_between new pr nx H) (ys @ [h])"
    using c new unfolding list_add_between_def Let_def by simp_all
  have ne: "new \<noteq> pr" "new \<noteq> nx" using new pr_in nx_in by auto
  have e: "edge (list_add_between new pr nx H) pr new" "edge (list_add_between new pr nx H) new nx"
    using ne by (auto simp: edge_def list_add_between_def Let_def)
  have "chain (list_add_between new pr nx H) (new # ys @ [h])"
    using chain_append [of _ "[new]" "ys @ [h]"] c'(2) e(2) by (simp add: nx)
  then show ?thesis
    unfolding is_list_split using d new c'(1) e(1) by (auto simp: pr)
qed

lemma is_list_neighbours:
  assumes "is_list H h (xs @ e # ys)"
  shows "prv H e = last (h # xs)" "nxt H e = hd (ys @ [h])"
  using prv_hd_part [of H h xs "e # ys"] nxt_last_part [of H h "xs @ [e]" ys] assms
  by simp_all

lemma is_list_remove:
  assumes L: "is_list H h (xs @ e # ys)"
  shows "is_list (list_del_entry e H) h (xs @ ys)"
proof -
  let ?pr = "last (h # xs)" and ?nx = "hd (ys @ [h])"
  from L have d: "distinct (h # xs @ e # ys)" and c: "chain H (h # xs)" "chain H ((e # ys) @ [h])"
    by (simp_all only: is_list_split)
  have c2: "chain H (ys @ [h])" using c(2) chain_append [of H "[e]" "ys @ [h]"] by simp
  have "?pr \<notin> set (butlast (h # xs))" "?nx \<notin> set xs"
    using d last_notin_butlast [of "h # xs"] hd_in_ring [of ys h] by auto
  moreover have "?pr \<notin> set ys" "?nx \<notin> set (tl (ys @ [h]))"
    using d hd_notin_tl [of "ys @ [h]"] last_in_ring [of h xs] by auto
  ultimately show ?thesis
    unfolding is_list_split list_del_entry_def is_list_neighbours [OF L] list_del_between_def
    using d c(1) c2 by (auto simp: edge_def)
qed

lemma is_list_splice:
  assumes L: "is_list H h (xs @ ys)" and M: "is_list H l zs" and ne: "zs \<noteq> []"
    and disj: "set (l # zs) \<inter> set (h # xs @ ys) = {}"
    and pr: "pr = last (h # xs)" and nx: "nx = hd (ys @ [h])"
  shows "is_list (list_splice_between l pr nx H) h (xs @ zs @ ys)"
proof -
  let ?H = "list_splice_between l pr nx H"
  from L have d: "distinct (h # xs @ ys)" and c: "chain H (h # xs)" "chain H (ys @ [h])"
    by (simp_all only: is_list_split)
  have dz: "distinct zs" using is_list_distinct [OF M] by simp
  have cz: "chain H zs"
    using M chain_append [of H "[l]" "zs @ [l]"] chain_append [of H zs "[l]"] by (simp add: is_list_def)
  have ends: "nxt H l = hd zs" "prv H l = last zs" "hd zs \<in> set zs" "last zs \<in> set zs"
    using ring_next_head [OF M] ring_prev_head [OF M] ne by simp_all
  have pr_in: "pr \<in> set (h # xs)" and nx_in: "nx \<in> set (ys @ [h])"
    using last_in_ring [of h xs] hd_in_ring [of ys h] by (auto simp: pr nx)
  have "pr \<notin> set (butlast (h # xs))" "nx \<notin> set xs" "pr \<notin> set ys" "nx \<notin> set (tl (ys @ [h]))"
    using d last_notin_butlast [of "h # xs"] hd_notin_tl [of "ys @ [h]"] pr_in nx_in
    by (auto simp: pr nx)
  moreover have "last zs \<notin> set (butlast (h # xs))" "hd zs \<notin> set xs" "last zs \<notin> set ys"
      "hd zs \<notin> set (tl (ys @ [h]))"
    using disj ends by (auto dest!: in_set_butlastD in_set_tlD)
  ultimately have c': "chain ?H (h # xs)" "chain ?H (ys @ [h])"
    using c unfolding list_splice_between_def Let_def ends by simp_all
  have out: "pr \<notin> set (butlast zs)" "nx \<notin> set (tl zs)" "pr \<notin> set zs" "nx \<notin> set zs"
    using disj pr_in nx_in by (auto dest!: in_set_butlastD in_set_tlD)
  have cz': "chain ?H zs"
    using cz out last_notin_butlast [OF dz ne] hd_notin_tl [OF dz]
    unfolding list_splice_between_def Let_def ends by simp
  have e: "edge ?H pr (hd zs)" "edge ?H (last zs) nx"
    using ends out unfolding list_splice_between_def Let_def ends edge_def by auto
  have "chain ?H (zs @ ys @ [h])"
    unfolding chain_append [of ?H zs] using cz' c'(2) e(2) by (simp add: nx)
  then show ?thesis
    unfolding is_list_split using d dz disj c'(1) e(1) ne by (auto simp: pr)
qed

lemma is_list_cut:
  assumes L: "is_list H h (xs @ ys)" and ne: "xs \<noteq> []" and l: "l \<notin> set (h # xs @ ys)"
  shows "is_list (list_cut_position_at l h (last xs) H) l xs"
    and "is_list (list_cut_position_at l h (last xs) H) h ys"
proof -
  let ?H = "list_cut_position_at l h (last xs) H" and ?nf = "hd (ys @ [h])"
  from L have d: "distinct (h # xs @ ys)" and c: "chain H (h # xs)" "chain H (ys @ [h])"
    by (simp_all only: is_list_split)
  have cx: "chain H xs" "edge H h (hd xs)" using c(1) chain_append [of H "[h]" xs] ne by auto
  have nf: "nxt H (last xs) = ?nf" using nxt_last_part [OF L] ne by simp
  have hx: "nxt H h = hd xs" using cx(2) by (simp add: edge_def)
  have inx: "hd xs \<in> set xs" "last xs \<in> set xs" using ne by simp_all
  have dx: "last xs \<notin> set (butlast xs)" "hd xs \<notin> set (tl xs)"
    using d last_notin_butlast [of xs] hd_notin_tl [of xs] ne by auto
  have nfo: "?nf \<notin> set xs" "?nf \<notin> set (tl (ys @ [h]))" "?nf \<noteq> l"
    using d hd_in_ring [of ys h] hd_notin_tl [of "ys @ [h]"] l by auto
  have o: "h \<notin> set xs" "h \<notin> set ys" "l \<notin> set xs" "l \<notin> set ys" "l \<noteq> h"
      "hd xs \<notin> set ys" "last xs \<notin> set ys"
    using d l inx by auto
  have inx_tl: "hd xs \<notin> set (tl (ys @ [h]))" "l \<notin> set (tl (ys @ [h]))"
    using o inx by (auto dest!: in_set_tlD)
  have u: "?H = set_prev ?nf h (set_next h ?nf (set_next (last xs) l (set_prev l (last xs)
      (set_prev (hd xs) l (set_next l (hd xs) H)))))"
    unfolding list_cut_position_at_def Let_def nf hx by simp
  have "chain ?H xs" unfolding u using cx(1) dx nfo o
    by (simp add: notin_butlast notin_tl)
  moreover have "edge ?H l (hd xs)" "edge ?H (last xs) l"
    unfolding u edge_def using nfo o inx by auto
  ultimately show "is_list ?H l xs"
    unfolding is_list_def using d o ne
      chain_append [of ?H "[l]" "xs @ [l]"] chain_append [of ?H xs "[l]"] by simp
  have "chain ?H (ys @ [h])" unfolding u using c(2) nfo o
    inx_tl by (simp add: notin_tl)
  moreover have "edge ?H h ?nf" unfolding u edge_def using o by simp
  ultimately show "is_list ?H h ys"
    using is_list_split [of ?H h "[]" ys] d by simp
qed

section \<open>The operations on rings\<close>

lemma is_list_init: "is_list (INIT_LIST_HEAD h H) h []"
  by (simp add: is_list_def INIT_LIST_HEAD_def edge_def)

lemma is_list_empty_iff: "is_list H h xs \<Longrightarrow> list_empty h H \<longleftrightarrow> xs = []"
  using ring_next_head [of H h xs] is_list_distinct [of H h xs]
  by (cases xs) (auto simp: list_empty_def)

lemma is_list_add:
  "is_list H h xs \<Longrightarrow> new \<notin> set (h # xs) \<Longrightarrow> is_list (list_add new h H) h (new # xs)"
  using is_list_insert [of H h "[]" xs new h "nxt H h"]
  by (simp add: list_add_def ring_next_head)

lemma is_list_add_tail:
  "is_list H h xs \<Longrightarrow> new \<notin> set (h # xs) \<Longrightarrow> is_list (list_add_tail new h H) h (xs @ [new])"
  using is_list_insert [of H h xs "[]" new "prv H h" h]
  by (simp add: list_add_tail_def ring_prev_head)

lemma is_list_del:
  assumes "is_list H h (xs @ e # ys)"
  shows "is_list (list_del e H) h (xs @ ys)"
proof -
  have "e \<notin> set (h # xs @ ys)" using is_list_distinct [OF assms] by auto
  then show ?thesis
    using is_list_remove [OF assms] unfolding list_del_def list_del_entry_def by simp
qed

lemma is_list_del_remove1:
  assumes "is_list H h xs" "e \<in> set xs"
  shows "is_list (list_del e H) h (remove1 e xs)"
proof -
  obtain ys zs where xs: "xs = ys @ e # zs" using assms(2) by (auto dest: split_list)
  then have "e \<notin> set ys" using is_list_distinct [OF assms(1)] by auto
  then show ?thesis using is_list_del assms(1) by (simp add: xs remove1_append)
qed

lemma is_list_del_init:
  assumes "is_list H h (xs @ e # ys)"
  shows "is_list (list_del_init e H) h (xs @ ys)" "is_list (list_del_init e H) e []"
proof -
  have "e \<notin> set (h # xs @ ys)" using is_list_distinct [OF assms] by auto
  then show "is_list (list_del_init e H) h (xs @ ys)"
    using is_list_remove [OF assms] by (simp add: list_del_init_def INIT_LIST_HEAD_def)
qed (simp add: list_del_init_def is_list_init)

lemma is_list_remove_head:
  assumes "is_list H h xs"
  shows "list_remove_head h H =
    (case xs of [] \<Rightarrow> (None, H) | x # _ \<Rightarrow> (Some x, list_del x H))"
    and "is_list (snd (list_remove_head h H)) h (tl xs)"
proof -
  show eq: "list_remove_head h H =
      (case xs of [] \<Rightarrow> (None, H) | x # _ \<Rightarrow> (Some x, list_del x H))"
    using ring_next_head [OF assms] is_list_distinct [OF assms]
    by (cases xs) (auto simp: list_remove_head_def)
  show "is_list (snd (list_remove_head h H)) h (tl xs)"
    using assms is_list_del [of H h "[]"] by (cases xs) (simp_all add: eq)
qed

lemma is_list_move:
  assumes "is_list H h (xs @ e # ys)"
  shows "is_list (list_move e h H) h (e # xs @ ys)"
    and "is_list (list_move_tail e h H) h (xs @ ys @ [e])"
proof -
  have "e \<notin> set (h # xs @ ys)" using is_list_distinct [OF assms] by auto
  then show "is_list (list_move e h H) h (e # xs @ ys)"
      "is_list (list_move_tail e h H) h (xs @ ys @ [e])"
    using is_list_remove [OF assms] is_list_add is_list_add_tail [of _ h "xs @ ys" e]
    by (simp_all add: list_move_def list_move_tail_def)
qed

lemma is_list_rotate_left:
  assumes "is_list H h xs"
  shows "is_list (list_rotate_left h H) h (rotate1 xs)"
proof (cases xs)
  case Nil
  then show ?thesis using assms is_list_empty_iff [OF assms] by (simp add: list_rotate_left_def)
next
  case (Cons x ys)
  then have "list_rotate_left h H = list_move_tail x h H"
    using is_list_empty_iff [OF assms] ring_next_head [OF assms] by (simp add: list_rotate_left_def)
  then show ?thesis using is_list_move(2) [of H h "[]" x ys] assms Cons by simp
qed

lemma hd_eq_last_iff: "distinct xs \<Longrightarrow> xs \<noteq> [] \<Longrightarrow> hd xs = last xs \<longleftrightarrow> length xs = 1"
  using last_in_set [of "tl xs"] by (cases xs) auto

lemma is_list_singular_iff:
  assumes "is_list H h xs"
  shows "list_is_singular h H \<longleftrightarrow> length xs = 1"
proof -
  have "hd xs = last xs \<longleftrightarrow> length xs = 1" if "xs \<noteq> []"
    using is_list_distinct [OF assms] that hd_eq_last_iff [of xs] by simp
  then show ?thesis
    using is_list_empty_iff [OF assms] ring_next_head [OF assms] ring_prev_head [OF assms]
    by (cases xs) (auto simp: list_is_singular_def)
qed

lemma is_list_replace:
  assumes L: "is_list H h (xs @ old # ys)" and new: "new \<notin> set (h # xs @ old # ys)"
  shows "is_list (list_replace old new H) h (xs @ new # ys)"
proof -
  let ?H = "list_del_entry old H" and ?pr = "last (h # xs)" and ?nx = "hd (ys @ [h])"
  have out: "old \<notin> set (h # xs @ new # ys)" using is_list_distinct [OF L] new by auto
  have ends: "?pr \<noteq> old" "?nx \<noteq> old" "?pr \<noteq> new" "?nx \<noteq> new"
    using out new last_in_ring [of h xs] hd_in_ring [of ys h] by auto
  have "is_list (list_add_between new ?pr ?nx ?H) h (xs @ new # ys)"
    using is_list_insert [OF is_list_remove [OF L], of new] new by simp
  also have "list_add_between new ?pr ?nx ?H = list_replace old new H"
    unfolding list_replace_def list_add_between_def list_del_entry_def list_del_between_def Let_def
    using ends by (simp add: is_list_neighbours [OF L] set_next_def set_prev_def fun_upd_twist)
  finally show ?thesis .
qed

lemma is_list_replace1:
  assumes "is_list H h xs" "old \<in> set xs" "new \<notin> set (h # xs)"
  shows "is_list (list_replace old new H) h (replace1 old new xs)"
proof -
  obtain ys zs where xs: "xs = ys @ old # zs" "old \<notin> set ys"
    using split_list_first [OF assms(2)] by blast
  then show ?thesis using is_list_replace [of H h ys old zs new] assms by (simp add: replace1_split)
qed

lemma is_list_replace_init:
  assumes "is_list H h (xs @ old # ys)" "new \<notin> set (h # xs @ old # ys)"
  shows "is_list (list_replace_init old new H) h (xs @ new # ys)"
    and "is_list (list_replace_init old new H) old []"
proof -
  have "old \<notin> set (h # xs @ new # ys)" using is_list_distinct [OF assms(1)] assms(2) by auto
  then show "is_list (list_replace_init old new H) h (xs @ new # ys)"
    using is_list_replace [OF assms] by (simp add: list_replace_init_def INIT_LIST_HEAD_def)
qed (simp add: list_replace_init_def is_list_init)

lemma is_list_splice_head:
  assumes "is_list H h xs" "is_list H l zs" "set (l # zs) \<inter> set (h # xs) = {}"
  shows "is_list (list_splice l h H) h (zs @ xs)"
    and "is_list (list_splice_tail l h H) h (xs @ zs)"
  using is_list_splice [of H h "[]" xs l zs h "nxt H h"]
    is_list_splice [of H h xs "[]" l zs "prv H h" h] assms
    is_list_empty_iff [OF assms(2)] ring_next_head [OF assms(1)] ring_prev_head [OF assms(1)]
  by (auto simp: list_splice_def list_splice_tail_def)

lemma is_list_init_frame:
  assumes "is_list H h xs" "l \<notin> set (h # xs)"
  shows "is_list (INIT_LIST_HEAD l H) h xs"
  using assms by (simp add: INIT_LIST_HEAD_def)

lemma is_list_splice_init:
  assumes "is_list H h xs" "is_list H l zs" "set (l # zs) \<inter> set (h # xs) = {}"
  shows "is_list (list_splice_init l h H) h (zs @ xs)"
    and "is_list (list_splice_init l h H) l []"
    and "is_list (list_splice_tail_init l h H) h (xs @ zs)"
    and "is_list (list_splice_tail_init l h H) l []"
proof -
  have out: "l \<notin> set (h # zs @ xs)" "l \<notin> set (h # xs @ zs)"
    using assms(3) is_list_distinct [OF assms(2)] by auto
  show "is_list (list_splice_init l h H) h (zs @ xs)"
      "is_list (list_splice_tail_init l h H) h (xs @ zs)"
    using is_list_splice_head [OF assms] is_list_init_frame out
    by (auto simp: list_splice_init_def list_splice_tail_init_def list_splice_def
        list_splice_tail_def split: if_splits)
  show "is_list (list_splice_init l h H) l []" "is_list (list_splice_tail_init l h H) l []"
    using is_list_empty_iff [OF assms(2)] assms(2)
    by (auto simp: list_splice_init_def list_splice_tail_init_def is_list_init)
qed

lemma is_list_cut_position:
  assumes L: "is_list H h (xs @ e # ys)" and l: "l \<notin> set (h # xs @ e # ys)"
  shows "is_list (list_cut_position l h e H) l (xs @ [e])"
    and "is_list (list_cut_position l h e H) h ys"
proof -
  have d: "distinct (h # xs @ e # ys)" using L by (rule is_list_distinct)
  have "nxt H h = e" if "list_is_singular h H"
    using that is_list_singular_iff [OF L] ring_next_head [OF L] by simp
  moreover have "\<not> list_empty h H" using is_list_empty_iff [OF L] by simp
  ultimately have "list_cut_position l h e H = list_cut_position_at l h (last (xs @ [e])) H"
    using d by (auto simp: list_cut_position_def)
  then show "is_list (list_cut_position l h e H) l (xs @ [e])"
      "is_list (list_cut_position l h e H) h ys"
    using is_list_cut [of H h "xs @ [e]" ys l] L l by simp_all
qed

section \<open>Iteration\<close>

lemma list_for_each_chain:
  assumes "chain H (xs @ [h])" "h \<notin> set xs" "length xs \<le> fuel"
  shows "list_for_each fuel (hd (xs @ [h])) h H = Some xs"
  using assms
proof (induction xs arbitrary: fuel)
  case Nil
  then show ?case by (simp add: list_for_each.simps)
next
  case (Cons x xs)
  then obtain f where f: "fuel = Suc f" "length xs \<le> f" by (cases fuel) auto
  have "nxt H x = hd (xs @ [h])" "chain H (xs @ [h])"
    using Cons.prems(1) chain_append [of H "[x]" "xs @ [h]"] by (simp_all add: edge_def)
  then show ?case
    using Cons f by (subst list_for_each.simps) auto
qed

lemma list_entries_ring:
  assumes "is_list H h xs" "length xs \<le> fuel"
  shows "list_entries fuel h H = Some xs"
proof -
  have "chain H (xs @ [h])" "h \<notin> set xs"
    using assms(1) is_list_split [of H h "[]" xs] by simp_all
  then show ?thesis
    using list_for_each_chain assms ring_next_head [OF assms(1)] by (simp add: list_entries_def)
qed

section \<open>The interface the kernel uses\<close>

text \<open>
  The stack and queue interface of \<^verbatim>\<open>list.h\<close> (\<^verbatim>\<open>list_push\<close>, \<^verbatim>\<open>list_enqueue\<close>, \<^verbatim>\<open>list_dequeue\<close>), with
  the frame laws that let a kernel component keep several rings in one heap.
\<close>

locale intrusive_list =
  fixes ring :: "'h \<Rightarrow> 'a \<Rightarrow> 'a list \<Rightarrow> bool"
    and init :: "'a \<Rightarrow> 'h \<Rightarrow> 'h"
    and push :: "'a \<Rightarrow> 'a \<Rightarrow> 'h \<Rightarrow> 'h"
    and enqueue :: "'a \<Rightarrow> 'a \<Rightarrow> 'h \<Rightarrow> 'h"
    and dequeue :: "'a \<Rightarrow> 'h \<Rightarrow> 'a option \<times> 'h"
  assumes ring_distinct: "ring H h xs \<Longrightarrow> distinct (h # xs)"
    and ring_init: "ring (init h H) h []"
    and ring_push: "ring H h xs \<Longrightarrow> new \<notin> set (h # xs) \<Longrightarrow> ring (push new h H) h (new # xs)"
    and ring_enqueue:
      "ring H h xs \<Longrightarrow> new \<notin> set (h # xs) \<Longrightarrow> ring (enqueue new h H) h (xs @ [new])"
    and ring_dequeue: "ring H h xs \<Longrightarrow> ring (snd (dequeue h H)) h (tl xs)"
    and dequeue_value:
      "ring H h xs \<Longrightarrow> fst (dequeue h H) = (case xs of [] \<Rightarrow> None | x # _ \<Rightarrow> Some x)"
    and frame_init: "ring H k zs \<Longrightarrow> h \<notin> set (k # zs) \<Longrightarrow> ring (init h H) k zs"
    and frame_enqueue:
      "ring H h xs \<Longrightarrow> ring H k zs \<Longrightarrow> set (k # zs) \<inter> set (new # h # xs) = {} \<Longrightarrow>
         ring (enqueue new h H) k zs"
    and frame_dequeue:
      "ring H h xs \<Longrightarrow> ring H k zs \<Longrightarrow> set (k # zs) \<inter> set (h # xs) = {} \<Longrightarrow>
         ring (snd (dequeue h H)) k zs"
begin

lemma enqueue_all:
  assumes "ring H h xs" "distinct (h # xs @ ns)"
  shows "ring (fold (\<lambda>n. enqueue n h) ns H) h (xs @ ns)"
  using assms
proof (induction ns arbitrary: H xs)
  case Nil
  then show ?case by simp
next
  case (Cons n ns)
  then have "ring (enqueue n h H) h (xs @ [n])" by (intro ring_enqueue) auto
  from Cons.IH [OF this] Cons.prems(2) show ?case by simp
qed

lemma push_then_dequeue:
  assumes "ring H h xs" "new \<notin> set (h # xs)"
  shows "fst (dequeue h (push new h H)) = Some new"
    and "ring (snd (dequeue h (push new h H))) h xs"
  using dequeue_value [OF ring_push [OF assms]] ring_dequeue [OF ring_push [OF assms]] by simp_all

lemma migrate:
  assumes h: "ring H h (x # xs)" and k: "ring H k ys"
    and disj: "set (h # x # xs) \<inter> set (k # ys) = {}"
  shows "fst (dequeue h H) = Some x"
    and "ring (enqueue x k (snd (dequeue h H))) h xs"
    and "ring (enqueue x k (snd (dequeue h H))) k (ys @ [x])"
proof -
  show "fst (dequeue h H) = Some x" using dequeue_value [OF h] by simp
  have h': "ring (snd (dequeue h H)) h xs" using ring_dequeue [OF h] by simp
  have k': "ring (snd (dequeue h H)) k ys" using frame_dequeue [OF h k] disj by (simp add: Int_commute)
  show "ring (enqueue x k (snd (dequeue h H))) k (ys @ [x])"
    using ring_enqueue [OF k'] disj by auto
  show "ring (enqueue x k (snd (dequeue h H))) h xs"
    using frame_enqueue [OF k' h'] disj ring_distinct [OF h] by auto
qed

end

lemma list_add_tail_frame:
  assumes "is_list H h xs" "set (k # zs) \<inter> set (new # h # xs) = {}"
  shows "is_list (list_add_tail new h H) k zs = is_list H k zs"
    and "is_list (list_add new h H) k zs = is_list H k zs"
proof -
  have "last (h # xs) \<notin> set (k # zs)" "hd (xs @ [h]) \<notin> set (k # zs)"
    using assms(2) last_in_ring [of h xs] hd_in_ring [of xs h] by auto
  moreover have "h \<notin> set (k # zs)" "new \<notin> set (k # zs)" using assms(2) by auto
  ultimately show "is_list (list_add_tail new h H) k zs = is_list H k zs"
      "is_list (list_add new h H) k zs = is_list H k zs"
    unfolding list_add_tail_def list_add_def list_add_between_def Let_def
      ring_prev_head [OF assms(1)] ring_next_head [OF assms(1)] by simp_all
qed

lemma list_del_frame:
  assumes "is_list H h (xs @ e # ys)" "set (k # zs) \<inter> set (h # xs @ e # ys) = {}"
  shows "is_list (list_del e H) k zs = is_list H k zs"
proof -
  have "last (h # xs) \<notin> set (k # zs)" "hd (ys @ [h]) \<notin> set (k # zs)" "e \<notin> set (k # zs)"
    using assms(2) last_in_ring [of h xs] hd_in_ring [of ys h] by auto
  then show ?thesis
    unfolding list_del_def list_del_between_def is_list_neighbours [OF assms(1)] by simp
qed

lemma list_remove_head_frame:
  assumes "is_list H h xs" "set (k # zs) \<inter> set (h # xs) = {}"
  shows "is_list (snd (list_remove_head h H)) k zs = is_list H k zs"
  using list_del_frame [of H h "[]" "hd xs" "tl xs" k zs] assms
  by (cases xs) (simp_all add: is_list_remove_head(1) [OF assms(1)])

interpretation kl: intrusive_list is_list INIT_LIST_HEAD list_add list_add_tail list_remove_head
proof unfold_locales
  fix H h xs assume "is_list H h xs"
  then show "fst (list_remove_head h H) = (case xs of [] \<Rightarrow> None | x # _ \<Rightarrow> Some x)"
    by (simp add: is_list_remove_head(1) split: list.split)
  from \<open>is_list H h xs\<close> show "distinct (h # xs)" by (rule is_list_distinct)
qed (auto simp: is_list_init is_list_add is_list_add_tail is_list_remove_head(2)
    is_list_init_frame list_add_tail_frame list_remove_head_frame)

lemma dequeue_iterate_ring:
  assumes "is_list H h xs" "length xs \<le> fuel"
  shows "\<exists>H'. dequeue_iterate fuel h H = Some (xs, H') \<and> is_list H' h []"
  using assms
proof (induction xs arbitrary: fuel H)
  case Nil
  then show ?case using is_list_remove_head(1) [OF Nil(1)] by (simp add: dequeue_iterate.simps)
next
  case (Cons x xs)
  then obtain f where f: "fuel = Suc f" "length xs \<le> f" by (cases fuel) auto
  have "is_list (list_del x H) h xs" using is_list_del [of H h "[]" x xs] Cons.prems(1) by simp
  from Cons.IH [OF this f(2)] obtain H' where
    "dequeue_iterate f h (list_del x H) = Some (xs, H')" "is_list H' h []" by blast
  then show ?case
    using is_list_remove_head(1) [OF Cons.prems(1)]
    by (subst dequeue_iterate.simps) (simp add: f(1))
qed

section \<open>Properties\<close>

text \<open>An example ring for the witnesses: head \<open>1\<close>, entries \<open>2\<close>, \<open>3\<close>, \<open>4\<close>.\<close>

definition ring_example :: list_heap where
  "ring_example = list_add_tail 4 1 (list_add_tail 3 1 (list_add_tail 2 1
     (INIT_LIST_HEAD 1 \<lparr>nxt = (\<lambda>_. 0), prv = (\<lambda>_. 0)\<rparr>)))"

lemma ring_example_list: "is_list ring_example 1 [2, 3, 4]"
  using kl.enqueue_all [of "INIT_LIST_HEAD 1 \<lparr>nxt = (\<lambda>_. 0), prv = (\<lambda>_. 0)\<rparr>" 1 "[]" "[2, 3, 4]"]
    kl.ring_init by (simp add: ring_example_def)

text \<open>
  C15: on a well-formed ring, \<^verbatim>\<open>list_add\<close> puts a fresh entry at the front and \<^verbatim>\<open>list_add_tail\<close> at
  the back, the order of the other entries is kept, and every ring that shares no address with
  this one is unchanged.
\<close>

theorem list_add_refines:
  assumes "is_list H h xs" and "new \<notin> set (h # xs)"
  shows "is_list (list_add new h H) h (new # xs) \<and>
    is_list (list_add_tail new h H) h (xs @ [new]) \<and>
    (\<forall>k zs. is_list H k zs \<and> set (k # zs) \<inter> set (new # h # xs) = {} \<longrightarrow>
      is_list (list_add new h H) k zs \<and> is_list (list_add_tail new h H) k zs)"
  using assms is_list_add is_list_add_tail list_add_tail_frame [OF assms(1)] by blast

theorem list_add_refines_witness:
  "is_list (list_add 9 1 ring_example) 1 [9, 2, 3, 4] \<and>
   is_list (list_add_tail 9 1 ring_example) 1 [2, 3, 4, 9]"
  using list_add_refines [of ring_example 1 "[2, 3, 4]" 9] ring_example_list by simp

text \<open>
  C20: removal. \<^verbatim>\<open>list_del\<close> takes exactly its entry out of the ring wherever it stands,
  \<^verbatim>\<open>list_del_init\<close> also leaves the entry an empty ring of its own, and \<^verbatim>\<open>__list_remove_head\<close>
  returns the first entry, or \<^verbatim>\<open>NULL\<close> on an empty ring, and leaves the rest.
\<close>

theorem list_del_refines:
  assumes "is_list H h (xs @ e # ys)"
  shows "is_list (list_del e H) h (xs @ ys) \<and>
    is_list (list_del_init e H) h (xs @ ys) \<and> is_list (list_del_init e H) e [] \<and>
    fst (list_remove_head h H) = Some (hd (xs @ [e])) \<and>
    is_list (snd (list_remove_head h H)) h (tl (xs @ e # ys))"
  using is_list_del [OF assms] is_list_del_init [OF assms] is_list_remove_head [OF assms]
  by (cases xs) simp_all

theorem list_del_refines_witness:
  "is_list (list_del 3 ring_example) 1 [2, 4] \<and> is_list (list_del_init 3 ring_example) 3 [] \<and>
   fst (list_remove_head 1 ring_example) = Some 2"
  using list_del_refines [of ring_example 1 "[2]" 3 "[4]"] ring_example_list by simp

text \<open>
  C23: cutting a ring after an entry with \<^verbatim>\<open>list_cut_position\<close> gives two rings, the entries up to
  that one and the rest; splicing the first back with \<^verbatim>\<open>list_splice_init\<close> restores the ring and
  leaves the other head empty.
\<close>

theorem list_cut_splice_roundtrip:
  assumes "is_list H h (xs @ e # ys)" and "l \<notin> set (h # xs @ e # ys)"
  shows "is_list (list_cut_position l h e H) l (xs @ [e]) \<and>
    is_list (list_cut_position l h e H) h ys \<and>
    is_list (list_splice_init l h (list_cut_position l h e H)) h (xs @ e # ys) \<and>
    is_list (list_splice_init l h (list_cut_position l h e H)) l []"
proof -
  note cut = is_list_cut_position [OF assms]
  have "set (l # xs @ [e]) \<inter> set (h # ys) = {}"
    using is_list_distinct [OF assms(1)] assms(2) by auto
  from is_list_splice_init(1,2) [OF cut(2,1) this] cut show ?thesis by simp
qed

theorem list_cut_splice_roundtrip_witness:
  "is_list (list_cut_position 9 1 3 ring_example) 9 [2, 3] \<and>
   is_list (list_splice_init 9 1 (list_cut_position 9 1 3 ring_example)) 1 [2, 3, 4]"
  using list_cut_splice_roundtrip [of ring_example 1 "[2]" 3 "[4]" 9] ring_example_list by simp

text \<open>
  C24: iterating over a well-formed ring terminates after as many steps as it has entries.
  \<^verbatim>\<open>list_for_each\<close> visits them in order; \<^verbatim>\<open>dequeue_iterate\<close> visits them in order and leaves the
  ring empty.
\<close>

theorem list_iteration_terminates:
  assumes "is_list H h xs" and "length xs \<le> fuel"
  shows "list_entries fuel h H = Some xs \<and>
    (\<exists>H'. dequeue_iterate fuel h H = Some (xs, H') \<and> is_list H' h [])"
  using list_entries_ring [OF assms] dequeue_iterate_ring [OF assms] by blast

theorem list_iteration_terminates_witness:
  "list_entries 3 1 ring_example = Some [2, 3, 4] \<and>
   (\<exists>H'. dequeue_iterate 3 1 ring_example = Some ([2, 3, 4], H') \<and> is_list H' 1 [])"
  using list_iteration_terminates [of ring_example 1 "[2, 3, 4]" 3] ring_example_list by simp

text \<open>An entry whose successor is itself.\<close>

lemma list_for_each_self: "nxt H x = x \<Longrightarrow> x \<noteq> h \<Longrightarrow> list_for_each n x h H = None"
  by (induction n) (simp_all add: list_for_each.simps [of _ x])

lemma list_for_each_into_self:
  assumes "chain H (ys @ [x])" "h \<notin> set ys" "x \<notin> set ys" "x \<noteq> h"
    and "nxt H' x = x" "\<forall>y. y \<noteq> x \<longrightarrow> nxt H' y = nxt H y"
  shows "list_for_each n (hd (ys @ [x])) h H' = None"
  using assms
proof (induction ys arbitrary: n)
  case Nil
  then show ?case by (simp add: list_for_each_self)
next
  case (Cons y ys)
  have "nxt H y = hd (ys @ [x])" "chain H (ys @ [x])"
    using Cons.prems(1) by (cases ys; simp add: edge_def)+
  then show ?case using Cons by (cases n) (auto simp: list_for_each.simps [of _ y])
qed

text \<open>
  Adding the last entry of a ring to its tail a second time makes the entry its own successor:
  a loop over the ring never reaches the head again.
\<close>

theorem list_add_tail_again_loops:
  assumes "is_list H h (xs @ [x])"
  shows "list_entries fuel h (list_add_tail x h H) = None"
proof -
  let ?H = "list_add_tail x h H"
  have d: "distinct (h # xs @ [x])" "chain H (xs @ [x])" "prv H h = x" "nxt H h = hd (xs @ [x])"
    using assms is_list_split [of H h "[]" "xs @ [x]"] chain_append [of H "xs @ [x]" "[h]"]
      prv_hd_part [of H h "xs @ [x]" "[]"] ring_next_head [OF assms]
    by (auto simp: is_list_distinct hd_append)
  have n: "nxt ?H x = x" "\<forall>y. y \<noteq> x \<longrightarrow> nxt ?H y = nxt H y"
    using d(3) by (auto simp: list_add_tail_def list_add_between_def Let_def)
  then have "nxt ?H h = hd (xs @ [x])" using d by auto
  then show ?thesis
    using list_for_each_into_self [OF d(2) _ _ _ n, of h fuel] d(1) by (auto simp: list_entries_def)
qed

theorem list_add_tail_again_loops_witness:
  "list_entries 100 1 (list_add_tail 4 1 ring_example) = None"
  using list_add_tail_again_loops [of ring_example 1 "[2, 3]" 4 100] ring_example_list by simp

end
