(* ===== verification/PageArith.thy ===== *)
theory PageArith
  imports Telos_Prelude
begin

text \<open>
  The address arithmetic of \<^verbatim>\<open>src/include/kernel/mm/paging.h\<close>: rounding to a power of two and
  counting the pages a range of addresses touches.  Addresses are 32-bit words and the additions
  wrap; the lemmas give the exact natural-number value, wrap-around included.
\<close>

section \<open>Definitions\<close>

abbreviation (input) FRAME_SIZE :: u32 where "FRAME_SIZE \<equiv> 4096"

definition pages_in_range :: "u32 \<Rightarrow> u32 \<Rightarrow> u32" where
  "pages_in_range addr len = ((addr AND 0xFFF) + (len - 1)) div FRAME_SIZE + 1"

definition align_up :: "u32 \<Rightarrow> u32 \<Rightarrow> u32" where
  "align_up addr align =
     (let mask = align - 1
      in if addr AND mask \<noteq> 0 then (addr + align) AND NOT mask else addr)"

definition align_down :: "u32 \<Rightarrow> u32 \<Rightarrow> u32" where
  "align_down addr align = addr AND NOT (align - 1)"

definition page_aligned :: "u32 \<Rightarrow> bool" where
  "page_aligned addr \<longleftrightarrow> addr AND (FRAME_SIZE - 1) = 0"

definition page_align :: "u32 \<Rightarrow> u32" where
  "page_align n = align_up n FRAME_SIZE"

definition page_base :: "u32 \<Rightarrow> u32" where
  "page_base n = align_down n FRAME_SIZE"

section \<open>Rounding\<close>

lemma and_low_mask: "(a :: u32) AND (2 ^ k - 1) = take_bit k a"
  by (simp add: take_bit_eq_mask mask_eq_exp_minus_1)

lemma unat_take_bit_word: "unat (take_bit k (a :: u32)) = unat a mod 2 ^ k"
  by (subst unsigned_take_bit_eq) (simp only: take_bit_eq_mod)

lemma unat_and_low_mask: "unat ((a :: u32) AND (2 ^ k - 1)) = unat a mod 2 ^ k"
  by (simp only: and_low_mask unat_take_bit_word)

lemma unat_exp: "k < 32 \<Longrightarrow> unat (2 ^ k :: u32) = 2 ^ k"
  using unat_of_nat [of "2 ^ k", where 'a = 32] power_strict_increasing [of k 32 "2 :: nat"]
  by simp

lemma and_low_mask_eq_0_iff: "(a :: u32) AND (2 ^ k - 1) = 0 \<longleftrightarrow> 2 ^ k dvd unat a"
  by (metis dvd_eq_mod_eq_0 unat_and_low_mask unat_eq_zero)

lemma and_not_mask_split: "(a :: u32) = (a AND NOT (2 ^ k - 1)) + take_bit k a"
proof -
  have "(a AND NOT (2 ^ k - 1)) + take_bit k a = (a AND NOT (2 ^ k - 1)) OR take_bit k a"
    by (rule disjunctive_add) (auto simp: bit_simps and_low_mask mask_eq_exp_minus_1 [symmetric])
  also have "\<dots> = a"
    by (rule bit_word_eqI) (auto simp: bit_simps mask_eq_exp_minus_1 [symmetric])
  finally show ?thesis by simp
qed

lemma unat_align_down:
  "unat (align_down a (2 ^ k)) = unat a div 2 ^ k * 2 ^ k"
proof -
  have "align_down a (2 ^ k) = a - take_bit k a"
    using and_not_mask_split [of a k] by (simp add: align_down_def algebra_simps)
  moreover have "take_bit k a \<le> a" by (simp only: word_le_nat_alt unat_take_bit_word mod_less_eq_dividend)
  ultimately show ?thesis
    by (simp only: unat_sub unat_take_bit_word minus_mod_eq_div_mult)
qed

lemma align_down_le: "align_down a (2 ^ k) \<le> a"
  by (simp add: word_le_nat_alt unat_align_down)

lemma unat_add_exp_wrap:
  assumes "k < 32"
  shows "unat (a + 2 ^ k :: u32) =
    (if unat a + 2 ^ k < 4294967296 then unat a + 2 ^ k else unat a + 2 ^ k - 4294967296)"
proof -
  have p: "unat (2 ^ k :: u32) = 2 ^ k" using assms by (rule unat_exp)
  have "(2 :: nat) ^ k < 4294967296"
    using assms power_strict_increasing [of k 32 "2 :: nat"] by simp
  then have "unat a + 2 ^ k - 4294967296 < 4294967296" using u32_bound [of a] by linarith
  then show ?thesis
    by (cases "unat a + 2 ^ k < 4294967296") (simp_all add: unat_word_ariths p le_mod_geq)
qed

lemma unat_align_up:
  assumes "k < 32"
  shows "unat (align_up a (2 ^ k)) =
    (let r = (unat a + (2 ^ k - 1)) div 2 ^ k * 2 ^ k in if r < 4294967296 then r else 0)"
proof (cases "2 ^ k dvd unat a")
  case True
  then have "align_up a (2 ^ k) = a" by (simp add: align_up_def and_low_mask_eq_0_iff)
  then show ?thesis
    using True u32_bound [of a] ceil_div [of "2 ^ k" "unat a"] by (simp add: Let_def)
next
  case False
  have up: "align_up a (2 ^ k) = align_down (a + 2 ^ k) (2 ^ k)"
    using False by (simp add: align_up_def align_down_def and_low_mask_eq_0_iff)
  have r: "(unat a + (2 ^ k - 1)) div 2 ^ k = (unat a + 2 ^ k) div 2 ^ k"
    using False ceil_div [of "2 ^ k" "unat a"] div_add_self2 [of "2 ^ k" "unat a"]
    by (simp only: if_False zero_less_power zero_less_numeral power_not_zero) simp
  show ?thesis
  proof (cases "unat a + 2 ^ k < 4294967296")
    case True
    then have "(unat a + 2 ^ k) div 2 ^ k * 2 ^ k < 4294967296"
      using div_times_less_eq_dividend [of "unat a + 2 ^ k" "2 ^ k"] by (rule le_less_trans [rotated])
    then show ?thesis
      unfolding up unat_align_down unat_add_exp_wrap [OF assms] r Let_def using True by simp
  next
    case False
    have small: "unat a + 2 ^ k - 4294967296 < 2 ^ k"
      using u32_bound [of a] zero_less_power [of "2 :: nat" k] by linarith
    have "2 ^ k dvd (4294967296 :: nat)" using assms le_imp_power_dvd [of k 32 "2 :: nat"] by simp
    then have "4294967296 \<le> (unat a + 2 ^ k) div 2 ^ k * 2 ^ k"
      using False by (intro round_down_ge) simp_all
    then show ?thesis
      unfolding up unat_align_down unat_add_exp_wrap [OF assms] r Let_def
      using False small by simp
  qed
qed

text \<open>The two alignments the kernel uses.\<close>

lemma unat_align_up_16:
  "unat (align_up a 16) =
     (let r = (unat a + 15) div 16 * 16 in if r < 4294967296 then r else 0)"
  using unat_align_up [of 4 a] by simp

lemma unat_page_align:
  "unat (page_align a) =
     (let r = (unat a + 4095) div 4096 * 4096 in if r < 4294967296 then r else 0)"
  using unat_align_up [of 12 a] by (simp add: page_align_def)

lemma unat_page_base: "unat (page_base a) = unat a div 4096 * 4096"
  using unat_align_down [of a 12] by (simp add: page_base_def)

lemma page_aligned_iff: "page_aligned a \<longleftrightarrow> 4096 dvd unat a"
  using and_low_mask_eq_0_iff [of a 12] by (simp add: page_aligned_def)

lemma page_aligned_page_align: "page_aligned (page_align a)"
  by (simp add: page_aligned_iff unat_page_align Let_def)

lemma page_aligned_page_base: "page_aligned (page_base a)"
  by (simp add: page_aligned_iff unat_page_base)

lemma page_base_le: "page_base a \<le> a"
  by (simp add: word_le_nat_alt unat_page_base)

lemma page_align_ge:
  assumes "unat a \<le> 4294963200"
  shows "a \<le> page_align a" "unat (page_align a) < unat a + 4096"
  using assms ceil_div [of 4096 "unat a"]
  by (auto simp: word_le_nat_alt unat_page_align Let_def dvd_eq_mod_eq_0)

lemma unat_pages_in_range:
  assumes "0 < unat len" "unat addr mod 4096 + unat len \<le> 4294967296"
  shows "unat (pages_in_range addr len) = (unat addr mod 4096 + unat len - 1) div 4096 + 1"
proof -
  have off: "unat (addr AND 0xFFF) = unat addr mod 4096"
    using unat_and_low_mask [of addr 12] by simp
  have len: "unat (len - 1) = unat len - 1"
    using assms(1) by (simp add: unat_sub word_le_nat_alt)
  have "unat ((addr AND 0xFFF) + (len - 1)) = unat addr mod 4096 + (unat len - 1)"
    using assms by (subst unat_add_no_wrap) (simp_all add: off len)
  then have d: "unat (((addr AND 0xFFF) + (len - 1)) div FRAME_SIZE) =
      (unat addr mod 4096 + unat len - 1) div 4096"
    using assms(1) by (simp add: unat_div)
  have "(unat addr mod 4096 + unat len - 1) div 4096 < 4294967295"
    using assms by (simp add: div_less_iff_less_mult)
  then show ?thesis
    unfolding pages_in_range_def by (subst unat_add_no_wrap) (simp_all add: d)
qed

end
