(* ===== verification/Alloc_Spec.thy ===== *)
theory Alloc_Spec
  imports Telos_Prelude
begin

text \<open>
  What the kernel expects of a memory allocator, whichever it is: the objects handed out and not
  yet released occupy pairwise disjoint sets of addresses, an allocation adds one object and moves
  none, and a release takes exactly its object away.  The kernel heap (\<open>Kmalloc\<close>) and the slab
  allocator (\<open>Slab\<close>) both meet this contract.
\<close>

locale allocator =
  fixes inv :: "'h \<Rightarrow> 'p list \<Rightarrow> bool"
    and extent :: "'h \<Rightarrow> 'p \<Rightarrow> nat set"
    and grant :: "'h \<Rightarrow> 'p list \<Rightarrow> 'p \<Rightarrow> 'h \<Rightarrow> bool"
    and release :: "'p \<Rightarrow> 'h \<Rightarrow> 'h"
  assumes live_distinct: "inv h L \<Longrightarrow> distinct L"
    and live_disjoint:
      "inv h L \<Longrightarrow> p \<in> set L \<Longrightarrow> q \<in> set L \<Longrightarrow> p \<noteq> q \<Longrightarrow> extent h p \<inter> extent h q = {}"
    and grant_inv: "inv h L \<Longrightarrow> grant h L p h' \<Longrightarrow> inv h' (p # L)"
    and grant_extent: "inv h L \<Longrightarrow> grant h L p h' \<Longrightarrow> q \<in> set L \<Longrightarrow> extent h' q = extent h q"
    and release_inv: "inv h L \<Longrightarrow> p \<in> set L \<Longrightarrow> inv (release p h) (remove1 p L)"
    and release_extent:
      "inv h L \<Longrightarrow> p \<in> set L \<Longrightarrow> q \<in> set L \<Longrightarrow> q \<noteq> p \<Longrightarrow> extent (release p h) q = extent h q"
begin

text \<open>Any history of allocations and releases of live objects.\<close>

inductive history :: "'h \<Rightarrow> 'p list \<Rightarrow> 'h \<Rightarrow> 'p list \<Rightarrow> bool" where
  start: "history h L h L"
| allocate: "history h L h' L' \<Longrightarrow> grant h' L' p h'' \<Longrightarrow> history h L h'' (p # L')"
| free: "history h L h' L' \<Longrightarrow> p \<in> set L' \<Longrightarrow> history h L (release p h') (remove1 p L')"

lemma history_inv: "history h L h' L' \<Longrightarrow> inv h L \<Longrightarrow> inv h' L'"
  by (induction rule: history.induct) (auto intro: grant_inv release_inv)

lemma history_disjoint:
  assumes "history h L h' L'" "inv h L" "p \<in> set L'" "q \<in> set L'" "p \<noteq> q"
  shows "extent h' p \<inter> extent h' q = {}"
  using live_disjoint [OF history_inv [OF assms(1,2)] assms(3-)] .

lemma grant_fresh:
  assumes "inv h L" "grant h L p h'"
  shows "p \<notin> set L" and "q \<in> set L \<Longrightarrow> extent h' p \<inter> extent h q = {}"
proof -
  have i: "inv h' (p # L)" using assms by (rule grant_inv)
  show p: "p \<notin> set L" using live_distinct [OF i] by simp
  show "extent h' p \<inter> extent h q = {}" if "q \<in> set L"
    using live_disjoint [OF i, of p q] grant_extent [OF assms that] that p by auto
qed

text \<open>Allocating and releasing at once leaves the live objects as they were.\<close>

lemma grant_release:
  assumes "inv h L" "grant h L p h'"
  shows "inv (release p h') L" and "q \<in> set L \<Longrightarrow> extent (release p h') q = extent h q"
proof -
  have i: "inv h' (p # L)" using assms by (rule grant_inv)
  then show "inv (release p h') L" using release_inv [OF i, of p] by simp
  show "extent (release p h') q = extent h q" if "q \<in> set L"
    using release_extent [OF i, of p q] grant_extent [OF assms that] that grant_fresh(1) [OF assms]
    by auto
qed

end

end
