(* ===== verification/Kmalloc.thy ===== *)
theory Kmalloc
  imports PageArith KList Alloc_Spec
begin

text \<open>
  The kernel heap of \<^verbatim>\<open>src/kernel/kmalloc.c\<close> and \<^verbatim>\<open>src/include/kernel/mm/kmalloc.h\<close>: first-fit
  allocation from a free list of blocks, each with a 16-byte header in front of its data.  The
  state gives the \<^verbatim>\<open>size\<close> and \<^verbatim>\<open>magic\<close> fields of the header at every address and the free list, in
  order; a ring operation of \<^verbatim>\<open>list.h\<close> is the list operation \<open>KList\<close> shows it to implement.
  \<^verbatim>\<open>kalloc_pages\<close>, which supplies fresh pages, is an argument.  The main result is that the heap
  never hands out overlapping blocks.
\<close>

section \<open>Definitions\<close>

definition MAGIC_OK :: u32 where "MAGIC_OK = 0x600DC0DE"
definition MAGIC_FREE :: u32 where "MAGIC_FREE = 0xF2EEB10C"

text \<open>\<^verbatim>\<open>sizeof(struct mem_header)\<close>: two links, the size and the magic number.\<close>

abbreviation (input) HDR :: u32 where "HDR \<equiv> 16"

record kheap =
  hdr_size :: "addr \<Rightarrow> u32"
  hdr_magic :: "addr \<Rightarrow> u32"
  free_list :: "addr list"

definition set_size :: "addr \<Rightarrow> u32 \<Rightarrow> kheap \<Rightarrow> kheap" where
  "set_size p v K = K\<lparr>hdr_size := (hdr_size K)(p := v)\<rparr>"

definition set_magic :: "addr \<Rightarrow> u32 \<Rightarrow> kheap \<Rightarrow> kheap" where
  "set_magic p v K = K\<lparr>hdr_magic := (hdr_magic K)(p := v)\<rparr>"

definition pages_needed :: "u32 \<Rightarrow> u32" where
  "pages_needed sz = align_up (sz + HDR) FRAME_SIZE div FRAME_SIZE"

text \<open>
  The two halves of \<^verbatim>\<open>hmalloc\<close>: the search of the free list, which adds fresh pages to the list
  when no block is large enough, and the part that takes the block or splits it.
\<close>

definition hmalloc_find :: "(u32 \<Rightarrow> addr) \<Rightarrow> u32 \<Rightarrow> kheap \<Rightarrow> addr \<times> kheap" where
  "hmalloc_find kalloc_pages sz K =
     (case List.find (\<lambda>p. sz \<le> hdr_size K p) (free_list K) of
        Some p \<Rightarrow> (p, K)
      | None \<Rightarrow>
          (let pages = pages_needed sz;
               p = kalloc_pages pages;
               K = set_size p (pages * FRAME_SIZE - HDR) K
           in (p, K\<lparr>free_list := p # free_list K\<rparr>)))"

definition hmalloc_take :: "u32 \<Rightarrow> addr \<Rightarrow> kheap \<Rightarrow> kheap" where
  "hmalloc_take sz p K =
     (if hdr_size K p - sz \<le> HDR + 16 then
        (let K = set_magic p MAGIC_OK K
         in K\<lparr>free_list := remove1 p (free_list K)\<rparr>)
      else
        (let r = p + HDR + sz;
             K = set_size r (hdr_size K p) (set_magic r (hdr_magic K p) K);
             K = set_size r (hdr_size K p - sz - HDR) K;
             K = set_size p sz K;
             K = set_magic r MAGIC_FREE K;
             K = set_magic p MAGIC_OK K
         in K\<lparr>free_list := replace1 p r (free_list K)\<rparr>))"

text \<open>The result is the pointer to the data, the pointer to the header and the new heap.\<close>

definition hmalloc :: "(u32 \<Rightarrow> addr) \<Rightarrow> u32 \<Rightarrow> kheap \<Rightarrow> addr \<times> addr \<times> kheap" where
  "hmalloc kalloc_pages sz K =
     (let sz = align_up sz 16;
          (p, K) = hmalloc_find kalloc_pages sz K;
          K = hmalloc_take sz p K
      in (p + HDR, p, K))"

definition hfree :: "addr \<Rightarrow> kheap \<Rightarrow> kheap" where
  "hfree hdr K =
     (if hdr_magic K hdr = MAGIC_FREE then K
      else if hdr_magic K hdr \<noteq> MAGIC_OK then K
      else K\<lparr>free_list := hdr # free_list K\<rparr>)"

definition mem_ptoh :: "addr \<Rightarrow> addr" where
  "mem_ptoh p = p - HDR"

definition kmalloc :: "(u32 \<Rightarrow> addr) \<Rightarrow> u32 \<Rightarrow> kheap \<Rightarrow> addr \<times> kheap" where
  "kmalloc kalloc_pages sz K = (case hmalloc kalloc_pages sz K of (d, h, K') \<Rightarrow> (d, K'))"

definition kfree :: "addr \<Rightarrow> kheap \<Rightarrow> kheap" where
  "kfree p K = hfree (mem_ptoh p) K"

section \<open>The invariant of the heap\<close>

text \<open>
  The addresses a block occupies, header included; the allocated blocks \<open>A\<close>, which the kernel
  does not record, are a second argument of the invariant.
\<close>

definition block :: "kheap \<Rightarrow> addr \<Rightarrow> nat set" where
  "block K p = {unat p ..< unat p + 16 + unat (hdr_size K p)}"

definition block_ok :: "kheap \<Rightarrow> addr \<Rightarrow> bool" where
  "block_ok K p \<longleftrightarrow>
     16 dvd unat p \<and> 16 dvd unat (hdr_size K p) \<and> unat p + 16 < 4294967296 \<and>
     unat p + 16 + unat (hdr_size K p) \<le> 4294967296"

definition heap_ok :: "kheap \<Rightarrow> addr list \<Rightarrow> bool" where
  "heap_ok K A \<longleftrightarrow>
     distinct (free_list K @ A) \<and>
     (\<forall>p \<in> set (free_list K @ A). block_ok K p) \<and>
     (\<forall>p \<in> set (free_list K @ A). \<forall>q \<in> set (free_list K @ A).
        p \<noteq> q \<longrightarrow> block K p \<inter> block K q = {}) \<and>
     (\<forall>p \<in> set A. hdr_magic K p = MAGIC_OK)"

text \<open>What the heap relies on: \<^verbatim>\<open>kalloc_pages\<close> returns pages no block lies in.\<close>

definition pages_fresh :: "(u32 \<Rightarrow> addr) \<Rightarrow> u32 \<Rightarrow> kheap \<Rightarrow> addr list \<Rightarrow> bool" where
  "pages_fresh kalloc_pages n K A \<longleftrightarrow>
     4096 dvd unat (kalloc_pages n) \<and> unat (kalloc_pages n) + unat n * 4096 \<le> 4294967296 \<and>
     (\<forall>q \<in> set (free_list K @ A).
        {unat (kalloc_pages n) ..< unat (kalloc_pages n) + unat n * 4096} \<inter> block K q = {})"

section \<open>Lemmas\<close>

lemma heap_simps [simp]:
  "hdr_size (set_size p v K) = (hdr_size K)(p := v)" "hdr_magic (set_size p v K) = hdr_magic K"
  "free_list (set_size p v K) = free_list K"
  "hdr_size (set_magic p v K) = hdr_size K" "hdr_magic (set_magic p v K) = (hdr_magic K)(p := v)"
  "free_list (set_magic p v K) = free_list K"
  by (simp_all add: set_size_def set_magic_def)

lemma unat_pages_needed:
  assumes "unat sz + 16 \<le> 4294963200"
  shows "unat (pages_needed sz) = (unat sz + 16 + 4095) div 4096"
proof -
  have a: "unat (sz + HDR) = unat sz + 16" using assms by (subst unat_add_no_wrap) simp_all
  have "(unat sz + 16 + 4095) div 4096 * 4096 < 4294967296"
    using assms div_times_less_eq_dividend [of "unat sz + 16 + 4095" 4096] by linarith
  then have "unat (page_align (sz + HDR)) = (unat sz + 16 + 4095) div 4096 * 4096"
    by (simp add: unat_page_align a Let_def)
  then show ?thesis by (simp add: pages_needed_def page_align_def unat_div)
qed

lemma pages_needed_enough:
  assumes "unat sz + 16 \<le> 4294963200"
  shows "unat sz + 16 \<le> unat (pages_needed sz) * 4096"
    and "unat (pages_needed sz * FRAME_SIZE - HDR) = unat (pages_needed sz) * 4096 - 16"
    and "0 < unat (pages_needed sz)"
proof -
  let ?n = "(unat sz + 16 + 4095) div 4096"
  have n: "unat (pages_needed sz) = ?n" using assms by (rule unat_pages_needed)
  show le: "unat sz + 16 \<le> unat (pages_needed sz) * 4096"
    unfolding n using ceil_div [of 4096 "unat sz + 16"] by (auto simp: dvd_eq_mod_eq_0)
  have "?n * 4096 < 4294967296"
    using assms div_times_less_eq_dividend [of "unat sz + 16 + 4095" 4096] by linarith
  then have m: "unat (pages_needed sz * FRAME_SIZE) = unat (pages_needed sz) * 4096"
    by (subst unat_mult_no_wrap) (simp_all add: n)
  then show "unat (pages_needed sz * FRAME_SIZE - HDR) = unat (pages_needed sz) * 4096 - 16"
    using le by (subst unat_sub) (simp_all add: word_le_nat_alt)
  show "0 < unat (pages_needed sz)" using le by (rule_tac ccontr) simp
qed

lemma in_own_block: "unat p \<in> block K p"
  by (simp add: block_def)

lemma heap_okD:
  assumes "heap_ok K A"
  shows "distinct (free_list K @ A)"
    and "\<And>p. p \<in> set (free_list K @ A) \<Longrightarrow> block_ok K p"
    and "\<And>p q. p \<in> set (free_list K @ A) \<Longrightarrow> q \<in> set (free_list K @ A) \<Longrightarrow> p \<noteq> q \<Longrightarrow>
      block K p \<inter> block K q = {}"
    and "\<And>p. p \<in> set A \<Longrightarrow> hdr_magic K p = MAGIC_OK"
  using assms unfolding heap_ok_def by blast+

text \<open>The invariant only depends on the blocks and on which of them are allocated.\<close>

lemma heap_okI:
  assumes "distinct (free_list K @ A)"
    and "\<And>p. p \<in> set (free_list K @ A) \<Longrightarrow> block_ok K p"
    and "\<And>p q. p \<in> set (free_list K @ A) \<Longrightarrow> q \<in> set (free_list K @ A) \<Longrightarrow> p \<noteq> q \<Longrightarrow>
      block K p \<inter> block K q = {}"
    and "\<And>p. p \<in> set A \<Longrightarrow> hdr_magic K p = MAGIC_OK"
  shows "heap_ok K A"
  using assms unfolding heap_ok_def by blast

lemma add_fresh_block:
  assumes ok: "heap_ok K A" and new: "block_ok (set_size p v K) p"
    and disj: "\<And>q. q \<in> set (free_list K @ A) \<Longrightarrow> block (set_size p v K) p \<inter> block K q = {}"
  shows "heap_ok ((set_size p v K)\<lparr>free_list := p # free_list K\<rparr>) A"
proof -
  let ?K = "(set_size p v K)\<lparr>free_list := p # free_list K\<rparr>"
  have p: "p \<notin> set (free_list K @ A)"
    using disj in_own_block [of p "set_size p v K"] in_own_block [of p K] by blast
  have old: "block ?K q = block K q" "block_ok ?K q = block_ok K q" if "q \<noteq> p" for q
    using that by (simp_all add: block_def block_ok_def)
  have new': "block ?K p = block (set_size p v K) p" "block_ok ?K p"
    using new by (simp_all add: block_def block_ok_def)
  show ?thesis
  proof (rule heap_okI)
    show "distinct (free_list ?K @ A)" using p heap_okD(1) [OF ok] by simp
    show "block_ok ?K q" if "q \<in> set (free_list ?K @ A)" for q
      using that new'(2) old heap_okD(2) [OF ok] by (cases "q = p") auto
    show "block ?K q \<inter> block ?K q' = {}"
      if qq: "q \<in> set (free_list ?K @ A)" "q' \<in> set (free_list ?K @ A)" "q \<noteq> q'" for q q'
    proof -
      consider "q = p" "q' \<noteq> p" | "q \<noteq> p" "q' = p" | "q \<noteq> p" "q' \<noteq> p" using qq(3) by blast
      then show ?thesis
      proof cases
        case 1
        then show ?thesis using qq disj [of q'] by (simp add: old new'(1))
      next
        case 2
        then show ?thesis using qq disj [of q] by (simp add: old new'(1) Int_commute)
      next
        case 3
        then show ?thesis using qq heap_okD(3) [OF ok, of q q'] by (simp add: old)
      qed
    qed
    show "hdr_magic ?K q = MAGIC_OK" if "q \<in> set A" for q
      using heap_okD(4) [OF ok that] by simp
  qed
qed

lemma hmalloc_find_ok:
  assumes ok: "heap_ok K A" and sz: "16 dvd unat sz" "unat sz + 16 \<le> 4294963200"
    and fresh: "pages_fresh kalloc_pages (pages_needed sz) K A"
    and res: "hmalloc_find kalloc_pages sz K = (p, K1)"
  shows "heap_ok K1 A" "p \<in> set (free_list K1)" "sz \<le> hdr_size K1 p"
    "\<forall>q \<in> set A. hdr_size K1 q = hdr_size K q"
proof -
  let ?n = "pages_needed sz"
  have "heap_ok K1 A \<and> p \<in> set (free_list K1) \<and> sz \<le> hdr_size K1 p \<and>
    (\<forall>q \<in> set A. hdr_size K1 q = hdr_size K q)"
  proof (cases "List.find (\<lambda>p. sz \<le> hdr_size K p) (free_list K)")
    case (Some a)
    then show ?thesis
      using res ok find_SomeD [OF Some] by (simp add: hmalloc_find_def)
  next
    case None
    define v where "v = ?n * FRAME_SIZE - HDR"
    note en = pages_needed_enough [OF sz(2), folded v_def]
    have pK: "p = kalloc_pages ?n" "K1 = (set_size p v K)\<lparr>free_list := p # free_list K\<rparr>"
      using res None by (auto simp: hmalloc_find_def Let_def v_def)
    have f: "4096 dvd unat p" "unat p + unat ?n * 4096 \<le> 4294967296"
        "\<And>q. q \<in> set (free_list K @ A) \<Longrightarrow> {unat p ..< unat p + unat ?n * 4096} \<inter> block K q = {}"
      using fresh unfolding pages_fresh_def pK(1) by blast+
    have b: "block (set_size p v K) p = {unat p ..< unat p + unat ?n * 4096}"
      using en by (simp add: block_def)
    have "16 dvd unat p" using dvd_trans [OF _ f(1), of 16] by simp
    moreover have "16 dvd unat v" using en(2) by (simp add: dvd_diff_nat)
    moreover have top: "unat p < 4294967280" using f(2) en(3) by linarith
    ultimately have "block_ok (set_size p v K) p"
      using f(2) en by (simp add: block_ok_def top)
    then have "heap_ok K1 A" unfolding pK(2) by (rule add_fresh_block [OF ok]) (simp only: b f(3))
    moreover have "p \<notin> set A" using f(3) [of p] en(3) in_own_block [of p K] by fastforce
    moreover have "sz \<le> v" using en by (simp add: word_le_nat_alt)
    ultimately show ?thesis by (auto simp: pK(2))
  qed
  then show "heap_ok K1 A" "p \<in> set (free_list K1)" "sz \<le> hdr_size K1 p"
    "\<forall>q \<in> set A. hdr_size K1 q = hdr_size K q" by blast+
qed

lemma take_whole_ok:
  assumes ok: "heap_ok K A" and p: "p \<in> set (free_list K)"
  shows "heap_ok ((set_magic p MAGIC_OK K)\<lparr>free_list := remove1 p (free_list K)\<rparr>) (p # A)"
proof -
  let ?K = "(set_magic p MAGIC_OK K)\<lparr>free_list := remove1 p (free_list K)\<rparr>"
  have d: "distinct (free_list K @ A)" using heap_okD(1) [OF ok] .
  have s: "set (free_list ?K @ p # A) = set (free_list K @ A)" using p d by auto
  have b: "block ?K = block K" "block_ok ?K = block_ok K"
    by (simp_all add: block_def block_ok_def fun_eq_iff)
  show ?thesis
  proof (rule heap_okI)
    show "distinct (free_list ?K @ p # A)" using p d by auto
  qed (use heap_okD [OF ok] in \<open>auto simp only: s b, auto\<close>)
qed

lemma split_block_ok:
  assumes ok: "heap_ok K A" and p: "p \<in> set (free_list K)"
    and sz: "16 dvd unat sz" "unat sz + 16 < unat (hdr_size K p)" and r: "r = p + HDR + sz"
    and K': "hdr_size K' = (hdr_size K)(r := hdr_size K p - sz - HDR, p := sz)"
      "hdr_magic K' = (hdr_magic K)(r := MAGIC_FREE, p := MAGIC_OK)"
      "free_list K' = replace1 p r (free_list K)"
  shows "heap_ok K' (p # A)"
proof -
  have d: "distinct (free_list K)" "p \<notin> set A" "distinct A" "set (free_list K) \<inter> set A = {}"
    using heap_okD(1) [OF ok] p by auto
  have bp: "16 dvd unat p" "16 dvd unat (hdr_size K p)"
      "unat p + 16 + unat (hdr_size K p) \<le> 4294967296"
    using heap_okD(2) [OF ok, of p] p by (simp_all add: block_ok_def)
  have ur: "unat r = unat p + 16 + unat sz"
  proof -
    have "unat (p + HDR) = unat p + 16" using bp(3) sz(2) by (subst unat_add_no_wrap) simp_all
    then show ?thesis unfolding r using bp(3) sz(2) by (subst unat_add_no_wrap) simp_all
  qed
  have rp: "r \<noteq> p" using ur by auto
  have vs: "unat (hdr_size K p - sz - HDR) = unat (hdr_size K p) - unat sz - 16"
  proof -
    have "unat (hdr_size K p - sz) = unat (hdr_size K p) - unat sz"
      using sz(2) by (intro unat_sub) (simp add: word_le_nat_alt)
    then show ?thesis using sz(2) by (subst unat_sub) (simp_all add: word_le_nat_alt)
  qed
  have r_out: "r \<notin> set (free_list K @ A)"
  proof
    assume "r \<in> set (free_list K @ A)"
    then have "block K p \<inter> block K r = {}" using heap_okD(3) [OF ok, of p r] p rp by auto
    moreover have "unat r \<in> block K p" using ur sz(2) by (simp add: block_def)
    ultimately show False using in_own_block [of r K] by blast
  qed
  have old: "block K' q = block K q" "block_ok K' q = block_ok K q" if "q \<noteq> p" "q \<noteq> r" for q
    using that by (simp_all add: block_def block_ok_def K'(1))
  have newp: "block K' p = {unat p ..< unat r}" "block_ok K' p"
    using ur rp bp sz by (simp_all add: block_def block_ok_def K'(1))
  have newr: "block K' r = {unat r ..< unat p + 16 + unat (hdr_size K p)}" "block_ok K' r"
    using ur rp bp sz by (auto simp: block_def block_ok_def K'(1) vs dvd_diff_nat)
  have sub: "block K' p \<subseteq> block K p" "block K' r \<subseteq> block K p" "block K' p \<inter> block K' r = {}"
    unfolding newp(1) newr(1) using ur sz(2) by (auto simp: block_def)
  have S: "set (free_list K' @ p # A) = insert r (set (free_list K @ A))"
    using set_replace1 [OF d(1) p, of r] p by (auto simp: K'(3))
  have part: "block K' q \<inter> block K' q' = {}"
    if "q \<in> {p, r}" "q' \<in> set (free_list K @ A)" "q' \<noteq> p" for q q'
    using that heap_okD(3) [OF ok, of p q'] p sub old [of q'] r_out by fastforce
  show ?thesis
  proof (rule heap_okI)
    show "distinct (free_list K' @ p # A)"
      using distinct_replace1 [OF d(1), of r p] set_replace1 [OF d(1) p, of r] d r_out rp
      by (auto simp: K'(3))
    show "block_ok K' q" if "q \<in> set (free_list K' @ p # A)" for q
      using that S newp newr old heap_okD(2) [OF ok, of q] by (cases "q = p \<or> q = r") auto
    show "block K' q \<inter> block K' q' = {}"
      if qq: "q \<in> set (free_list K' @ p # A)" "q' \<in> set (free_list K' @ p # A)" "q \<noteq> q'" for q q'
    proof (cases "q \<in> {p, r} \<or> q' \<in> {p, r}")
      case True
      then show ?thesis
        using qq(1,2) part [of q q'] part [of q' q] qq(3) sub(3) unfolding S
        by (auto simp: Int_commute)
    next
      case False
      then show ?thesis using heap_okD(3) [OF ok, of q q'] qq S old by auto
    qed
    show "hdr_magic K' q = MAGIC_OK" if "q \<in> set (p # A)" for q
      using that heap_okD(4) [OF ok, of q] r_out by (auto simp: K'(2))
  qed
qed

lemma hmalloc_take_ok:
  assumes ok: "heap_ok K A" and p: "p \<in> set (free_list K)"
    and sz: "16 dvd unat sz" "sz \<le> hdr_size K p"
  shows "heap_ok (hmalloc_take sz p K) (p # A)"
    and "sz \<le> hdr_size (hmalloc_take sz p K) p"
    and "\<forall>q \<in> set A. hdr_size (hmalloc_take sz p K) q = hdr_size K q"
proof -
  have "heap_ok (hmalloc_take sz p K) (p # A) \<and> sz \<le> hdr_size (hmalloc_take sz p K) p \<and>
    (\<forall>q \<in> set A. hdr_size (hmalloc_take sz p K) q = hdr_size K q)"
  proof (cases "hdr_size K p - sz \<le> HDR + 16")
    case True
    then show ?thesis
      using take_whole_ok [OF ok p] sz(2) by (simp add: hmalloc_take_def)
  next
    case False
    define r where "r = p + HDR + sz"
    have big: "unat sz + 32 < unat (hdr_size K p)"
      using False sz(2) by (simp add: word_le_nat_alt unat_sub)
    have rp: "p + HDR + sz \<noteq> p"
    proof
      assume "p + HDR + sz = p"
      then have "HDR + sz = 0" by (simp add: add.assoc)
      then have "unat (HDR + sz) = 0" by simp
      moreover have "unat (HDR + sz) = 16 + unat sz"
        using big u32_bound [of "hdr_size K p"] by (subst unat_add_no_wrap) simp_all
      ultimately show False by simp
    qed
    let ?K = "hmalloc_take sz p K"
    have K': "hdr_size ?K = (hdr_size K)(r := hdr_size K p - sz - HDR, p := sz)"
        "hdr_magic ?K = (hdr_magic K)(r := MAGIC_FREE, p := MAGIC_OK)"
        "free_list ?K = replace1 p r (free_list K)"
      using False rp by (simp_all add: hmalloc_take_def Let_def r_def fun_eq_iff)
    have ok': "heap_ok ?K (p # A)"
      using split_block_ok [OF ok p sz(1) _ r_def K'] big by simp
    then have "r \<notin> set A"
      using heap_okD(1) [OF ok'] set_replace1 [of "free_list K" p r] heap_okD(1) [OF ok] p K'(3)
      by auto
    moreover have "p \<notin> set A" using heap_okD(1) [OF ok] p by auto
    ultimately show ?thesis using ok' by (auto simp: K'(1))
  qed
  then show "heap_ok (hmalloc_take sz p K) (p # A)" "sz \<le> hdr_size (hmalloc_take sz p K) p"
    "\<forall>q \<in> set A. hdr_size (hmalloc_take sz p K) q = hdr_size K q" by blast+
qed

lemma hfree_ok:
  assumes ok: "heap_ok K A" and p: "p \<in> set A"
  shows "heap_ok (hfree p K) (remove1 p A)" and "hdr_size (hfree p K) = hdr_size K"
proof -
  have K': "hfree p K = K\<lparr>free_list := p # free_list K\<rparr>"
    using heap_okD(4) [OF ok p] by (simp add: hfree_def MAGIC_OK_def MAGIC_FREE_def)
  have d: "distinct (free_list K @ A)" using heap_okD(1) [OF ok] .
  have s: "set (free_list (hfree p K) @ remove1 p A) = set (free_list K @ A)"
    using p d by (auto simp: K')
  have b: "block (hfree p K) = block K" "block_ok (hfree p K) = block_ok K"
    by (simp_all add: block_def block_ok_def fun_eq_iff K')
  show "heap_ok (hfree p K) (remove1 p A)"
  proof (rule heap_okI)
    show "distinct (free_list (hfree p K) @ remove1 p A)" using p d by (auto simp: K')
    show "hdr_magic (hfree p K) q = MAGIC_OK" if "q \<in> set (remove1 p A)" for q
      using that heap_okD(4) [OF ok, of q] d by (auto simp: K')
    show "block_ok (hfree p K) q" if "q \<in> set (free_list (hfree p K) @ remove1 p A)" for q
      using that unfolding s b by (rule heap_okD(2) [OF ok])
    show "block (hfree p K) q \<inter> block (hfree p K) q' = {}"
      if "q \<in> set (free_list (hfree p K) @ remove1 p A)"
        "q' \<in> set (free_list (hfree p K) @ remove1 p A)" "q \<noteq> q'" for q q'
      using that unfolding s b by (rule heap_okD(3) [OF ok])
  qed
  show "hdr_size (hfree p K) = hdr_size K" by (simp add: K')
qed

lemma hmalloc_ok:
  assumes ok: "heap_ok K A" and sz: "unat sz \<le> 4294963184"
    and fresh: "pages_fresh kalloc_pages (pages_needed (align_up sz 16)) K A"
    and res: "hmalloc kalloc_pages sz K = (d, p, K')"
  shows "heap_ok K' (p # A)" "d = p + HDR" "sz \<le> hdr_size K' p"
    "\<forall>q \<in> set A. hdr_size K' q = hdr_size K q"
proof -
  let ?sz = "align_up sz 16"
  have "(unat sz + 15) div 16 * 16 \<le> 4294963184"
    using div_le_mono [of "unat sz + 15" "4294963184 + 15" 16] sz by simp
  then have u: "unat ?sz = (unat sz + 15) div 16 * 16" by (simp add: unat_align_up_16 Let_def)
  have ge: "sz \<le> ?sz" using ceil_div [of 16 "unat sz"]
    by (auto simp: word_le_nat_alt u dvd_eq_mod_eq_0)
  obtain K1 where f: "hmalloc_find kalloc_pages ?sz K = (p, K1)" and K': "K' = hmalloc_take ?sz p K1"
      "d = p + HDR"
    using res by (auto simp: hmalloc_def Let_def split: prod.splits)
  have d16: "16 dvd unat ?sz" "unat ?sz + 16 \<le> 4294963200"
    using u \<open>(unat sz + 15) div 16 * 16 \<le> 4294963184\<close> by simp_all
  note s1 = hmalloc_find_ok [OF ok d16 fresh f]
  note s2 = hmalloc_take_ok [OF s1(1,2) d16(1) s1(3)]
  show "heap_ok K' (p # A)" "d = p + HDR" using s2(1) K' by simp_all
  show "sz \<le> hdr_size K' p" using ge s2(2) K'(1) by simp
  show "\<forall>q \<in> set A. hdr_size K' q = hdr_size K q" using s1(4) s2(3) K'(1) by simp
qed

section \<open>The heap as an allocator\<close>

text \<open>One successful call of \<^verbatim>\<open>hmalloc\<close>, with pages from \<^verbatim>\<open>kalloc_pages\<close> that are indeed fresh.\<close>

definition hmalloc_grants :: "kheap \<Rightarrow> addr list \<Rightarrow> addr \<Rightarrow> kheap \<Rightarrow> bool" where
  "hmalloc_grants K A p K' \<longleftrightarrow>
     (\<exists>kalloc_pages sz d. unat sz \<le> 4294963184 \<and>
        pages_fresh kalloc_pages (pages_needed (align_up sz 16)) K A \<and>
        hmalloc kalloc_pages sz K = (d, p, K'))"

lemma block_cong: "hdr_size K' q = hdr_size K q \<Longrightarrow> block K' q = block K q"
  by (simp add: block_def)

interpretation kheap_alloc: allocator heap_ok block hmalloc_grants hfree
proof unfold_locales
  show "heap_ok h L \<Longrightarrow> distinct L" for h L
    using heap_okD(1) [of h L] by simp
  show "heap_ok h L \<Longrightarrow> p \<in> set L \<Longrightarrow> q \<in> set L \<Longrightarrow> p \<noteq> q \<Longrightarrow> block h p \<inter> block h q = {}" for h L p q
    using heap_okD(3) [of h L p q] by simp
  show "heap_ok h L \<Longrightarrow> hmalloc_grants h L p h' \<Longrightarrow> heap_ok h' (p # L)" for h L p h'
    by (auto simp: hmalloc_grants_def dest: hmalloc_ok)
  show "heap_ok h L \<Longrightarrow> hmalloc_grants h L p h' \<Longrightarrow> q \<in> set L \<Longrightarrow> block h' q = block h q" for h L p h' q
    by (metis block_cong hmalloc_grants_def hmalloc_ok(4))
  show "heap_ok h L \<Longrightarrow> p \<in> set L \<Longrightarrow> heap_ok (hfree p h) (remove1 p L)" for h L p
    by (rule hfree_ok)
  show "heap_ok h L \<Longrightarrow> p \<in> set L \<Longrightarrow> q \<in> set L \<Longrightarrow> q \<noteq> p \<Longrightarrow> block (hfree p h) q = block h q" for h L p q
    by (simp add: hfree_ok(2) block_def)
qed

section \<open>Properties\<close>

definition empty_heap :: kheap where
  "empty_heap = \<lparr>hdr_size = (\<lambda>_. 0), hdr_magic = (\<lambda>_. 0), free_list = []\<rparr>"

text \<open>
  C3: the block \<^verbatim>\<open>hmalloc\<close> returns is at least as large as the request, aligned to 16 bytes, and
  disjoint, header included, from every block allocated before; no allocated block is moved or
  resized, and the heap stays well formed.  The request must leave room for the header and the
  rounding to pages below the top of the address space.
\<close>

theorem hmalloc_disjoint:
  assumes "heap_ok K A" and "unat sz \<le> 4294963184"
    and "pages_fresh kalloc_pages (pages_needed (align_up sz 16)) K A"
    and "hmalloc kalloc_pages sz K = (d, p, K')"
  shows "heap_ok K' (p # A) \<and> sz \<le> hdr_size K' p \<and> unat d = unat p + 16 \<and> 16 dvd unat d \<and>
    p \<notin> set A \<and> (\<forall>q \<in> set A. block K' q = block K q \<and> block K' p \<inter> block K' q = {})"
proof -
  note r = hmalloc_ok [OF assms]
  have b: "block_ok K' p" using heap_okD(2) [OF r(1), of p] by simp
  have "unat p + 16 < 4294967296" using b by (simp add: block_ok_def)
  then have d: "unat d = unat p + 16" unfolding r(2) by (subst unat_add_no_wrap) simp_all
  have g: "hmalloc_grants K A p K'" using assms(2-) unfolding hmalloc_grants_def by blast
  have "16 dvd unat d" using b d by (simp add: block_ok_def)
  moreover have "\<forall>q \<in> set A. block K' q = block K q \<and> block K' p \<inter> block K' q = {}"
    using kheap_alloc.grant_fresh(2) [OF assms(1) g] kheap_alloc.grant_extent [OF assms(1) g] by simp
  ultimately show ?thesis
    using r(1,3) d kheap_alloc.grant_fresh(1) [OF assms(1) g] by blast
qed

theorem hmalloc_disjoint_witness:
  "\<exists>d p K'. hmalloc (\<lambda>n. 0x1000) 100 empty_heap = (d, p, K') \<and> heap_ok K' [p] \<and> 100 \<le> hdr_size K' p"
proof -
  obtain d p K' where r: "hmalloc (\<lambda>n. 0x1000) 100 empty_heap = (d, p, K')"
    by (metis prod_cases3)
  have "heap_ok empty_heap []" by (simp add: heap_ok_def empty_heap_def)
  moreover have "unat (pages_needed (align_up 100 16)) = 1"
    by (simp add: pages_needed_def align_up_def)
  then have "pages_fresh (\<lambda>n. 0x1000) (pages_needed (align_up 100 16)) empty_heap []"
    by (simp add: pages_fresh_def empty_heap_def)
  ultimately show ?thesis
    using hmalloc_disjoint [of empty_heap "[]" 100 "\<lambda>n. 0x1000" d p K'] r by auto
qed

text \<open>
  C22: releasing a block through the pointer that \<^verbatim>\<open>kmalloc\<close> returned gives the heap back in a
  well-formed state with the other allocated blocks as they were, and the released block at the
  front of the free list.
\<close>

theorem kmalloc_kfree_roundtrip:
  assumes "heap_ok K A" and "unat sz \<le> 4294963184"
    and "pages_fresh kalloc_pages (pages_needed (align_up sz 16)) K A"
    and "kmalloc kalloc_pages sz K = (d, K')"
  shows "heap_ok (kfree d K') A \<and> hd (free_list (kfree d K')) = mem_ptoh d \<and>
    (\<forall>q \<in> set A. block (kfree d K') q = block K q)"
proof -
  obtain p where r: "hmalloc kalloc_pages sz K = (d, p, K')"
    using assms(4) by (auto simp: kmalloc_def split: prod.splits)
  note ok = hmalloc_ok [OF assms(1-3) r]
  have p: "mem_ptoh d = p" using ok(2) by (simp add: mem_ptoh_def)
  have g: "hmalloc_grants K A p K'" using assms(2,3) r unfolding hmalloc_grants_def by blast
  have "hdr_magic K' p = MAGIC_OK" using heap_okD(4) [OF ok(1)] by simp
  then have "hd (free_list (hfree p K')) = p" by (simp add: hfree_def MAGIC_OK_def MAGIC_FREE_def)
  then show ?thesis
    using kheap_alloc.grant_release [OF assms(1) g] by (simp add: kfree_def p)
qed

theorem kmalloc_kfree_roundtrip_witness:
  "heap_ok (kfree (fst (kmalloc (\<lambda>n. 0x1000) 100 empty_heap))
     (snd (kmalloc (\<lambda>n. 0x1000) 100 empty_heap))) []"
proof -
  have "heap_ok empty_heap []" by (simp add: heap_ok_def empty_heap_def)
  moreover have "unat (pages_needed (align_up 100 16)) = 1"
    by (simp add: pages_needed_def align_up_def)
  then have "pages_fresh (\<lambda>n. 0x1000) (pages_needed (align_up 100 16)) empty_heap []"
    by (simp add: pages_fresh_def empty_heap_def)
  ultimately show ?thesis
    using kmalloc_kfree_roundtrip [of empty_heap "[]" 100 "\<lambda>n. 0x1000"
        "fst (kmalloc (\<lambda>n. 0x1000) 100 empty_heap)" "snd (kmalloc (\<lambda>n. 0x1000) 100 empty_heap)"]
    by simp
qed

text \<open>
  The double-free check of \<^verbatim>\<open>hfree\<close> does not see a double free.  A freed block keeps
  \<^verbatim>\<open>MAGIC_OK\<close>, so a second \<^verbatim>\<open>hfree\<close> of it passes both checks and inserts it into the free list
  again.
\<close>

theorem hfree_twice_not_detected:
  assumes "heap_ok K A" and "p \<in> set A"
  shows "p \<in> set (free_list (hfree p K)) \<and> hdr_magic (hfree p K) p = MAGIC_OK \<and>
    count (mset (free_list (hfree p (hfree p K)))) p = 2"
proof -
  have "hdr_magic K p = MAGIC_OK" using heap_okD(4) [OF assms] .
  moreover have "p \<notin> set (free_list K)" using heap_okD(1) [OF assms(1)] assms(2) by auto
  then have "count (mset (free_list K)) p = 0" by (simp add: count_eq_zero_iff)
  ultimately show ?thesis by (simp add: hfree_def MAGIC_OK_def MAGIC_FREE_def)
qed

theorem hfree_twice_not_detected_witness:
  "count (mset (free_list (hfree 0x1000 (hfree 0x1000
     \<lparr>hdr_size = (\<lambda>_. 64), hdr_magic = (\<lambda>_. MAGIC_OK), free_list = []\<rparr>)))) 0x1000 = 2"
proof -
  have "heap_ok \<lparr>hdr_size = (\<lambda>_. 64), hdr_magic = (\<lambda>_. MAGIC_OK), free_list = []\<rparr> [0x1000]"
    by (simp add: heap_ok_def block_ok_def)
  from hfree_twice_not_detected [OF this, of "0x1000"] show ?thesis by simp
qed

end
