(* ===== verification/Bitops.thy ===== *)
theory Bitops
  imports Telos_Prelude
begin

text \<open>
  The bit operations of \<^verbatim>\<open>src/include/asm/bitops.h\<close> and the bitmaps of
  \<^verbatim>\<open>src/include/kernel/bitmap.h\<close>.  A bit string in memory is the list of its 32-bit words, bit
  \<open>n\<close> being bit \<open>n mod 32\<close> of word \<open>n div 32\<close>, as the header says ("bit 0 is the LSB of addr; bit
  32 is the LSB of (addr+1)").  The inline assembly is modelled by the behaviour the x86 manual
  gives the instruction: \<^verbatim>\<open>bts\<close>, \<^verbatim>\<open>btr\<close>, \<^verbatim>\<open>btc\<close> set, reset and complement a bit and leave its old
  value in the carry flag, which \<^verbatim>\<open>sbb r,r\<close> turns into \<open>-1\<close> or \<open>0\<close>; \<^verbatim>\<open>bsf\<close> and \<^verbatim>\<open>bsr\<close> give the
  index of the lowest and highest set bit and leave the destination undefined on \<open>0\<close>.
\<close>

section \<open>Definitions\<close>

type_synonym bitmap = "u32 list"

definition test_bit :: "nat \<Rightarrow> bitmap \<Rightarrow> bool" where
  "test_bit nr addr = bit (addr ! (nr div 32)) (nr mod 32)"

text \<open>The variants taken when the bit number is not a compile-time constant: one instruction.\<close>

definition bts :: "nat \<Rightarrow> bitmap \<Rightarrow> bitmap" where
  "bts nr addr = addr[nr div 32 := addr ! (nr div 32) OR push_bit (nr mod 32) 1]"

definition btr :: "nat \<Rightarrow> bitmap \<Rightarrow> bitmap" where
  "btr nr addr = addr[nr div 32 := addr ! (nr div 32) AND NOT (push_bit (nr mod 32) 1)]"

definition btc :: "nat \<Rightarrow> bitmap \<Rightarrow> bitmap" where
  "btc nr addr = addr[nr div 32 := addr ! (nr div 32) XOR push_bit (nr mod 32) 1]"

text \<open>
  The variants for a constant bit number work on one byte: \<^verbatim>\<open>CONST_MASK\<close> is the mask within the
  byte, and \<open>in_byte\<close> places it at the address \<^verbatim>\<open>addr + (nr>>3)\<close> of the little-endian word.
\<close>

definition CONST_MASK :: "nat \<Rightarrow> u8" where
  "CONST_MASK nr = push_bit (nr mod 8) 1"

definition in_byte :: "nat \<Rightarrow> u8 \<Rightarrow> u32" where
  "in_byte nr m = push_bit (8 * ((nr div 8) mod 4)) (ucast m)"

definition set_bit_imm :: "nat \<Rightarrow> bitmap \<Rightarrow> bitmap" where
  "set_bit_imm nr addr = addr[nr div 32 := addr ! (nr div 32) OR in_byte nr (CONST_MASK nr)]"

definition clear_bit_imm :: "nat \<Rightarrow> bitmap \<Rightarrow> bitmap" where
  "clear_bit_imm nr addr =
     addr[nr div 32 := addr ! (nr div 32) AND
       (NOT (in_byte nr (-1)) OR in_byte nr (NOT (CONST_MASK nr)))]"

definition change_bit_imm :: "nat \<Rightarrow> bitmap \<Rightarrow> bitmap" where
  "change_bit_imm nr addr = addr[nr div 32 := addr ! (nr div 32) XOR in_byte nr (CONST_MASK nr)]"

definition set_bit :: "bool \<Rightarrow> nat \<Rightarrow> bitmap \<Rightarrow> bitmap" where
  "set_bit immediate nr addr = (if immediate then set_bit_imm nr addr else bts nr addr)"

definition clear_bit :: "bool \<Rightarrow> nat \<Rightarrow> bitmap \<Rightarrow> bitmap" where
  "clear_bit immediate nr addr = (if immediate then clear_bit_imm nr addr else btr nr addr)"

definition change_bit :: "bool \<Rightarrow> nat \<Rightarrow> bitmap \<Rightarrow> bitmap" where
  "change_bit immediate nr addr = (if immediate then change_bit_imm nr addr else btc nr addr)"

definition carry :: "bool \<Rightarrow> int" where
  "carry c = (if c then -1 else 0)"

definition test_and_set_bit :: "nat \<Rightarrow> bitmap \<Rightarrow> int \<times> bitmap" where
  "test_and_set_bit nr addr = (carry (test_bit nr addr), bts nr addr)"

definition test_and_clear_bit :: "nat \<Rightarrow> bitmap \<Rightarrow> int \<times> bitmap" where
  "test_and_clear_bit nr addr = (carry (test_bit nr addr), btr nr addr)"

definition test_and_change_bit :: "nat \<Rightarrow> bitmap \<Rightarrow> int \<times> bitmap" where
  "test_and_change_bit nr addr = (carry (test_bit nr addr), btc nr addr)"

definition constant_test_bit :: "nat \<Rightarrow> bitmap \<Rightarrow> bool" where
  "constant_test_bit nr addr =
     ((push_bit (nr mod 32) 1 AND addr ! (drop_bit 5 nr)) \<noteq> (0 :: u32))"

definition variable_test_bit :: "nat \<Rightarrow> bitmap \<Rightarrow> int" where
  "variable_test_bit nr addr = carry (test_bit nr addr)"

text \<open>Bit scans: \<open>None\<close> is the undefined result of the instruction on \<open>0\<close>.\<close>

definition bsf :: "u32 \<Rightarrow> nat option" where
  "bsf w = List.find (bit w) [0..<32]"

definition bsr :: "u32 \<Rightarrow> nat option" where
  "bsr w = List.find (bit w) (rev [0..<32])"

definition ffs_word :: "u32 \<Rightarrow> nat option" where
  "ffs_word w = bsf w"

definition ffz :: "u32 \<Rightarrow> nat option" where
  "ffz w = bsf (NOT w)"

definition fls_word :: "u32 \<Rightarrow> nat option" where
  "fls_word w = bsr w"

definition ffs :: "u32 \<Rightarrow> int" where
  "ffs x = (case bsf x of None \<Rightarrow> -1 | Some r \<Rightarrow> int r) + 1"

definition fls :: "u32 \<Rightarrow> int" where
  "fls x = (case bsr x of None \<Rightarrow> -1 | Some r \<Rightarrow> int r) + 1"

text \<open>Bitmaps of arbitrary length; \<^verbatim>\<open>BITS_PER_LONG\<close> is 32.\<close>

definition bitmap_set :: "bitmap \<Rightarrow> nat \<Rightarrow> bitmap" where
  "bitmap_set bitmap idx =
     bitmap[idx div 32 := bitmap ! (idx div 32) OR push_bit (idx mod 32) 1]"

definition bitmap_clear :: "bitmap \<Rightarrow> nat \<Rightarrow> bitmap" where
  "bitmap_clear bitmap idx =
     bitmap[idx div 32 := bitmap ! (idx div 32) AND NOT (push_bit (idx mod 32) 1)]"

definition bitmap_change :: "bitmap \<Rightarrow> nat \<Rightarrow> bitmap" where
  "bitmap_change bitmap idx =
     bitmap[idx div 32 := bitmap ! (idx div 32) XOR push_bit (idx mod 32) 1]"

fun bitmap_ffz_from :: "nat \<Rightarrow> bitmap \<Rightarrow> int" where
  "bitmap_ffz_from i [] = -1"
| "bitmap_ffz_from i (w # ws) =
     (if w = NOT 0 then bitmap_ffz_from (Suc i) ws
      else (case ffz w of None \<Rightarrow> -1 | Some z \<Rightarrow> int (z + i * 32)))"

definition bitmap_ffz :: "bitmap \<Rightarrow> int" where
  "bitmap_ffz bitmap = bitmap_ffz_from 0 bitmap"

fun bitmap_ffs_from :: "nat \<Rightarrow> bitmap \<Rightarrow> int" where
  "bitmap_ffs_from i [] = -1"
| "bitmap_ffs_from i (w # ws) =
     (if w = 0 then bitmap_ffs_from (Suc i) ws else ffs w + int (i * 32))"

definition bitmap_ffs :: "bitmap \<Rightarrow> int" where
  "bitmap_ffs bitmap = bitmap_ffs_from 0 bitmap"

section \<open>Lemmas\<close>

lemma bts_eq_bitmap_set: "bts nr addr = bitmap_set addr nr"
  by (simp add: bts_def bitmap_set_def)

lemma btr_eq_bitmap_clear: "btr nr addr = bitmap_clear addr nr"
  by (simp add: btr_def bitmap_clear_def)

lemma btc_eq_bitmap_change: "btc nr addr = bitmap_change addr nr"
  by (simp add: btc_def bitmap_change_def)

lemma byte_position: "8 * ((nr div 8) mod 4) + nr mod 8 = nr mod (32::nat)"
  using mod_mult2_eq [of nr 8 4] by simp

lemma in_byte_mask: "in_byte nr (CONST_MASK nr) = push_bit (nr mod 32) 1"
proof -
  have "ucast (push_bit (nr mod 8) 1 :: u8) = (push_bit (nr mod 8) 1 :: u32)"
    by (rule bit_word_eqI) (auto simp: bit_simps)
  then show ?thesis
    by (simp add: in_byte_def CONST_MASK_def push_bit_push_bit byte_position del: push_bit_of_1)
qed

lemma bit_in_byte:
  "bit (in_byte nr m) k \<longleftrightarrow>
     k < 32 \<and> 8 * ((nr div 8) mod 4) \<le> k \<and> bit m (k - 8 * ((nr div 8) mod 4))"
  by (auto simp: in_byte_def bit_simps)

lemma clear_byte_mask:
  "NOT (in_byte nr (-1)) OR in_byte nr (NOT (CONST_MASK nr)) = NOT (push_bit (nr mod 32) 1)"
proof (rule bit_word_eqI)
  fix k assume k: "k < LENGTH(32)"
  let ?b = "8 * ((nr div 8) mod 4)"
  have pos: "nr mod 32 = ?b + nr mod 8" using byte_position [of nr] by simp
  show "bit (NOT (in_byte nr (-1)) OR in_byte nr (NOT (CONST_MASK nr))) k
      = bit (NOT (push_bit (nr mod 32) (1 :: u32))) k"
    using k by (auto simp: bit_not_iff bit_or_iff bit_in_byte bit_minus_1_iff
        CONST_MASK_def pos)
qed

lemma length_bitmap_set [simp]: "length (bitmap_set bm i) = length bm"
  by (simp add: bitmap_set_def)

lemma length_bitmap_clear [simp]: "length (bitmap_clear bm i) = length bm"
  by (simp add: bitmap_clear_def)

lemma test_bit_update:
  assumes "i < 32 * length bm"
  shows "test_bit j (bm[i div 32 := v]) =
    (if j div 32 = i div 32 then bit v (j mod 32) else test_bit j bm)"
  using assms by (simp add: test_bit_def nth_list_update)

lemma same_bit_iff: "j div 32 = i div 32 \<Longrightarrow> j mod 32 = i mod 32 \<longleftrightarrow> j = (i :: nat)"
  by (metis div_mult_mod_eq)

lemma test_bit_bitmap_set [simp]:
  assumes "i < 32 * length bm"
  shows "test_bit j (bitmap_set bm i) \<longleftrightarrow> j = i \<or> test_bit j bm"
  unfolding bitmap_set_def test_bit_update [OF assms]
  using same_bit_iff [of j i] by (auto simp: bit_or_iff test_bit_def)

lemma test_bit_bitmap_clear [simp]:
  assumes "i < 32 * length bm"
  shows "test_bit j (bitmap_clear bm i) \<longleftrightarrow> j \<noteq> i \<and> test_bit j bm"
  unfolding bitmap_clear_def test_bit_update [OF assms]
  using same_bit_iff [of j i] by (auto simp: bit_and_iff bit_not_iff test_bit_def)

lemma test_bit_bitmap_change:
  assumes "i < 32 * length bm"
  shows "test_bit j (bitmap_change bm i) \<longleftrightarrow> (if j = i then \<not> test_bit j bm else test_bit j bm)"
  unfolding bitmap_change_def test_bit_update [OF assms]
  using same_bit_iff [of j i] by (auto simp: bit_xor_iff test_bit_def)

lemma word_eq_minus_one_iff: "(w :: u32) = NOT 0 \<longleftrightarrow> (\<forall>i<32. bit w i)"
  by (auto simp: bit_eq_iff bit_simps simp del: bit.compl_zero)

lemma ffz_Some_iff: "ffz w = Some i \<longleftrightarrow> i < 32 \<and> \<not> bit w i \<and> (\<forall>j<i. bit w j)"
  by (auto simp: ffz_def bsf_def find_Some_upt bit_simps)

lemma ffz_None_iff: "ffz w = None \<longleftrightarrow> w = NOT 0"
  by (auto simp: ffz_def bsf_def word_eq_minus_one_iff bit_simps simp del: bit.compl_zero)

lemma bsf_Some_iff: "bsf w = Some i \<longleftrightarrow> i < 32 \<and> bit w i \<and> (\<forall>j<i. \<not> bit w j)"
  by (auto simp: bsf_def find_Some_upt)

lemma bsr_Some_iff: "bsr w = Some i \<longleftrightarrow> i < 32 \<and> bit w i \<and> (\<forall>j. i < j \<longrightarrow> \<not> bit w j)"
proof -
  have "bsr w = Some i \<longleftrightarrow>
      (\<exists>k<32. bit w (31 - k) \<and> i = 31 - k \<and> (\<forall>j<k. \<not> bit w (31 - j)))"
    by (auto simp: bsr_def find_Some_iff rev_nth)
  also have "\<dots> \<longleftrightarrow> i < 32 \<and> bit w i \<and> (\<forall>j. i < j \<longrightarrow> j < 32 \<longrightarrow> \<not> bit w j)"
  proof (intro iffI)
    assume "\<exists>k<32. bit w (31 - k) \<and> i = 31 - k \<and> (\<forall>j<k. \<not> bit w (31 - j))"
    then obtain k where k: "k < 32" "bit w (31 - k)" "i = 31 - k" "\<forall>j<k. \<not> bit w (31 - j)"
      by blast
    have "\<not> bit w j" if "i < j" "j < 32" for j
      using k(3,4) that spec [OF k(4), of "31 - j"] by auto
    with k show "i < 32 \<and> bit w i \<and> (\<forall>j. i < j \<longrightarrow> j < 32 \<longrightarrow> \<not> bit w j)" by auto
  next
    assume "i < 32 \<and> bit w i \<and> (\<forall>j. i < j \<longrightarrow> j < 32 \<longrightarrow> \<not> bit w j)"
    then show "\<exists>k<32. bit w (31 - k) \<and> i = 31 - k \<and> (\<forall>j<k. \<not> bit w (31 - j))"
      by (intro exI [of _ "31 - i"]) auto
  qed
  also have "\<dots> \<longleftrightarrow> i < 32 \<and> bit w i \<and> (\<forall>j. i < j \<longrightarrow> \<not> bit w j)"
    using bit_imp_le_length [of w] by auto
  finally show ?thesis .
qed

lemma bsr_None_iff: "bsr w = None \<longleftrightarrow> w = 0"
  by (auto simp: bsr_def find_None_iff bit_eq_iff dest: bit_imp_le_length)

lemma bsf_None_iff: "bsf w = None \<longleftrightarrow> w = 0"
  by (auto simp: bsf_def bit_eq_iff dest: bit_imp_le_length)

lemma fls_zero [simp]: "fls 0 = 0"
  by (simp add: fls_def bsr_None_iff [THEN iffD2])

lemma fls_eq_Suc: "fls w = int (Suc i) \<longleftrightarrow> i < 32 \<and> bit w i \<and> (\<forall>j. i < j \<longrightarrow> \<not> bit w j)"
  unfolding fls_def using bsr_Some_iff [of w i]
  by (auto split: option.splits)

lemma fls_range: "w \<noteq> 0 \<Longrightarrow> 1 \<le> fls w \<and> fls w \<le> 32"
  unfolding fls_def using bsr_None_iff [of w] bsr_Some_iff [of w]
  by (auto split: option.splits)

lemma test_bit_Cons_low: "j < 32 \<Longrightarrow> test_bit j (w # ws) = bit w j"
  by (simp add: test_bit_def)

lemma test_bit_Cons_high: "32 \<le> j \<Longrightarrow> test_bit j (w # ws) = test_bit (j - 32) ws"
  by (auto simp: test_bit_def le_div_geq le_mod_geq)

lemma find_zero_Cons_full:
  assumes "w = NOT 0"
  shows "List.find (\<lambda>j. \<not> test_bit j (w # ws)) [0..<32 * length (w # ws)] =
    map_option (\<lambda>z. 32 + z) (List.find (\<lambda>j. \<not> test_bit j ws) [0..<32 * length ws])"
    (is "?l = map_option _ ?r")
proof -
  have low: "test_bit j (w # ws)" if "j < 32" for j
    using that assms word_eq_minus_one_iff [of w] by (simp add: test_bit_Cons_low)
  show ?thesis
  proof (cases ?r)
    case None
    have "test_bit j (w # ws)" if "j < 32 * length (w # ws)" for j
      using None low [of j] that by (cases "j < 32") (auto simp: test_bit_Cons_high)
    then have "?l = None" by simp
    with None show ?thesis by (simp only: option.map)
  next
    case (Some z)
    then have z: "z < 32 * length ws" "\<not> test_bit z ws" "\<forall>j<z. test_bit j ws"
      by (auto simp only: find_Some_upt)
    have "test_bit j (w # ws)" if "j < 32 + z" for j
      using low [of j] z(3) that by (cases "j < 32") (auto simp: test_bit_Cons_high)
    moreover have "\<not> test_bit (32 + z) (w # ws)"
      using z(2) test_bit_Cons_high [of "32 + z" w ws] by simp
    ultimately have "?l = Some (32 + z)"
      unfolding find_Some_upt using z(1) by simp
    with Some show ?thesis by (simp only: option.map)
  qed
qed

lemma find_zero_Cons:
  assumes "ffz w = Some z"
  shows "List.find (\<lambda>j. \<not> test_bit j (w # ws)) [0..<32 * length (w # ws)] = Some z"
proof -
  from assms have z: "z < 32" "\<not> bit w z" "\<forall>j<z. bit w j" by (simp_all add: ffz_Some_iff)
  then have "\<not> test_bit z (w # ws)" "\<forall>j<z. test_bit j (w # ws)"
    by (simp_all add: test_bit_Cons_low)
  with z(1) show ?thesis unfolding find_Some_upt by simp
qed

lemma bitmap_ffz_from_spec:
  "bitmap_ffz_from i ws =
     (case List.find (\<lambda>j. \<not> test_bit j ws) [0..<32 * length ws] of
        None \<Rightarrow> -1 | Some z \<Rightarrow> int (z + i * 32))"
proof (induction ws arbitrary: i)
  case Nil
  then show ?case by simp
next
  case (Cons w ws)
  show ?case
  proof (cases "w = NOT 0")
    case True
    then have "bitmap_ffz_from i (w # ws) = bitmap_ffz_from (Suc i) ws" by simp
    then show ?thesis
      unfolding Cons.IH find_zero_Cons_full [OF True] map_option_case
      by (cases "List.find (\<lambda>j. \<not> test_bit j ws) [0..<32 * length ws]") (simp_all only: option.case mult_Suc add_ac)
  next
    case False
    then obtain z where "ffz w = Some z" using ffz_None_iff [of w] by blast
    with False show ?thesis
      unfolding find_zero_Cons [OF \<open>ffz w = Some z\<close>] by simp
  qed
qed

lemma bitmap_ffz_nonneg_iff:
  "bitmap_ffz bm = int z \<longleftrightarrow>
     z < 32 * length bm \<and> \<not> test_bit z bm \<and> (\<forall>j<z. test_bit j bm)"
proof -
  have "bitmap_ffz bm = int z \<longleftrightarrow>
      List.find (\<lambda>j. \<not> test_bit j bm) [0..<32 * length bm] = Some z"
    unfolding bitmap_ffz_def bitmap_ffz_from_spec
    by (cases "List.find (\<lambda>j. \<not> test_bit j bm) [0..<32 * length bm]") (simp_all del: find_None_upt)
  then show ?thesis unfolding find_Some_upt by simp
qed

lemma bitmap_ffz_full_iff: "bitmap_ffz bm = -1 \<longleftrightarrow> (\<forall>j < 32 * length bm. test_bit j bm)"
proof -
  have "bitmap_ffz bm = -1 \<longleftrightarrow>
      List.find (\<lambda>j. \<not> test_bit j bm) [0..<32 * length bm] = None"
    unfolding bitmap_ffz_def bitmap_ffz_from_spec
    by (cases "List.find (\<lambda>j. \<not> test_bit j bm) [0..<32 * length bm]") (simp_all del: find_None_upt)
  then show ?thesis by simp
qed

section \<open>The interface of a set of numbered slots\<close>

text \<open>
  What the users of a bitmap rely on: the slab allocator keeps one bit per object, the device
  tables one bit per minor number.  A \<open>slot_map\<close> has a capacity, a set of used slots, a search for
  a free one, and the two updates.
\<close>

locale slot_map =
  fixes cap :: "'b \<Rightarrow> nat"
    and used :: "'b \<Rightarrow> nat \<Rightarrow> bool"
    and free_slot :: "'b \<Rightarrow> int"
    and mark :: "'b \<Rightarrow> nat \<Rightarrow> 'b"
    and unmark :: "'b \<Rightarrow> nat \<Rightarrow> 'b"
  assumes cap_mark [simp]: "cap (mark b i) = cap b"
    and cap_unmark [simp]: "cap (unmark b i) = cap b"
    and used_mark: "i < cap b \<Longrightarrow> used (mark b i) j \<longleftrightarrow> j = i \<or> used b j"
    and used_unmark: "i < cap b \<Longrightarrow> used (unmark b i) j \<longleftrightarrow> j \<noteq> i \<and> used b j"
    and free_slot_Some:
      "free_slot b = int z \<longleftrightarrow> z < cap b \<and> \<not> used b z \<and> (\<forall>j<z. used b j)"
    and free_slot_full: "free_slot b = -1 \<longleftrightarrow> (\<forall>j<cap b. used b j)"
begin

lemma used_set_mark:
  "i < cap b \<Longrightarrow> {j. j < n \<and> used (mark b i) j} = {j. j < n \<and> (j = i \<or> used b j)}"
  by (simp add: used_mark)

lemma card_mark:
  assumes "i < cap b" "i < n" "\<not> used b i"
  shows "card {j. j < n \<and> used (mark b i) j} = Suc (card {j. j < n \<and> used b j})"
proof -
  have "{j. j < n \<and> used (mark b i) j} = insert i {j. j < n \<and> used b j}"
    using assms by (auto simp: used_mark)
  then show ?thesis using assms(3) by simp
qed

lemma card_unmark:
  assumes "i < cap b" "i < n" "used b i"
  shows "Suc (card {j. j < n \<and> used (unmark b i) j}) = card {j. j < n \<and> used b j}"
proof -
  have "{j. j < n \<and> used b j} = insert i {j. j < n \<and> used (unmark b i) j}"
    using assms by (auto simp: used_unmark)
  moreover have "i \<notin> {j. j < n \<and> used (unmark b i) j}"
    using assms(1) by (simp add: used_unmark)
  ultimately show ?thesis by simp
qed

lemma free_slot_cases:
  assumes "i < cap b" "\<not> used b i"
  obtains z where "free_slot b = int z" "z \<le> i" "\<not> used b z" "z < cap b"
proof -
  let ?z = "LEAST z. \<not> used b z"
  have least: "\<not> used b ?z" "?z \<le> i"
    using assms(2) by (rule LeastI, rule Least_le)
  have "\<forall>j < ?z. used b j" using not_less_Least [of _ "\<lambda>z. \<not> used b z"] by blast
  moreover have "?z < cap b" using least(2) assms(1) by simp
  ultimately have "free_slot b = int ?z" unfolding free_slot_Some using least(1) by blast
  then show ?thesis using least(2,1) \<open>?z < cap b\<close> by (rule that)
qed

lemma free_slot_lower: "free_slot b = int z \<Longrightarrow> j < z \<Longrightarrow> used b j"
  by (simp add: free_slot_Some)

end

interpretation bm: slot_map "\<lambda>bm. 32 * length bm" "\<lambda>bm i. test_bit i bm" bitmap_ffz
  bitmap_set bitmap_clear
  by unfold_locales
    (simp_all only: length_bitmap_set length_bitmap_clear test_bit_bitmap_set
      test_bit_bitmap_clear bitmap_ffz_nonneg_iff bitmap_ffz_full_iff)

section \<open>Properties\<close>

text \<open>
  Whichever variant of a bit operation the compiler picks, the byte-wide one it uses for a
  constant bit number or the single \<^verbatim>\<open>bts\<close>/\<^verbatim>\<open>btr\<close>/\<^verbatim>\<open>btc\<close> instruction, the word array after it is
  the same, and it is the one the portable bitmap functions compute; the two variants of
  \<^verbatim>\<open>test_bit\<close> agree on whether they return zero.
\<close>

theorem bit_ops_variants_agree:
  "set_bit immediate nr addr = bitmap_set addr nr \<and>
   clear_bit immediate nr addr = bitmap_clear addr nr \<and>
   change_bit immediate nr addr = bitmap_change addr nr \<and>
   (constant_test_bit nr addr \<longleftrightarrow> variable_test_bit nr addr \<noteq> 0)"
proof -
  have "constant_test_bit nr addr \<longleftrightarrow> variable_test_bit nr addr \<noteq> 0"
    by (simp add: constant_test_bit_def variable_test_bit_def carry_def test_bit_def
        drop_bit_eq_div bit_iff_and_push_bit_not_eq_0 and.commute)
  then show ?thesis
    by (simp add: set_bit_def set_bit_imm_def bts_eq_bitmap_set clear_bit_def clear_bit_imm_def
        btr_eq_bitmap_clear change_bit_def change_bit_imm_def btc_eq_bitmap_change in_byte_mask
        clear_byte_mask bitmap_set_def bitmap_clear_def bitmap_change_def)
qed

text \<open>
  C32: \<^verbatim>\<open>bitmap_ffz\<close> returns the index of the lowest clear bit of the whole bitmap, and \<open>-1\<close>
  exactly when every bit is set.
\<close>

theorem bitmap_ffz_lowest_clear:
  "(bitmap_ffz bm = int z \<longleftrightarrow>
      z < 32 * length bm \<and> \<not> test_bit z bm \<and> (\<forall>j<z. test_bit j bm)) \<and>
   (bitmap_ffz bm = -1 \<longleftrightarrow> (\<forall>j < 32 * length bm. test_bit j bm))"
  by (simp only: bitmap_ffz_nonneg_iff bitmap_ffz_full_iff)

theorem bitmap_ffz_lowest_clear_witness:
  "bitmap_ffz [-1, 5] = int 33 \<and> \<not> test_bit 33 [-1, 5] \<and> bitmap_ffz [-1, -1] = -1"
proof -
  have "test_bit j [-1, 5]" if "j < 33" for j
  proof (cases "j = 32")
    case False
    with that show ?thesis by (simp add: test_bit_def)
  qed (simp add: test_bit_def)
  moreover have "\<not> test_bit 33 [-1, 5]" by (simp add: test_bit_def)
  ultimately have "bitmap_ffz [-1, 5] = int 33"
    using bitmap_ffz_lowest_clear [of "[-1, 5]" 33] by simp
  moreover have "test_bit j [-1, -1]" if "j < 64" for j
    using that by (cases "j < 32") (simp_all add: test_bit_def div_nat_eqI)
  ultimately show ?thesis
    using bitmap_ffz_lowest_clear [of "[-1, -1]" 0] by (simp add: test_bit_def)
qed

end
