(* ===== verification/Slab.thy ===== *)
theory Slab
  imports PageArith Bitops KList Alloc_Spec
begin

text \<open>
  The slab allocator of \<^verbatim>\<open>src/kernel/slab.c\<close>: a cache of equally sized objects, kept in slabs of
  one page each.  A slab starts with its descriptor (a list link, the count \<^verbatim>\<open>in_use\<close>, the pointer
  \<^verbatim>\<open>mem\<close> and a bitmap with one bit per object), followed by the objects.  A cache keeps its slabs on
  three lists, full, partial and empty.  The state gives the descriptor at every slab address and
  the three lists in order.  The theory shows that the lists always classify the slabs by their
  count, that the count is the number of bits set, and that the cache meets the allocator contract:
  live objects never overlap.
\<close>

section \<open>Definitions\<close>

record slab =
  in_use :: u32
  slab_mem :: addr
  slab_bitmap :: bitmap

record slab_cache =
  full :: "addr list"
  partial :: "addr list"
  empty :: "addr list"
  pages_per_slab :: u32
  objs_per_slab :: u32
  obj_size :: u32

record slab_state =
  slab_at :: "addr \<Rightarrow> slab"
  cache :: slab_cache

definition bitmap_length :: "slab_cache \<Rightarrow> u32" where
  "bitmap_length c = pages_per_slab c * (256 div 32)"

definition bitmap_size :: "slab_cache \<Rightarrow> u32" where
  "bitmap_size c = bitmap_length c * 4"

definition slab_size :: "slab_cache \<Rightarrow> u32" where
  "slab_size c = pages_per_slab c * FRAME_SIZE"

text \<open>\<^verbatim>\<open>sizeof(struct slab)\<close> is 16: the two links, \<^verbatim>\<open>in_use\<close> and \<^verbatim>\<open>mem\<close>.\<close>

definition slab_desc_size :: "slab_cache \<Rightarrow> u32" where
  "slab_desc_size c = 16 + bitmap_size c"

definition slab_mem_size :: "slab_cache \<Rightarrow> u32" where
  "slab_mem_size c = slab_size c - slab_desc_size c"

text \<open>The argument \<open>mem_ok\<close> says whether \<^verbatim>\<open>kmalloc\<close> found memory for the cache structure.\<close>

definition slab_cache_create :: "bool \<Rightarrow> u32 \<Rightarrow> slab_cache option" where
  "slab_cache_create mem_ok sz =
     (if \<not> mem_ok then None
      else
        let c = \<lparr>full = [], partial = [], empty = [], pages_per_slab = 1, objs_per_slab = 0,
                 obj_size = (if sz < 16 then 16 else sz)\<rparr>
        in Some (c\<lparr>objs_per_slab := slab_mem_size c div obj_size c\<rparr>))"

definition set_slab :: "addr \<Rightarrow> slab \<Rightarrow> slab_state \<Rightarrow> slab_state" where
  "set_slab s d S = S\<lparr>slab_at := (slab_at S)(s := d)\<rparr>"

text \<open>\<^verbatim>\<open>kalloc_pages\<close> is an argument: \<open>None\<close> is \<^verbatim>\<open>NULL\<close>.\<close>

definition new_slab :: "(u32 \<Rightarrow> addr option) \<Rightarrow> slab_state \<Rightarrow> (addr \<times> slab_state) option" where
  "new_slab kalloc_pages S =
     (case kalloc_pages (pages_per_slab (cache S)) of
        None \<Rightarrow> None
      | Some s \<Rightarrow>
          Some (s, set_slab s \<lparr>in_use = 0, slab_mem = s + 16 + bitmap_length (cache S) * 4,
              slab_bitmap = replicate (unat (bitmap_length (cache S))) 0\<rparr> S))"

definition get_slab :: "(u32 \<Rightarrow> addr option) \<Rightarrow> slab_state \<Rightarrow> (addr \<times> slab_state) option" where
  "get_slab kalloc_pages S =
     (case partial (cache S) of
        s # _ \<Rightarrow> Some (s, S)
      | [] \<Rightarrow>
          (case empty (cache S) of
             s # _ \<Rightarrow> Some (s, S)
           | [] \<Rightarrow>
               (case new_slab kalloc_pages S of
                  None \<Rightarrow> None
                | Some (s, S) \<Rightarrow>
                    Some (s, S\<lparr>cache := (cache S)\<lparr>partial := s # partial (cache S)\<rparr>\<rparr>))))"

text \<open>\<^verbatim>\<open>list_del\<close> of a slab: it leaves the list that holds it.\<close>

definition unlink_slab :: "addr \<Rightarrow> slab_state \<Rightarrow> slab_state" where
  "unlink_slab s S =
     S\<lparr>cache := (cache S)\<lparr>full := remove1 s (full (cache S)),
        partial := remove1 s (partial (cache S)), empty := remove1 s (empty (cache S))\<rparr>\<rparr>"

definition add_full :: "addr \<Rightarrow> slab_state \<Rightarrow> slab_state" where
  "add_full s S = S\<lparr>cache := (cache S)\<lparr>full := s # full (cache S)\<rparr>\<rparr>"

definition add_partial :: "addr \<Rightarrow> slab_state \<Rightarrow> slab_state" where
  "add_partial s S = S\<lparr>cache := (cache S)\<lparr>partial := s # partial (cache S)\<rparr>\<rparr>"

definition add_empty :: "addr \<Rightarrow> slab_state \<Rightarrow> slab_state" where
  "add_empty s S = S\<lparr>cache := (cache S)\<lparr>empty := s # empty (cache S)\<rparr>\<rparr>"

text \<open>
  \<^verbatim>\<open>slab_alloc\<close> does not test the result of \<^verbatim>\<open>get_slab\<close>: without memory it dereferences \<^verbatim>\<open>NULL\<close>.
  A bitmap without a clear bit would make it write outside the bitmap.
\<close>

definition slab_alloc_in :: "addr \<Rightarrow> slab_state \<Rightarrow> (addr \<times> slab_state) outcome" where
  "slab_alloc_in s S =
     (let d = slab_at S s; ffz = bitmap_ffz (slab_bitmap d); zero = (word_of_int ffz :: u32)
      in if ffz = -1 then Stuck
         else
           let d = d\<lparr>slab_bitmap := bitmap_set (slab_bitmap d) (unat zero), in_use := in_use d + 1\<rparr>;
               S = set_slab s d S;
               S = (if in_use d = objs_per_slab (cache S) then add_full s (unlink_slab s S)
                    else if in_use d = 1 then add_partial s (unlink_slab s S)
                    else S)
           in Ret (slab_mem d + zero * obj_size (cache S), S))"

definition slab_alloc :: "(u32 \<Rightarrow> addr option) \<Rightarrow> slab_state \<Rightarrow> (addr \<times> slab_state) outcome" where
  "slab_alloc kalloc_pages S =
     (case get_slab kalloc_pages S of
        None \<Rightarrow> Stuck
      | Some (s, S) \<Rightarrow> slab_alloc_in s S)"

definition slab_end :: "slab_cache \<Rightarrow> slab \<Rightarrow> addr" where
  "slab_end c d = slab_mem d + slab_mem_size c"

definition in_slab :: "slab_state \<Rightarrow> addr \<Rightarrow> addr \<Rightarrow> bool" where
  "in_slab S m s \<longleftrightarrow>
     slab_mem (slab_at S s) \<le> m \<and> m < slab_end (cache S) (slab_at S s)"

definition find_slab :: "slab_state \<Rightarrow> addr \<Rightarrow> addr option" where
  "find_slab S m =
     (case List.find (in_slab S m) (full (cache S)) of
        Some s \<Rightarrow> Some s
      | None \<Rightarrow> List.find (in_slab S m) (partial (cache S)))"

definition slab_free :: "addr \<Rightarrow> slab_state \<Rightarrow> slab_state" where
  "slab_free m S =
     (case find_slab S m of
        None \<Rightarrow> S
      | Some s \<Rightarrow>
          (let d = slab_at S s;
               idx = (m - slab_mem d) div obj_size (cache S);
               d = d\<lparr>slab_bitmap := bitmap_clear (slab_bitmap d) (unat idx),
                     in_use := in_use d - 1\<rparr>;
               S = set_slab s d S
           in if in_use d = 0 then add_empty s (unlink_slab s S)
              else if in_use d + 1 = objs_per_slab (cache S) then add_partial s (unlink_slab s S)
              else S))"

section \<open>The invariant\<close>

abbreviation nobjs :: "slab_state \<Rightarrow> nat" where
  "nobjs S \<equiv> unat (objs_per_slab (cache S))"

definition used :: "slab_state \<Rightarrow> addr \<Rightarrow> nat set" where
  "used S s = {i. i < nobjs S \<and> test_bit i (slab_bitmap (slab_at S s))}"

definition all_slabs :: "slab_state \<Rightarrow> addr list" where
  "all_slabs S = full (cache S) @ partial (cache S) @ empty (cache S)"

definition cache_ok :: "slab_cache \<Rightarrow> bool" where
  "cache_ok c \<longleftrightarrow> 16 \<le> obj_size c \<and> obj_size c \<le> 4048 \<and> pages_per_slab c = 1 \<and>
     objs_per_slab c = slab_mem_size c div obj_size c"

definition slab_wf :: "slab_state \<Rightarrow> addr \<Rightarrow> bool" where
  "slab_wf S s \<longleftrightarrow>
     4096 dvd unat s \<and> unat s + 4096 < 4294967296 \<and>
     slab_mem (slab_at S s) = s + 48 \<and> length (slab_bitmap (slab_at S s)) = 8 \<and>
     unat (in_use (slab_at S s)) = card (used S s)"

definition classified :: "slab_state \<Rightarrow> addr \<Rightarrow> bool" where
  "classified S s \<longleftrightarrow>
     (s \<in> set (full (cache S)) \<longrightarrow> card (used S s) = nobjs S) \<and>
     (s \<in> set (partial (cache S)) \<longrightarrow> 0 < card (used S s) \<and> card (used S s) < nobjs S) \<and>
     (s \<in> set (empty (cache S)) \<longrightarrow> card (used S s) = 0)"

definition slab_ok :: "slab_state \<Rightarrow> bool" where
  "slab_ok S \<longleftrightarrow> cache_ok (cache S) \<and> distinct (all_slabs S) \<and>
     (\<forall>s \<in> set (all_slabs S). slab_wf S s \<and> classified S s)"

text \<open>The objects of the cache, the addresses they occupy, and which of them are live.\<close>

definition obj_ptr :: "slab_state \<Rightarrow> addr \<Rightarrow> nat \<Rightarrow> addr" where
  "obj_ptr S s i = s + 48 + of_nat i * obj_size (cache S)"

definition obj_extent :: "slab_state \<Rightarrow> addr \<Rightarrow> nat set" where
  "obj_extent S p = {unat p ..< unat p + unat (obj_size (cache S))}"

definition live_objs :: "slab_state \<Rightarrow> addr set" where
  "live_objs S = {obj_ptr S s i |s i. s \<in> set (all_slabs S) \<and> i \<in> used S s}"

text \<open>What the cache relies on: a page from \<^verbatim>\<open>kalloc_pages\<close> is aligned and holds no slab yet.\<close>

definition page_fresh :: "(u32 \<Rightarrow> addr option) \<Rightarrow> slab_state \<Rightarrow> bool" where
  "page_fresh kalloc_pages S \<longleftrightarrow>
     (case kalloc_pages 1 of
        None \<Rightarrow> True
      | Some s \<Rightarrow> 4096 dvd unat s \<and> unat s + 4096 < 4294967296 \<and> s \<notin> set (all_slabs S))"

definition slab_inv :: "slab_state \<Rightarrow> addr list \<Rightarrow> bool" where
  "slab_inv S L \<longleftrightarrow> slab_ok S \<and> distinct L \<and> set L = live_objs S"

section \<open>Arithmetic of objects\<close>

lemma cache_okD:
  assumes "cache_ok c"
  shows "slab_mem_size c = 4048" "unat (objs_per_slab c) = 4048 div unat (obj_size c)"
    "16 \<le> unat (obj_size c)" "0 < unat (objs_per_slab c)" "unat (objs_per_slab c) \<le> 253"
proof -
  from assms have c: "16 \<le> unat (obj_size c)" "unat (obj_size c) \<le> 4048"
      "pages_per_slab c = 1" "objs_per_slab c = slab_mem_size c div obj_size c"
    by (simp_all add: cache_ok_def word_le_nat_alt)
  show m: "slab_mem_size c = 4048"
    by (simp add: slab_mem_size_def slab_size_def slab_desc_size_def bitmap_size_def
        bitmap_length_def c(3))
  show o: "unat (objs_per_slab c) = 4048 div unat (obj_size c)" by (simp add: c(4) m unat_div)
  show "16 \<le> unat (obj_size c)" by (rule c(1))
  show "0 < unat (objs_per_slab c)" unfolding o using c by (simp add: div_greater_zero_iff)
  have "4048 div unat (obj_size c) \<le> 4048 div 16" using c(1) by (intro div_le_mono2) simp_all
  then show "unat (objs_per_slab c) \<le> 253" unfolding o by simp
qed

lemma obj_fits:
  assumes "cache_ok (cache S)" "i < nobjs S"
  shows "i * unat (obj_size (cache S)) + unat (obj_size (cache S)) \<le> 4048"
proof -
  have "Suc i \<le> 4048 div unat (obj_size (cache S))"
    using assms cache_okD(2) [OF assms(1)] by simp
  then have "Suc i * unat (obj_size (cache S)) \<le> 4048"
    using cache_okD(3) [OF assms(1)] by (simp add: less_eq_div_iff_mult_less_eq del: mult_Suc)
  then show ?thesis by simp
qed

lemma unat_add_small: "unat (a :: u32) + n < 4294967296 \<Longrightarrow> unat (a + of_nat n) = unat a + n"
  by (simp add: unat_word_ariths unat_of_nat)

lemma unat_obj_offset:
  assumes "cache_ok (cache S)" "i < nobjs S"
  shows "unat (of_nat i * obj_size (cache S)) = i * unat (obj_size (cache S))"
proof -
  have i: "i < 4294967296" using assms(2) cache_okD(5) [OF assms(1)] by simp
  then have "unat (of_nat i :: u32) = i" by (simp add: unat_of_nat)
  then show ?thesis
    using obj_fits [OF assms] by (subst unat_mult_no_wrap) simp_all
qed

lemma unat_obj_ptr:
  assumes "cache_ok (cache S)" "unat s + 4096 < 4294967296" "i < nobjs S"
  shows "unat (obj_ptr S s i) = unat s + 48 + i * unat (obj_size (cache S))"
proof -
  have "unat (s + 48) = unat s + 48" using assms(2) by (subst unat_add_no_wrap) simp_all
  then show ?thesis
    using assms(2) obj_fits [OF assms(1,3)] unat_obj_offset [OF assms(1,3)]
    unfolding obj_ptr_def by (subst unat_add_no_wrap) simp_all
qed

lemma obj_in_page:
  assumes "cache_ok (cache S)" "4096 dvd unat s" "unat s + 4096 < 4294967296" "i < nobjs S"
  shows "unat (obj_ptr S s i) div 4096 = unat s div 4096"
proof -
  obtain k where "unat s = 4096 * k" using assms(2) by (auto elim: dvdE)
  then show ?thesis
    using unat_obj_ptr [OF assms(1,3,4)] obj_fits [OF assms(1,4)] cache_okD(3) [OF assms(1)]
    by (auto intro!: div_nat_eqI)
qed

lemma page_eq: "4096 dvd unat s \<Longrightarrow> 4096 dvd unat t \<Longrightarrow> unat s div 4096 = unat t div 4096 \<Longrightarrow> s = (t :: u32)"
  by (metis dvd_div_mult_self word_unat_eq_iff)

lemma obj_extents_disjoint:
  assumes c: "cache_ok (cache S)"
    and s: "4096 dvd unat s" "unat s + 4096 < 4294967296" "i < nobjs S"
    and t: "4096 dvd unat t" "unat t + 4096 < 4294967296" "j < nobjs S"
    and ne: "s \<noteq> t \<or> i \<noteq> j"
  shows "obj_extent S (obj_ptr S s i) \<inter> obj_extent S (obj_ptr S t j) = {}"
proof (cases "s = t")
  case True
  then have "i < j \<or> j < i" using ne by auto
  then have "Suc i * unat (obj_size (cache S)) \<le> j * unat (obj_size (cache S)) \<or>
      Suc j * unat (obj_size (cache S)) \<le> i * unat (obj_size (cache S))"
    by (metis Suc_leI mult_le_mono1)
  then show ?thesis
    using True s t by (auto simp: obj_extent_def unat_obj_ptr [OF c])
next
  case False
  obtain k l where kl: "unat s = 4096 * k" "unat t = 4096 * l"
    using s(1) t(1) by (auto elim!: dvdE)
  then have "k < l \<or> l < k" using False by (metis nat_neq_iff word_unat_eq_iff)
  then show ?thesis
    using obj_fits [OF c s(3)] obj_fits [OF c t(3)] s(2,3) t(2,3)
    by (auto simp: obj_extent_def unat_obj_ptr [OF c] kl)
qed

lemma obj_ptr_inj:
  assumes "cache_ok (cache S)"
    and "4096 dvd unat s" "unat s + 4096 < 4294967296" "i < nobjs S"
    and "4096 dvd unat t" "unat t + 4096 < 4294967296" "j < nobjs S"
    and "obj_ptr S s i = obj_ptr S t j"
  shows "s = t \<and> i = j"
proof (rule ccontr)
  assume "\<not> (s = t \<and> i = j)"
  then have "obj_extent S (obj_ptr S s i) \<inter> obj_extent S (obj_ptr S t j) = {}"
    using obj_extents_disjoint assms by blast
  then have "obj_extent S (obj_ptr S s i) = {}" using assms(8) by simp
  then show False using cache_okD(3) [OF assms(1)] by (simp add: obj_extent_def)
qed

section \<open>Moving one slab between the lists\<close>

text \<open>
  \<open>relinked s S S'\<close>: from \<open>S\<close> to \<open>S'\<close> only the descriptor of \<open>s\<close> and the list that holds \<open>s\<close> may
  have changed.
\<close>

definition relinked :: "addr \<Rightarrow> slab_state \<Rightarrow> slab_state \<Rightarrow> bool" where
  "relinked s S S' \<longleftrightarrow>
     distinct (all_slabs S') \<and> set (all_slabs S') = set (all_slabs S) \<and>
     obj_size (cache S') = obj_size (cache S) \<and> objs_per_slab (cache S') = objs_per_slab (cache S) \<and>
     pages_per_slab (cache S') = pages_per_slab (cache S) \<and>
     (\<forall>x. x \<noteq> s \<longrightarrow>
        slab_at S' x = slab_at S x \<and>
        (x \<in> set (full (cache S')) \<longleftrightarrow> x \<in> set (full (cache S))) \<and>
        (x \<in> set (partial (cache S')) \<longleftrightarrow> x \<in> set (partial (cache S))) \<and>
        (x \<in> set (empty (cache S')) \<longleftrightarrow> x \<in> set (empty (cache S))))"

lemma relinked_set_slab:
  "distinct (all_slabs S) \<Longrightarrow> relinked s S (set_slab s d S)"
  by (simp add: relinked_def set_slab_def all_slabs_def)

lemma relinked_add:
  assumes "distinct (all_slabs S)" "s \<in> set (all_slabs S)"
  shows "relinked s S (add_full s (unlink_slab s (set_slab s d S)))"
    and "relinked s S (add_partial s (unlink_slab s (set_slab s d S)))"
    and "relinked s S (add_empty s (unlink_slab s (set_slab s d S)))"
  using assms
  by (auto simp: relinked_def set_slab_def all_slabs_def unlink_slab_def add_full_def
      add_partial_def add_empty_def dest: notin_set_remove1)

lemma relinked_cache_ok:
  assumes "relinked s S S'"
  shows "cache_ok (cache S') = cache_ok (cache S)" "nobjs S' = nobjs S"
    "slab_mem_size (cache S') = slab_mem_size (cache S)"
  using assms
  by (simp_all add: relinked_def cache_ok_def slab_mem_size_def slab_size_def slab_desc_size_def
      bitmap_size_def bitmap_length_def)

lemma relinked_used: "relinked s S S' \<Longrightarrow> x \<noteq> s \<Longrightarrow> used S' x = used S x"
  using relinked_cache_ok(2) [of s S S'] by (simp add: used_def relinked_def)

lemma relinked_slab_ok:
  assumes c: "cache_ok (cache S)"
    and rest: "\<And>x. x \<in> set (all_slabs S) \<Longrightarrow> x \<noteq> s \<Longrightarrow> slab_wf S x \<and> classified S x"
    and r: "relinked s S S'" and new: "slab_wf S' s" "classified S' s"
  shows "slab_ok S'"
proof -
  have "slab_wf S' x \<and> classified S' x" if x: "x \<in> set (all_slabs S')" for x
  proof (cases "x = s")
    case False
    have "slab_wf S x \<and> classified S x" using rest x False r by (simp add: relinked_def)
    then show ?thesis
      using r False relinked_used [OF r False] relinked_cache_ok [OF r]
      by (simp add: relinked_def slab_wf_def classified_def)
  qed (use new in simp)
  then show ?thesis using c r relinked_cache_ok(1) [OF r] by (simp add: slab_ok_def relinked_def)
qed

lemma relinked_obj:
  assumes "relinked s S S'"
  shows "obj_ptr S' = obj_ptr S" "obj_extent S' = obj_extent S"
  using assms by (simp_all add: relinked_def obj_ptr_def obj_extent_def fun_eq_iff)

text \<open>The live objects after a step: those of the other slabs and those of \<open>s\<close>.\<close>

lemma live_split:
  assumes "s \<in> set (all_slabs S)"
  shows "live_objs S =
    {obj_ptr S x i |x i. x \<in> set (all_slabs S) \<and> x \<noteq> s \<and> i \<in> used S x} \<union>
    obj_ptr S s ` used S s"
  using assms unfolding live_objs_def by (auto 0 3)

lemma relinked_live:
  assumes "relinked s S S'" "s \<in> set (all_slabs S)"
  shows "live_objs S' =
    {obj_ptr S x i |x i. x \<in> set (all_slabs S) \<and> x \<noteq> s \<and> i \<in> used S x} \<union>
    obj_ptr S s ` used S' s"
proof -
  have a: "set (all_slabs S') = set (all_slabs S)" using assms(1) by (simp add: relinked_def)
  have "{obj_ptr S x i |x i. x \<in> set (all_slabs S) \<and> x \<noteq> s \<and> i \<in> used S' x} =
      {obj_ptr S x i |x i. x \<in> set (all_slabs S) \<and> x \<noteq> s \<and> i \<in> used S x}"
    using relinked_used [OF assms(1)] by (intro Collect_cong) blast
  then show ?thesis
    using live_split [of s S'] assms(2) unfolding a relinked_obj(1) [OF assms(1)] by simp
qed

lemma finite_used [simp]: "finite (used S s)"
  by (simp add: used_def)

lemma card_used_le: "card (used S s) \<le> nobjs S"
  using card_mono [of "{..<nobjs S}" "used S s"] by (auto simp: used_def)

section \<open>Allocation\<close>

lemma used_set_bit:
  assumes "length (slab_bitmap (slab_at S s)) = 8" "z < 256" "nobjs S' = nobjs S"
    and "slab_bitmap (slab_at S' s) = bitmap_set (slab_bitmap (slab_at S s)) z"
  shows "used S' s = (if z < nobjs S then insert z (used S s) else used S s)"
  using assms by (auto simp: used_def)

lemma used_clear_bit:
  assumes "length (slab_bitmap (slab_at S s)) = 8" "z < 256" "nobjs S' = nobjs S"
    and "slab_bitmap (slab_at S' s) = bitmap_clear (slab_bitmap (slab_at S s)) z"
  shows "used S' s = used S s - {z}"
  using assms by (auto simp: used_def)

lemma free_object:
  assumes "cache_ok (cache S)" "slab_wf S s" "card (used S s) < nobjs S"
  obtains z where "bitmap_ffz (slab_bitmap (slab_at S s)) = int z" "z < nobjs S" "z \<notin> used S s"
proof -
  have "\<not> {..<nobjs S} \<subseteq> used S s"
    using assms(3) card_mono [of "used S s" "{..<nobjs S}"] by (auto simp: not_less)
  then obtain i where i: "i < nobjs S" "\<not> test_bit i (slab_bitmap (slab_at S s))"
    unfolding used_def by blast
  have "i < 32 * length (slab_bitmap (slab_at S s))"
    using i(1) cache_okD(5) [OF assms(1)] assms(2) by (simp add: slab_wf_def)
  from bm.free_slot_cases [OF this i(2)] obtain z where z:
      "bitmap_ffz (slab_bitmap (slab_at S s)) = int z" "z \<le> i"
      "\<not> test_bit z (slab_bitmap (slab_at S s))" by blast
  have "z < nobjs S" "z \<notin> used S s" using z(2,3) i(1) by (simp_all add: used_def)
  with z(1) show thesis by (rule that)
qed

lemma alloc_place_classified:
  assumes d: "distinct (all_slabs S)" and n: "0 < card (used S' s)" "card (used S' s) \<le> nobjs S"
    and place: "card (used S' s) = 1 \<or> s \<in> set (partial (cache S))"
    and same: "nobjs S' = nobjs S" and T: "cache T = cache S"
    and S': "S' = (if card (used S' s) = nobjs S then add_full s (unlink_slab s T)
      else if card (used S' s) = 1 then add_partial s (unlink_slab s T) else T)"
  shows "classified S' s"
proof -
  have dl: "distinct (full (cache S))" "distinct (partial (cache S))" "distinct (empty (cache S))"
      "set (full (cache S)) \<inter> set (partial (cache S)) = {}"
      "set (empty (cache S)) \<inter> set (partial (cache S)) = {}"
    using d by (auto simp: all_slabs_def)
  consider "card (used S' s) = nobjs S" "cache S' = cache (add_full s (unlink_slab s T))"
    | "card (used S' s) < nobjs S" "cache S' = cache (add_partial s (unlink_slab s T))"
    | "card (used S' s) < nobjs S" "cache S' = cache T" "s \<in> set (partial (cache S))"
    using S' n place by (metis le_neq_implies_less)
  then show ?thesis
  proof cases
    case 1
    then show ?thesis using same dl(2,3)
      by (simp add: classified_def add_full_def unlink_slab_def T)
  next
    case 2
    then show ?thesis using same dl(1,3) n
      by (simp add: classified_def add_partial_def unlink_slab_def T)
  next
    case 3
    then show ?thesis using same dl(4,5) n by (auto simp: classified_def T)
  qed
qed

lemma slab_alloc_in_ok:
  assumes c: "cache_ok (cache S)" and d: "distinct (all_slabs S)" and s: "s \<in> set (all_slabs S)"
    and wf: "slab_wf S s" and room: "card (used S s) < nobjs S"
    and rest: "\<And>x. x \<in> set (all_slabs S) \<Longrightarrow> x \<noteq> s \<Longrightarrow> slab_wf S x \<and> classified S x"
    and place: "card (used S s) = 0 \<or> s \<in> set (partial (cache S))"
  obtains z S' where "slab_alloc_in s S = Ret (obj_ptr S s z, S')" "z < nobjs S" "z \<notin> used S s"
    "slab_ok S'" "relinked s S S'" "used S' s = insert z (used S s)"
proof -
  obtain z where z: "bitmap_ffz (slab_bitmap (slab_at S s)) = int z" "z < nobjs S" "z \<notin> used S s"
    using free_object [OF c wf room] .
  have z256: "z < 256" using z(2) cache_okD(5) [OF c] by simp
  then have uz: "unat (word_of_int (int z) :: u32) = z" by (simp add: unat_of_nat)
  define D where "D = (slab_at S s)\<lparr>slab_bitmap := bitmap_set (slab_bitmap (slab_at S s)) z,
    in_use := in_use (slab_at S s) + 1\<rparr>"
  define T where "T = set_slab s D S"
  define S' where "S' = (if in_use D = objs_per_slab (cache S) then add_full s (unlink_slab s T)
    else if in_use D = 1 then add_partial s (unlink_slab s T) else T)"
  have T: "cache T = cache S" "slab_at T s = D" by (simp_all add: T_def set_slab_def)
  have r: "relinked s S S'"
    using relinked_set_slab [OF d] relinked_add [OF d s] by (auto simp: S'_def T_def)
  have at: "slab_at S' s = D"
    using T by (simp add: S'_def add_full_def add_partial_def unlink_slab_def)
  have u: "used S' s = insert z (used S s)"
    using used_set_bit [of S s z S'] wf z z256 relinked_cache_ok(2) [OF r]
    by (simp add: at D_def slab_wf_def)
  then have card: "card (used S' s) = Suc (card (used S s))" using z(3) by simp
  have iu: "unat (in_use D) = card (used S' s)"
  proof -
    have "unat (in_use (slab_at S s)) + 1 < 4294967296"
      using wf room cache_okD(5) [OF c] by (simp add: slab_wf_def)
    then have "unat (in_use D) = unat (in_use (slab_at S s)) + 1"
      by (simp add: D_def unat_add_no_wrap)
    then show ?thesis using wf card by (simp add: slab_wf_def)
  qed
  have wf': "slab_wf S' s"
    using wf iu by (simp add: slab_wf_def at) (simp add: D_def)
  have full_iff: "in_use D = objs_per_slab (cache S) \<longleftrightarrow> card (used S' s) = nobjs S"
    using iu by (metis word_unat_eq_iff)
  have one_iff: "in_use D = 1 \<longleftrightarrow> card (used S' s) = 1"
    using iu by (metis unsigned_1 word_unat_eq_iff)
  have "classified S' s"
  proof (rule alloc_place_classified [OF d _ _ _ _ T(1)])
    show "card (used S' s) = 1 \<or> s \<in> set (partial (cache S))" using place card by auto
    show "S' = (if card (used S' s) = nobjs S then add_full s (unlink_slab s T)
        else if card (used S' s) = 1 then add_partial s (unlink_slab s T) else T)"
      unfolding full_iff [symmetric] one_iff [symmetric] by (rule S'_def)
  qed (use card room relinked_cache_ok(2) [OF r] in simp_all)
  then have ok: "slab_ok S'" using relinked_slab_ok [OF c rest r wf'] by blast
  have "slab_alloc_in s S = Ret (obj_ptr S s z, S')"
    using z(1) uz wf
    by (simp add: slab_alloc_in_def Let_def S'_def T_def D_def obj_ptr_def slab_wf_def set_slab_def
        add_full_def add_partial_def unlink_slab_def)
  then show thesis using that z ok r u by blast
qed

lemma slab_okD:
  assumes "slab_ok S"
  shows "cache_ok (cache S)" "distinct (all_slabs S)"
    "\<And>x. x \<in> set (all_slabs S) \<Longrightarrow> slab_wf S x" "\<And>x. x \<in> set (all_slabs S) \<Longrightarrow> classified S x"
  using assms by (simp_all add: slab_ok_def)

lemma slab_wf_page: "slab_wf S s \<Longrightarrow> 4096 dvd unat s" "slab_wf S s \<Longrightarrow> unat s + 4096 < 4294967296"
  by (simp_all add: slab_wf_def)

text \<open>\<open>slab_ready s S\<close>: the situation in which \<^verbatim>\<open>slab_alloc\<close> finds itself after \<^verbatim>\<open>get_slab\<close>.\<close>

definition slab_ready :: "addr \<Rightarrow> slab_state \<Rightarrow> bool" where
  "slab_ready s S \<longleftrightarrow> cache_ok (cache S) \<and> distinct (all_slabs S) \<and> s \<in> set (all_slabs S) \<and>
     slab_wf S s \<and> card (used S s) < nobjs S \<and>
     (\<forall>x \<in> set (all_slabs S). x \<noteq> s \<longrightarrow> slab_wf S x \<and> classified S x) \<and>
     (card (used S s) = 0 \<or> s \<in> set (partial (cache S)))"

lemma slab_ready_of_ok:
  assumes ok: "slab_ok S" and s: "s \<in> set (partial (cache S)) \<or> s \<in> set (empty (cache S))"
  shows "slab_ready s S"
proof -
  have "s \<in> set (all_slabs S)" using s by (auto simp: all_slabs_def)
  moreover have "card (used S s) < nobjs S" "card (used S s) = 0 \<or> s \<in> set (partial (cache S))"
    using s slab_okD(4) [OF ok calculation] cache_okD(4) [OF slab_okD(1) [OF ok]]
    by (auto simp: classified_def)
  ultimately show ?thesis using slab_okD [OF ok] by (simp add: slab_ready_def)
qed

lemma new_slab_ready:
  assumes ok: "slab_ok S" and fresh: "page_fresh kp S" and n: "new_slab kp S = Some (s, S1)"
  shows "slab_ready s (add_partial s S1)" "live_objs (add_partial s S1) = live_objs S"
    "obj_size (cache (add_partial s S1)) = obj_size (cache S)"
proof -
  let ?S = "add_partial s S1"
  have pps: "pages_per_slab (cache S) = 1" using slab_okD(1) [OF ok] by (simp add: cache_ok_def)
  then have bl: "bitmap_length (cache S) = 8" by (simp add: bitmap_length_def)
  have kp: "kp 1 = Some s" and S1: "S1 = set_slab s \<lparr>in_use = 0, slab_mem = s + 48,
      slab_bitmap = replicate 8 0\<rparr> S"
    using n by (auto simp: new_slab_def pps bl add.commute [of 48 s] split: option.splits)
  have s: "4096 dvd unat s" "unat s + 4096 < 4294967296" "s \<notin> set (all_slabs S)"
    using fresh kp by (simp_all add: page_fresh_def)
  have all: "set (all_slabs ?S) = insert s (set (all_slabs S))" "distinct (all_slabs ?S)"
    using s(3) slab_okD(2) [OF ok] by (auto simp: all_slabs_def add_partial_def S1 set_slab_def)
  have c: "objs_per_slab (cache ?S) = objs_per_slab (cache S)" "obj_size (cache ?S) = obj_size (cache S)"
      "cache_ok (cache ?S)"
    using slab_okD(1) [OF ok]
    by (simp_all add: S1 add_partial_def set_slab_def cache_ok_def slab_mem_size_def slab_size_def
        slab_desc_size_def bitmap_size_def bitmap_length_def)
  have tb: "\<not> test_bit i (replicate 8 0)" if "i < nobjs S" for i
    using that cache_okD(5) [OF slab_okD(1) [OF ok]] by (simp add: test_bit_def)
  have at: "slab_at ?S s = \<lparr>in_use = 0, slab_mem = s + 48, slab_bitmap = replicate 8 0\<rparr>"
      "x \<noteq> s \<Longrightarrow> slab_at ?S x = slab_at S x" for x
    by (simp_all add: add_partial_def S1 set_slab_def)
  have us: "used ?S s = {}" "x \<noteq> s \<Longrightarrow> used ?S x = used S x" for x
    using tb at by (simp_all add: used_def c(1))
  have cl: "classified ?S x" "slab_wf ?S x" if "x \<in> set (all_slabs S)" for x
  proof -
    have "x \<noteq> s" using that s(3) by auto
    then show "classified ?S x" "slab_wf ?S x"
      using slab_okD(3,4) [OF ok that] us(2) at(2) c(1)
      by (auto simp: classified_def slab_wf_def S1 add_partial_def set_slab_def)
  qed
  have "slab_wf ?S s" using s us(1) at(1) by (simp add: slab_wf_def)
  then show "slab_ready s ?S"
    using c(3) all us(1) cl cache_okD(4) [OF c(3)] by (auto simp: slab_ready_def)
  show "obj_size (cache ?S) = obj_size (cache S)" by (rule c(2))
  have "obj_ptr ?S = obj_ptr S" by (simp add: obj_ptr_def c(2) fun_eq_iff)
  then show "live_objs ?S = live_objs S"
    unfolding live_objs_def all(1) using us s(3) by (intro Collect_cong) (metis empty_iff insert_iff)
qed

lemma get_slab_ready:
  assumes ok: "slab_ok S" and fresh: "page_fresh kp S" and g: "get_slab kp S = Some (s, S1)"
  shows "slab_ready s S1 \<and> live_objs S1 = live_objs S \<and> obj_size (cache S1) = obj_size (cache S)"
proof (cases "partial (cache S) = [] \<and> empty (cache S) = []")
  case True
  then obtain S0 where "new_slab kp S = Some (s, S0)" "S1 = add_partial s S0"
    using g by (auto simp: get_slab_def add_partial_def split: option.splits)
  then show ?thesis using new_slab_ready [OF ok fresh] by blast
next
  case False
  then have "S1 = S" "s \<in> set (partial (cache S)) \<or> s \<in> set (empty (cache S))"
    using g by (auto simp: get_slab_def split: list.splits)
  then show ?thesis using slab_ready_of_ok [OF ok] by blast
qed

lemma obj_ptr_fresh:
  assumes c: "cache_ok (cache S)" and wf: "\<And>x. x \<in> set (all_slabs S) \<Longrightarrow> slab_wf S x"
    and s: "s \<in> set (all_slabs S)" and z: "z < nobjs S" "z \<notin> used S s"
  shows "obj_ptr S s z \<notin> live_objs S"
proof
  assume "obj_ptr S s z \<in> live_objs S"
  then obtain x i where x: "obj_ptr S s z = obj_ptr S x i" "x \<in> set (all_slabs S)" "i \<in> used S x"
    by (auto simp: live_objs_def)
  then have "i < nobjs S" by (simp add: used_def)
  then have "s = x \<and> z = i"
    using obj_ptr_inj [OF c _ _ z(1) _ _ _ x(1)] slab_wf_page wf s x(2) by blast
  then show False using z(2) x(3) by simp
qed

lemma slab_ready_alloc:
  assumes "slab_ready s S"
  obtains z S' where "slab_alloc_in s S = Ret (obj_ptr S s z, S')" "slab_ok S'"
    "live_objs S' = insert (obj_ptr S s z) (live_objs S)" "obj_ptr S s z \<notin> live_objs S"
    "obj_size (cache S') = obj_size (cache S)"
proof -
  from assms have r: "cache_ok (cache S)" "distinct (all_slabs S)" "s \<in> set (all_slabs S)"
      "slab_wf S s" "card (used S s) < nobjs S"
      "\<And>x. x \<in> set (all_slabs S) \<Longrightarrow> x \<noteq> s \<Longrightarrow> slab_wf S x \<and> classified S x"
      "card (used S s) = 0 \<or> s \<in> set (partial (cache S))"
    unfolding slab_ready_def by blast+
  obtain z S' where a: "slab_alloc_in s S = Ret (obj_ptr S s z, S')" "z < nobjs S" "z \<notin> used S s"
      "slab_ok S'" "relinked s S S'" "used S' s = insert z (used S s)"
    using slab_alloc_in_ok [OF r] by blast
  have wf: "\<And>x. x \<in> set (all_slabs S) \<Longrightarrow> slab_wf S x" using r(4,6) by blast
  have "live_objs S' = insert (obj_ptr S s z) (live_objs S)"
    unfolding relinked_live [OF a(5) r(3)] live_split [OF r(3)] a(6) by simp
  moreover have "obj_size (cache S') = obj_size (cache S)" using a(5) by (simp add: relinked_def)
  ultimately show thesis using that a(1,4) obj_ptr_fresh [OF r(1) wf r(3) a(2,3)] by blast
qed

lemma slab_alloc_ok:
  assumes i: "slab_inv S L" and f: "page_fresh kp S" and a: "slab_alloc kp S = Ret (p, S')"
  shows "slab_inv S' (p # L)" "obj_size (cache S') = obj_size (cache S)"
proof -
  from i have ok: "slab_ok S" "distinct L" "set L = live_objs S" by (simp_all add: slab_inv_def)
  obtain s S1 where g: "get_slab kp S = Some (s, S1)" "slab_alloc_in s S1 = Ret (p, S')"
    using a by (auto simp: slab_alloc_def split: option.splits)
  have r: "slab_ready s S1" "live_objs S1 = live_objs S" "obj_size (cache S1) = obj_size (cache S)"
    using get_slab_ready [OF ok(1) f g(1)] by blast+
  obtain z where "p = obj_ptr S1 s z" "slab_ok S'" "live_objs S' = insert p (live_objs S1)"
      "p \<notin> live_objs S1" "obj_size (cache S') = obj_size (cache S1)"
    using slab_ready_alloc [OF r(1)] g(2) by (metis outcome.inject prod.inject)
  then show "slab_inv S' (p # L)" "obj_size (cache S') = obj_size (cache S)"
    using ok r by (simp_all add: slab_inv_def)
qed

lemma slab_alloc_returns:
  assumes "slab_inv S L" "page_fresh kp S" "kp 1 \<noteq> None"
  shows "\<exists>p S'. slab_alloc kp S = Ret (p, S')"
proof -
  have ok: "slab_ok S" using assms(1) by (simp add: slab_inv_def)
  have "pages_per_slab (cache S) = 1" using slab_okD(1) [OF ok] by (simp add: cache_ok_def)
  then obtain s S1 where g: "get_slab kp S = Some (s, S1)"
    using assms(3) by (cases "partial (cache S)"; cases "empty (cache S)")
      (auto simp: get_slab_def new_slab_def)
  show ?thesis
    using slab_ready_alloc [of s S1] get_slab_ready [OF ok assms(2) g] g
    by (metis (no_types, lifting) case_prod_conv option.simps(5) slab_alloc_def)
qed

section \<open>Release\<close>

lemma in_slab_iff:
  assumes c: "cache_ok (cache S)" and x: "slab_wf S x" and s: "slab_wf S s" and i: "i < nobjs S"
  shows "in_slab S (obj_ptr S s i) x \<longleftrightarrow> x = s"
proof -
  have ux: "unat (x + 48) = unat x + 48" "unat (4096 + x) = unat x + 4096"
    using slab_wf_page(2) [OF x] by (simp_all add: unat_word_ariths)
  obtain k l where kl: "unat x = 4096 * k" "unat s = 4096 * l"
    using slab_wf_page(1) [OF x] slab_wf_page(1) [OF s] by (auto elim!: dvdE)
  have p: "unat (obj_ptr S s i) = 4096 * l + 48 + i * unat (obj_size (cache S))"
    using unat_obj_ptr [OF c slab_wf_page(2) [OF s] i] kl by simp
  have "in_slab S (obj_ptr S s i) x \<longleftrightarrow>
      4096 * k + 48 \<le> unat (obj_ptr S s i) \<and> unat (obj_ptr S s i) < 4096 * k + 4096"
    using x by (simp add: in_slab_def slab_end_def slab_wf_def cache_okD(1) [OF c]
        word_le_nat_alt word_less_nat_alt ux kl)
  also have "\<dots> \<longleftrightarrow> k = l"
    unfolding p using obj_fits [OF c i] cache_okD(3) [OF c] by auto
  also have "\<dots> \<longleftrightarrow> x = s" using kl by (metis mult_left_cancel word_unat_eq_iff zero_neq_numeral)
  finally show ?thesis .
qed

lemma find_unique: "x \<in> set xs \<Longrightarrow> (\<And>y. y \<in> set xs \<Longrightarrow> P y \<longleftrightarrow> y = x) \<Longrightarrow> List.find P xs = Some x"
  by (induction xs) auto

lemma find_none: "(\<And>y. y \<in> set xs \<Longrightarrow> \<not> P y) \<Longrightarrow> List.find P xs = None"
  by (induction xs) auto

lemma live_in_full_or_partial:
  assumes "slab_ok S" "s \<in> set (all_slabs S)" "i \<in> used S s"
  shows "s \<in> set (full (cache S)) \<or> s \<in> set (partial (cache S))"
proof -
  have "card (used S s) \<noteq> 0" using assms(3) by auto
  then have "s \<notin> set (empty (cache S))"
    using slab_okD(4) [OF assms(1,2)] by (auto simp: classified_def)
  then show ?thesis using assms(2) by (simp add: all_slabs_def)
qed

lemma find_slab_obj:
  assumes ok: "slab_ok S" and s: "s \<in> set (all_slabs S)" "i \<in> used S s"
  shows "find_slab S (obj_ptr S s i) = Some s"
proof -
  have i: "i < nobjs S" using s(2) by (simp add: used_def)
  have iff: "in_slab S (obj_ptr S s i) x \<longleftrightarrow> x = s" if "x \<in> set (all_slabs S)" for x
    using in_slab_iff [OF slab_okD(1) [OF ok] slab_okD(3) [OF ok that] slab_okD(3) [OF ok s(1)] i] .
  have d: "s \<in> set (partial (cache S)) \<Longrightarrow> s \<notin> set (full (cache S))"
    using slab_okD(2) [OF ok] by (auto simp: all_slabs_def)
  show ?thesis
  proof (cases "s \<in> set (full (cache S))")
    case True
    then have "List.find (in_slab S (obj_ptr S s i)) (full (cache S)) = Some s"
      using iff by (intro find_unique) (auto simp: all_slabs_def)
    then show ?thesis by (simp add: find_slab_def)
  next
    case False
    then have p: "s \<in> set (partial (cache S))" using live_in_full_or_partial [OF ok s] by blast
    have "List.find (in_slab S (obj_ptr S s i)) (full (cache S)) = None"
      using iff d [OF p] by (intro find_none) (auto simp: all_slabs_def)
    moreover have "List.find (in_slab S (obj_ptr S s i)) (partial (cache S)) = Some s"
      using iff p by (intro find_unique) (auto simp: all_slabs_def)
    ultimately show ?thesis by (simp add: find_slab_def)
  qed
qed

lemma obj_index:
  assumes c: "cache_ok (cache S)" and i: "i < nobjs S"
  shows "unat ((obj_ptr S s i - (s + 48)) div obj_size (cache S)) = i"
proof -
  have "obj_ptr S s i - (s + 48) = of_nat i * obj_size (cache S)" by (simp add: obj_ptr_def)
  then show ?thesis
    using unat_obj_offset [OF c i] cache_okD(3) [OF c] by (simp add: unat_div)
qed

lemma free_place_classified:
  assumes d: "distinct (all_slabs S)" and cl: "classified S s"
    and mem: "s \<in> set (full (cache S)) \<or> s \<in> set (partial (cache S))"
    and n: "Suc (card (used S' s)) = card (used S s)"
    and same: "nobjs S' = nobjs S" and T: "cache T = cache S"
    and S': "S' = (if card (used S' s) = 0 then add_empty s (unlink_slab s T)
      else if Suc (card (used S' s)) = nobjs S then add_partial s (unlink_slab s T) else T)"
  shows "classified S' s"
proof -
  have dl: "distinct (full (cache S))" "distinct (partial (cache S))" "distinct (empty (cache S))"
      "set (full (cache S)) \<inter> set (partial (cache S)) = {}"
      "set (empty (cache S)) \<inter> set (partial (cache S)) = {}"
    using d by (auto simp: all_slabs_def)
  consider "card (used S' s) = 0" "cache S' = cache (add_empty s (unlink_slab s T))"
    | "0 < card (used S' s)" "Suc (card (used S' s)) = nobjs S"
      "cache S' = cache (add_partial s (unlink_slab s T))"
    | "0 < card (used S' s)" "Suc (card (used S' s)) \<noteq> nobjs S" "cache S' = cache T"
    using S' by (metis neq0_conv)
  then show ?thesis
  proof cases
    case 1
    then show ?thesis using same dl(1,2) by (simp add: classified_def add_empty_def unlink_slab_def T)
  next
    case 2
    then show ?thesis using same dl(1,3)
      by (simp add: classified_def add_partial_def unlink_slab_def T)
  next
    case 3
    then have "s \<notin> set (full (cache S))" using cl n by (auto simp: classified_def)
    then have "s \<in> set (partial (cache S))" using mem by blast
    then show ?thesis using 3 same dl(4,5) cl n by (auto simp: classified_def T)
  qed
qed

lemma slab_free_obj:
  assumes ok: "slab_ok S" and s: "s \<in> set (all_slabs S)" "i \<in> used S s"
  shows "slab_ok (slab_free (obj_ptr S s i) S)" "relinked s S (slab_free (obj_ptr S s i) S)"
    "used (slab_free (obj_ptr S s i) S) s = used S s - {i}"
proof -
  note c = slab_okD(1) [OF ok] and d = slab_okD(2) [OF ok]
  have wf: "slab_wf S s" using slab_okD(3) [OF ok s(1)] .
  have i: "i < nobjs S" using s(2) by (simp add: used_def)
  define D where "D = (slab_at S s)\<lparr>slab_bitmap := bitmap_clear (slab_bitmap (slab_at S s)) i,
    in_use := in_use (slab_at S s) - 1\<rparr>"
  define T where "T = set_slab s D S"
  define S' where "S' = (if in_use D = 0 then add_empty s (unlink_slab s T)
    else if in_use D + 1 = objs_per_slab (cache S) then add_partial s (unlink_slab s T) else T)"
  have eq: "slab_free (obj_ptr S s i) S = S'"
    using find_slab_obj [OF ok s] obj_index [OF c i] wf
    by (simp add: slab_free_def Let_def slab_wf_def S'_def T_def D_def set_slab_def)
  have T: "cache T = cache S" "slab_at T s = D" by (simp_all add: T_def set_slab_def)
  have r: "relinked s S S'"
    using relinked_set_slab [OF d] relinked_add [OF d s(1)] by (auto simp: S'_def T_def)
  have at: "slab_at S' s = D"
    using T by (simp add: S'_def add_empty_def add_partial_def unlink_slab_def)
  have i256: "i < 256" using i cache_okD(5) [OF c] by simp
  have u: "used S' s = used S s - {i}"
    using used_clear_bit [of S s i S'] wf i256 relinked_cache_ok(2) [OF r]
    by (simp add: at D_def slab_wf_def)
  have n: "Suc (card (used S' s)) = card (used S s)"
    unfolding u using s(2) by (metis card_Suc_Diff1 finite_used)
  have iu: "unat (in_use D) = card (used S' s)" "unat (in_use D + 1) = Suc (card (used S' s))"
  proof -
    have "unat (in_use (slab_at S s)) = Suc (card (used S' s))" using wf n by (simp add: slab_wf_def)
    then show "unat (in_use D) = card (used S' s)" "unat (in_use D + 1) = Suc (card (used S' s))"
      by (simp_all add: D_def unat_sub word_le_nat_alt)
  qed
  have zero_iff: "in_use D = 0 \<longleftrightarrow> card (used S' s) = 0" using iu(1) by (metis unat_eq_zero)
  have full_iff: "in_use D + 1 = objs_per_slab (cache S) \<longleftrightarrow> Suc (card (used S' s)) = nobjs S"
    using iu(2) by (metis word_unat_eq_iff)
  have "slab_wf S' s" using wf iu(1) by (simp add: slab_wf_def at) (simp add: D_def)
  moreover have "classified S' s"
  proof (rule free_place_classified [OF d slab_okD(4) [OF ok s(1)] live_in_full_or_partial [OF ok s] n _ T(1)])
    show "S' = (if card (used S' s) = 0 then add_empty s (unlink_slab s T)
        else if Suc (card (used S' s)) = nobjs S then add_partial s (unlink_slab s T) else T)"
      unfolding zero_iff [symmetric] full_iff [symmetric] by (rule S'_def)
  qed (rule relinked_cache_ok(2) [OF r])
  ultimately have "slab_ok S'" using relinked_slab_ok [OF c _ r] slab_okD(3,4) [OF ok] by blast
  then show "slab_ok (slab_free (obj_ptr S s i) S)" "relinked s S (slab_free (obj_ptr S s i) S)"
      "used (slab_free (obj_ptr S s i) S) s = used S s - {i}"
    unfolding eq using r u by blast+
qed

lemma slab_free_ok:
  assumes inv: "slab_inv S L" and p: "p \<in> set L"
  shows "slab_inv (slab_free p S) (remove1 p L)" "obj_size (cache (slab_free p S)) = obj_size (cache S)"
proof -
  from inv have ok: "slab_ok S" "distinct L" "set L = live_objs S" by (simp_all add: slab_inv_def)
  obtain s i where pi: "p = obj_ptr S s i" and s: "s \<in> set (all_slabs S)" "i \<in> used S s"
    using p ok(3) by (auto simp: live_objs_def)
  note f = slab_free_obj [OF ok(1) s, folded pi]
  have "obj_ptr S s ` (used S s - {i}) = obj_ptr S s ` used S s - {p}"
    using obj_ptr_inj [OF slab_okD(1) [OF ok(1)]] slab_wf_page [OF slab_okD(3) [OF ok(1) s(1)]] s(2)
    unfolding pi used_def by blast
  moreover have "p \<notin> {obj_ptr S x i |x i. x \<in> set (all_slabs S) \<and> x \<noteq> s \<and> i \<in> used S x}"
  proof
    assume "p \<in> {obj_ptr S x i |x i. x \<in> set (all_slabs S) \<and> x \<noteq> s \<and> i \<in> used S x}"
    then obtain x j where x: "obj_ptr S s i = obj_ptr S x j" "x \<in> set (all_slabs S)" "x \<noteq> s"
        "j < nobjs S" "i < nobjs S"
      using s(2) unfolding pi used_def by blast
    then have "s = x \<and> i = j"
      using slab_wf_page [OF slab_okD(3) [OF ok(1) s(1)]] slab_wf_page [OF slab_okD(3) [OF ok(1) x(2)]]
      by (intro obj_ptr_inj [OF slab_okD(1) [OF ok(1)]])
    with x(3) show False by simp
  qed
  ultimately have "live_objs (slab_free p S) = live_objs S - {p}"
    unfolding relinked_live [OF f(2) s(1)] live_split [OF s(1)] f(3) by blast
  then show "slab_inv (slab_free p S) (remove1 p L)"
    using ok f(1) by (simp add: slab_inv_def set_remove1_eq)
  show "obj_size (cache (slab_free p S)) = obj_size (cache S)" using f(2) by (simp add: relinked_def)
qed

section \<open>The cache as an allocator\<close>

definition slab_grants :: "slab_state \<Rightarrow> addr list \<Rightarrow> addr \<Rightarrow> slab_state \<Rightarrow> bool" where
  "slab_grants S L p S' \<longleftrightarrow> (\<exists>kp. page_fresh kp S \<and> slab_alloc kp S = Ret (p, S'))"

lemma live_extents_disjoint:
  assumes inv: "slab_inv S L" and pq: "p \<in> set L" "q \<in> set L" "p \<noteq> q"
  shows "obj_extent S p \<inter> obj_extent S q = {}"
proof -
  from inv have ok: "slab_ok S" "set L = live_objs S" by (simp_all add: slab_inv_def)
  obtain s i t j where st: "p = obj_ptr S s i" "s \<in> set (all_slabs S)" "i < nobjs S"
      "q = obj_ptr S t j" "t \<in> set (all_slabs S)" "j < nobjs S"
    using pq(1,2) unfolding ok(2) live_objs_def used_def by blast
  have "s \<noteq> t \<or> i \<noteq> j" using pq(3) st by blast
  then show ?thesis
    unfolding st(1,4)
    using st slab_wf_page [OF slab_okD(3) [OF ok(1) st(2)]] slab_wf_page [OF slab_okD(3) [OF ok(1) st(5)]]
    by (intro obj_extents_disjoint [OF slab_okD(1) [OF ok(1)]])
qed

interpretation slab_cache_alloc: allocator slab_inv obj_extent slab_grants slab_free
proof unfold_locales
  show "slab_inv h L \<Longrightarrow> distinct L" for h L by (simp add: slab_inv_def)
  show "slab_inv h L \<Longrightarrow> p \<in> set L \<Longrightarrow> q \<in> set L \<Longrightarrow> p \<noteq> q \<Longrightarrow> obj_extent h p \<inter> obj_extent h q = {}"
    for h L p q by (rule live_extents_disjoint)
  show "slab_inv h L \<Longrightarrow> slab_grants h L p h' \<Longrightarrow> slab_inv h' (p # L)" for h L p h'
    unfolding slab_grants_def using slab_alloc_ok(1) by blast
  show "slab_inv h L \<Longrightarrow> slab_grants h L p h' \<Longrightarrow> q \<in> set L \<Longrightarrow> obj_extent h' q = obj_extent h q"
    for h L p h' q
    unfolding slab_grants_def obj_extent_def using slab_alloc_ok(2) by metis
  show "slab_inv h L \<Longrightarrow> p \<in> set L \<Longrightarrow> slab_inv (slab_free p h) (remove1 p L)" for h L p
    by (rule slab_free_ok)
  show "slab_inv h L \<Longrightarrow> p \<in> set L \<Longrightarrow> q \<in> set L \<Longrightarrow> q \<noteq> p \<Longrightarrow>
      obj_extent (slab_free p h) q = obj_extent h q" for h L p q
    by (simp add: obj_extent_def slab_free_ok(2))
qed

section \<open>Properties\<close>

text \<open>A cache of 40-byte objects as \<^verbatim>\<open>slab_cache_create\<close> makes it.\<close>

definition cache_example :: slab_state where
  "cache_example = \<lparr>slab_at = (\<lambda>_. \<lparr>in_use = 0, slab_mem = 0, slab_bitmap = []\<rparr>),
     cache = the (slab_cache_create True 40)\<rparr>"

lemma cache_example_inv: "slab_inv cache_example []"
  by (simp add: slab_inv_def slab_ok_def cache_example_def slab_cache_create_def cache_ok_def
      all_slabs_def live_objs_def slab_mem_size_def slab_size_def slab_desc_size_def bitmap_size_def
      bitmap_length_def)

lemma cache_example_fresh: "page_fresh (\<lambda>n. Some 0x5000) cache_example"
  by (simp add: page_fresh_def cache_example_def slab_cache_create_def all_slabs_def)

text \<open>
  C2: from a consistent cache, whenever a page is available \<^verbatim>\<open>slab_alloc\<close> returns an object that was
  not live and overlaps no live object; afterwards the cache is consistent again: every slab is on
  the list that its count says, every count is the number of bits set in the bitmap, and the live
  objects are the old ones and the new one.
\<close>

theorem slab_alloc_safe:
  assumes "slab_inv S L" and "page_fresh kp S" and "kp 1 \<noteq> None"
  shows "\<exists>p S'. slab_alloc kp S = Ret (p, S') \<and> slab_inv S' (p # L) \<and>
    p \<notin> set L \<and> (\<forall>q \<in> set L. obj_extent S' p \<inter> obj_extent S' q = {})"
proof -
  obtain p S' where a: "slab_alloc kp S = Ret (p, S')" using slab_alloc_returns [OF assms] by blast
  then have g: "slab_grants S L p S'" using assms(2) by (auto simp: slab_grants_def)
  show ?thesis
    using a slab_cache_alloc.grant_inv [OF assms(1) g] slab_cache_alloc.grant_fresh [OF assms(1) g]
      slab_cache_alloc.grant_extent [OF assms(1) g] by blast
qed

theorem slab_alloc_safe_witness:
  "\<exists>p S'. slab_alloc (\<lambda>n. Some 0x5000) cache_example = Ret (p, S') \<and> slab_inv S' [p]"
  using slab_alloc_safe [OF cache_example_inv cache_example_fresh] by auto

text \<open>
  C21: \<^verbatim>\<open>slab_free\<close> of a live object finds its slab, clears exactly its bit and files the slab under
  the right list: the cache stays consistent and exactly that object stops being live.
\<close>

theorem slab_free_safe:
  assumes "slab_inv S L" and "p \<in> set L"
  shows "slab_inv (slab_free p S) (remove1 p L) \<and>
    (\<forall>q \<in> set (remove1 p L). obj_extent (slab_free p S) q = obj_extent S q)"
proof -
  have "obj_extent (slab_free p S) q = obj_extent S q" for q
    using slab_free_ok(2) [OF assms] by (simp add: obj_extent_def)
  then show ?thesis using slab_free_ok(1) [OF assms] by blast
qed

theorem slab_free_safe_witness:
  "\<exists>p S'. slab_alloc (\<lambda>n. Some 0x5000) cache_example = Ret (p, S') \<and> slab_inv (slab_free p S') []"
proof -
  obtain p S' where a: "slab_alloc (\<lambda>n. Some 0x5000) cache_example = Ret (p, S')"
    using slab_alloc_returns [OF cache_example_inv cache_example_fresh] by auto
  have "slab_inv S' [p]" using slab_alloc_ok(1) [OF cache_example_inv cache_example_fresh a] .
  from slab_free_safe [OF this, of p] a show ?thesis by auto
qed

text \<open>
  When no slab has room and \<^verbatim>\<open>kalloc_pages\<close> fails, \<^verbatim>\<open>slab_alloc\<close> does not return an error:
  it goes on with the null pointer that \<^verbatim>\<open>get_slab\<close> returned.
\<close>

theorem slab_alloc_out_of_memory:
  assumes "partial (cache S) = []" and "empty (cache S) = []"
    and "kp (pages_per_slab (cache S)) = None"
  shows "get_slab kp S = None \<and> slab_alloc kp S = Stuck"
  using assms by (simp add: slab_alloc_def get_slab_def new_slab_def)

theorem slab_alloc_out_of_memory_witness: "slab_alloc (\<lambda>n. None) cache_example = Stuck"
  using slab_alloc_out_of_memory [of cache_example "\<lambda>n. None"]
  by (simp add: cache_example_def slab_cache_create_def)

end
