(* ===== verification/Vma.thy ===== *)
theory Vma
  imports PageArith
begin

text \<open>
  Virtual memory areas: \<^verbatim>\<open>src/kernel/vma.c\<close>, \<^verbatim>\<open>src/include/kernel/mm/vma.h\<close>, the mappings of
  \<^verbatim>\<open>src/kernel/mmap.c\<close> and the program break of \<^verbatim>\<open>src/dispatch/mem.c\<close>.  An address space is the list
  of its areas in the order of \<^verbatim>\<open>mm->map\<close>; a pointer to an area is its position in that list.  The
  operation table of an area is one of the two that the kernel defines, or none.  The private data
  of a file mapping is shared by pointer, so it lives in a store.  A call of \<^verbatim>\<open>slab_alloc\<close> may fail:
  the state lists the outcomes of the calls to come, and once the list is used up they succeed.
  The page tables behind an area are not part of the state, so \<^verbatim>\<open>pm_unmap\<close> and
  \<^verbatim>\<open>pm_disable_write\<close>, which walk them and always return 0, leave no trace in it.
\<close>

section \<open>Data\<close>

abbreviation (input) VM_EXEC :: u32 where "VM_EXEC \<equiv> 0x1"
abbreviation (input) VM_WRITE :: u32 where "VM_WRITE \<equiv> 0x2"
abbreviation (input) VM_READ :: u32 where "VM_READ \<equiv> 0x4"
abbreviation (input) VM_ZERO :: u32 where "VM_ZERO \<equiv> 0x8"
abbreviation (input) VM_KEEP :: u32 where "VM_KEEP \<equiv> 0x10"
abbreviation (input) VM_KEEPEXEC :: u32 where "VM_KEEPEXEC \<equiv> 0x20"
abbreviation (input) VM_SHARE :: u32 where "VM_SHARE \<equiv> 0x40"

abbreviation (input) user_base :: u32 where "user_base \<equiv> 0x1000"
abbreviation (input) kernel_base :: u32 where "kernel_base \<equiv> 0xC0000000"

text \<open>\<^verbatim>\<open>NULL\<close>, \<^verbatim>\<open>&mmap_vma_ops\<close> and \<^verbatim>\<open>&mmap_shared_vma_ops\<close>.\<close>

datatype vma_operations = No_ops | Mmap_ops | Mmap_shared_ops

record vma =
  vstart :: u32
  vend :: u32
  vflags :: u32
  vprivate :: nat
  vop :: vma_operations

record mm_struct =
  mmap :: "vma list"
  brk :: u32

record mmap_private =
  pfile :: nat
  poff :: u32
  plen :: u32
  pref :: u32

record vm_state =
  mm :: mm_struct
  privs :: "nat \<Rightarrow> mmap_private"
  next_priv :: nat
  f_count :: "nat \<Rightarrow> u16"
  allocs :: "bool list"

definition has_flag :: "vma \<Rightarrow> u32 \<Rightarrow> bool" where
  "has_flag v f \<longleftrightarrow> vflags v AND f \<noteq> 0"

definition slab_result :: "vm_state \<Rightarrow> bool \<times> vm_state" where
  "slab_result S = (case allocs S of [] \<Rightarrow> (True, S) | b # bs \<Rightarrow> (b, S\<lparr>allocs := bs\<rparr>))"

definition set_map :: "vma list \<Rightarrow> vm_state \<Rightarrow> vm_state" where
  "set_map m S = S\<lparr>mm := (mm S)\<lparr>mmap := m\<rparr>\<rparr>"

section \<open>Areas and searches\<close>

definition vma_contains :: "vma \<Rightarrow> u32 \<Rightarrow> bool" where
  "vma_contains v addr \<longleftrightarrow> vstart v \<le> addr \<and> addr < vend v"

definition vma_size :: "vma \<Rightarrow> u32" where
  "vma_size v = vend v - vstart v"

definition vma_find :: "vma list \<Rightarrow> u32 \<Rightarrow> vma option" where
  "vma_find m addr = List.find (\<lambda>v. addr < vend v) m"

definition vma_get :: "vma list \<Rightarrow> u32 \<Rightarrow> vma option" where
  "vma_get m addr =
     (case vma_find m addr of
        None \<Rightarrow> None
      | Some v \<Rightarrow> if vma_contains v addr then Some v else None)"

text \<open>\<^verbatim>\<open>new_vma\<close> leaves \<^verbatim>\<open>private\<close> as the slab object had it; the argument \<open>p\<close> is that value.\<close>

definition new_vma :: "u32 \<Rightarrow> u32 \<Rightarrow> u32 \<Rightarrow> nat \<Rightarrow> vma" where
  "new_vma s e f p = \<lparr>vstart = s, vend = e, vflags = f, vprivate = p, vop = No_ops\<rparr>"

fun vma_insert :: "vma \<Rightarrow> vma list \<Rightarrow> vma list" where
  "vma_insert v [] = [v]"
| "vma_insert v (x # xs) = (if vstart x > vstart v then v # x # xs else x # vma_insert v xs)"

fun find_high :: "u32 \<Rightarrow> u32 \<Rightarrow> u32 \<Rightarrow> vma list \<Rightarrow> u32" where
  "find_high s e len [] = (if e \<le> s \<or> e - s < len then 0 else e - len)"
| "find_high s e len (v # vs) =
     (if vstart v \<ge> e then find_high s e len vs
      else if s + len > e then 0
      else if vend v + len \<le> e then e - len
      else find_high s (vstart v) len vs)"

definition vma_find_space_high :: "vma list \<Rightarrow> u32 \<Rightarrow> u32 \<Rightarrow> u32 \<Rightarrow> u32" where
  "vma_find_space_high m s e len = find_high s e (page_align len) (rev m)"

fun find_low :: "u32 \<Rightarrow> u32 \<Rightarrow> u32 \<Rightarrow> vma list \<Rightarrow> u32" where
  "find_low s e len [] = (if s \<ge> e \<or> s + len > e then 0 else s)"
| "find_low s e len (v # vs) =
     (if vend v \<le> s then find_low s e len vs
      else if s + len \<ge> e then 0
      else if s + len < vstart v then s
      else find_low (vend v) e len vs)"

definition vma_find_space :: "vma list \<Rightarrow> u32 \<Rightarrow> u32 \<Rightarrow> u32 \<Rightarrow> u32" where
  "vma_find_space m s e len = find_low s e len m"

text \<open>The creation functions return the new area, \<open>None\<close> for \<^verbatim>\<open>NULL\<close>, and the state.\<close>

definition create_at :: "u32 \<Rightarrow> u32 \<Rightarrow> u32 \<Rightarrow> vm_state \<Rightarrow> vma option \<times> vm_state" where
  "create_at addr len flags S =
     (case slab_result S of
        (False, S) \<Rightarrow> (None, S)
      | (True, S) \<Rightarrow>
          (let v = new_vma addr (page_align (addr + len)) flags 0
           in (Some v, set_map (vma_insert v (mmap (mm S))) S)))"

definition vma_create_high :: "u32 \<Rightarrow> u32 \<Rightarrow> u32 \<Rightarrow> u32 \<Rightarrow> vm_state \<Rightarrow> vma option \<times> vm_state" where
  "vma_create_high s e len flags S =
     (let addr = vma_find_space_high (mmap (mm S)) s e len
      in if addr = 0 then (None, S) else create_at addr len flags S)"

definition vma_create_low :: "u32 \<Rightarrow> u32 \<Rightarrow> u32 \<Rightarrow> u32 \<Rightarrow> vm_state \<Rightarrow> vma option \<times> vm_state" where
  "vma_create_low s e len flags S =
     (let addr = vma_find_space (mmap (mm S)) s e len
      in if addr = 0 then (None, S) else create_at addr len flags S)"

definition vma_create_fixed :: "u32 \<Rightarrow> u32 \<Rightarrow> u32 \<Rightarrow> vm_state \<Rightarrow> vma option \<times> vm_state" where
  "vma_create_fixed s len flags S =
     (case vma_find (mmap (mm S)) s of
        Some v \<Rightarrow> if vma_contains v s \<or> vstart v - s < len then (None, S) else create_at s len flags S
      | None \<Rightarrow> create_at s len flags S)"

definition vma_map :: "u32 \<Rightarrow> u32 \<Rightarrow> u32 \<Rightarrow> vm_state \<Rightarrow> vma option \<times> vm_state" where
  "vma_map dst len flags S =
     (let nr_pages = pages_in_range dst len; dst = page_base dst
      in case slab_result S of
           (False, S) \<Rightarrow> (None, S)
         | (True, S) \<Rightarrow>
             (let v = new_vma dst (dst + nr_pages * FRAME_SIZE) flags 0
              in (Some v, set_map (vma_insert v (mmap (mm S))) S)))"

section \<open>The operations of file mappings\<close>

definition alloc_private :: "nat \<Rightarrow> u32 \<Rightarrow> u32 \<Rightarrow> vm_state \<Rightarrow> nat option \<times> vm_state" where
  "alloc_private file off len S =
     (case slab_result S of
        (False, S) \<Rightarrow> (None, S)
      | (True, S) \<Rightarrow>
          (let p = next_priv S
           in (Some p, S\<lparr>privs := (privs S)(p := \<lparr>pfile = file, poff = off, plen = len, pref = 1\<rparr>),
                next_priv := Suc p, f_count := (f_count S)(file := f_count S file + 1)\<rparr>)))"

definition private_unref :: "nat \<Rightarrow> vm_state \<Rightarrow> vm_state" where
  "private_unref p S =
     (let file = pfile (privs S p)
      in S\<lparr>f_count := (f_count S)(file := f_count S file - 1),
           privs := (privs S)(p := (privs S p)\<lparr>pref := pref (privs S p) - 1\<rparr>)\<rparr>)"

definition private_ref :: "nat \<Rightarrow> vm_state \<Rightarrow> vm_state" where
  "private_ref p S =
     (let file = pfile (privs S p)
      in S\<lparr>f_count := (f_count S)(file := f_count S file + 1),
           privs := (privs S)(p := (privs S p)\<lparr>pref := pref (privs S p) + 1\<rparr>)\<rparr>)"

definition mmap_unmap :: "vma \<Rightarrow> vm_state \<Rightarrow> vm_state" where
  "mmap_unmap v S = private_unref (vprivate v) S"

definition mmap_clone :: "vma \<Rightarrow> vma \<Rightarrow> vm_state \<Rightarrow> vma \<times> vm_state" where
  "mmap_clone dst src S = (dst\<lparr>vprivate := vprivate src\<rparr>, private_ref (vprivate src) S)"

definition mmap_split :: "vma \<Rightarrow> vma \<Rightarrow> vm_state \<Rightarrow> (errno + vma) \<times> vm_state" where
  "mmap_split new old S =
     (let op = vprivate old
      in case alloc_private (pfile (privs S op)) (poff (privs S op)) (plen (privs S op)) S of
           (None, S) \<Rightarrow> (Inl ENOMEM, S)
         | (Some p, S) \<Rightarrow>
             (let S = S\<lparr>privs := (privs S)(p := (privs S p)\<lparr>
                     poff := poff (privs S p) + (vstart new - vstart old),
                     plen := plen (privs S p) - (vend old - vstart old)\<rparr>)\<rparr>;
                  S = S\<lparr>privs := (privs S)(op := (privs S op)\<lparr>
                     plen := plen (privs S op) - plen (privs S p)\<rparr>)\<rparr>
              in (Inr (new\<lparr>vprivate := p\<rparr>), S)))"

text \<open>The file positions that \<^verbatim>\<open>mmap_map\<close> reads from and \<^verbatim>\<open>mmap_writeback\<close> writes to.\<close>

definition mmap_map_pos :: "vma \<Rightarrow> mmap_private \<Rightarrow> u32 \<Rightarrow> u32" where
  "mmap_map_pos v p addr = poff p + (page_base addr - vstart v)"

definition mmap_writeback_pos :: "vma \<Rightarrow> mmap_private \<Rightarrow> u32 \<Rightarrow> u32" where
  "mmap_writeback_pos v p addr = poff p + (vstart v - page_base addr)"

definition mmap_writeback_len :: "vma \<Rightarrow> mmap_private \<Rightarrow> u32 \<Rightarrow> u32 \<Rightarrow> u32" where
  "mmap_writeback_len v p addr len = min len ((vstart v + plen p) - page_base addr)"

section \<open>Operations on one area\<close>

definition vm_unmap :: "nat \<Rightarrow> vm_state \<Rightarrow> vm_state" where
  "vm_unmap i S =
     (let m = mmap (mm S); v = m ! i
      in if has_flag v VM_KEEP then S
         else
           let S = (if vop v = No_ops then S else mmap_unmap v S)
           in set_map (take i m @ drop (Suc i) m) S)"

definition vm_clone :: "vma \<Rightarrow> vma \<Rightarrow> vm_state \<Rightarrow> vma \<times> vm_state" where
  "vm_clone dst src S =
     (let dst = dst\<lparr>vop := vop src\<rparr>
      in if vop src = No_ops then (dst, S) else mmap_clone dst src S)"

definition vm_split :: "vma \<Rightarrow> vma \<Rightarrow> vm_state \<Rightarrow> (errno + vma) \<times> vm_state" where
  "vm_split new old S =
     (let new = new\<lparr>vop := vop old\<rparr>
      in if vop old = No_ops then (Inr new, S) else mmap_split new old S)"

text \<open>The permission faults: neither operation table has \<^verbatim>\<open>read_perm\<close> or \<^verbatim>\<open>write_perm\<close>.\<close>

definition vm_read_perm :: "vma \<Rightarrow> errno + unit" where
  "vm_read_perm v = Inl EFAULT"

definition vm_write_perm :: "(errno + unit) \<Rightarrow> vma \<Rightarrow> errno + unit" where
  "vm_write_perm copy_page v = (if has_flag v VM_WRITE then copy_page else Inl EFAULT)"

section \<open>Splitting and growing\<close>

definition replace_at :: "nat \<Rightarrow> vma list \<Rightarrow> vma list \<Rightarrow> vma list" where
  "replace_at i vs m = take i m @ vs @ drop (Suc i) m"

text \<open>
  \<^verbatim>\<open>vma_bisect\<close> of the area at position \<open>i\<close>: on an error of \<^verbatim>\<open>vm_split\<close> it restores the end and the
  flags of the area, so the list is as before.
\<close>

definition vma_bisect :: "nat \<Rightarrow> u32 \<Rightarrow> u32 \<Rightarrow> u32 \<Rightarrow> vm_state \<Rightarrow> (errno + unit) \<times> vm_state" where
  "vma_bisect i split lflags rflags S =
     (let v = mmap (mm S) ! i
      in case slab_result S of
           (False, S) \<Rightarrow> (Inl ENOMEM, S)
         | (True, S) \<Rightarrow>
             (let right = \<lparr>vstart = split, vend = vend v, vflags = rflags, vprivate = 0, vop = vop v\<rparr>;
                  left = v\<lparr>vend := split, vflags := lflags\<rparr>
              in case vm_split right left S of
                   (Inl err, S) \<Rightarrow> (Inl err, S)
                 | (Inr right, S) \<Rightarrow>
                     (Inr (), set_map (replace_at i [left, right] (mmap (mm S))) S)))"

definition vma_split :: "nat \<Rightarrow> u32 \<Rightarrow> u32 \<Rightarrow> u32 \<Rightarrow> vm_state \<Rightarrow> (errno + unit) \<times> vm_state" where
  "vma_split i s e flags S =
     (let v = mmap (mm S) ! i
      in if vstart v = s then vma_bisect i e flags (vflags v) S
         else if vend v = e then vma_bisect i s (vflags v) flags S
         else case slab_result S of
           (False, S) \<Rightarrow> (Inl ENOMEM, S)
         | (True, S) \<Rightarrow>
             (case slab_result S of
                (False, S) \<Rightarrow> (Inl ENOMEM, S)
              | (True, S) \<Rightarrow>
                  (let right = \<lparr>vstart = e, vend = vend v, vflags = vflags v, vprivate = 0,
                                vop = No_ops\<rparr>;
                       mid = \<lparr>vstart = s, vend = e, vflags = flags, vprivate = 0, vop = No_ops\<rparr>
                   in case vm_split mid v S of
                        (Inl err, S) \<Rightarrow> (Inl err, S)
                      | (Inr mid, S) \<Rightarrow>
                          (case vm_split right mid S of
                             (Inl err, S) \<Rightarrow> (Inl err, S)
                           | (Inr right, S) \<Rightarrow>
                               (Inr (), set_map (replace_at i [v\<lparr>vend := s\<rparr>, mid, right]
                                  (mmap (mm S))) S)))))"

definition vma_grow_up :: "nat \<Rightarrow> u32 \<Rightarrow> u32 \<Rightarrow> vm_state \<Rightarrow> (errno + unit) \<times> vm_state" where
  "vma_grow_up i amount flags S =
     (let m = mmap (mm S); v = m ! i
      in if flags \<noteq> vflags v then
           (case vma_map (vend v) amount flags S of
              (None, S) \<Rightarrow> (Inl ENOMEM, S)
            | (Some _, S) \<Rightarrow> (Inr (), S))
         else if Suc i < length m \<and> vstart (m ! Suc i) < vend v + amount then (Inl ENOMEM, S)
         else (Inr (), set_map (m[i := v\<lparr>vend := vend v + page_align amount\<rparr>]) S))"

section \<open>Whole address spaces\<close>

text \<open>
  The loops over \<^verbatim>\<open>mm->map\<close> that remove areas keep a pointer to the next one; with \<open>n\<close> areas still
  to visit, the current one is \<open>n\<close> places before the end, whatever was removed or inserted before
  it.
\<close>

fun unmap_loop :: "(vma \<Rightarrow> bool) \<Rightarrow> nat \<Rightarrow> vm_state \<Rightarrow> vm_state" where
  "unmap_loop P 0 S = S"
| "unmap_loop P (Suc n) S =
     (let m = mmap (mm S); i = length m - Suc n
      in unmap_loop P n (if P (m ! i) then vm_unmap i S else S))"

definition mm_fini :: "vm_state \<Rightarrow> vm_state" where
  "mm_fini S = unmap_loop (\<lambda>v. True) (length (mmap (mm S))) S"

definition mm_exec :: "vm_state \<Rightarrow> vm_state" where
  "mm_exec S = unmap_loop (\<lambda>v. \<not> has_flag v VM_KEEPEXEC) (length (mmap (mm S))) S"

definition mm_init :: "bool \<Rightarrow> vm_state \<Rightarrow> (errno + unit) \<times> vm_state" where
  "mm_init pgdir_ok S = (if \<not> pgdir_ok then (Inl ENOMEM, S) else (Inr (), set_map [] S))"

text \<open>
  \<^verbatim>\<open>mm_clone\<close>: the state holds the new address space in \<open>mm\<close> while the areas of the old one are
  copied; the result is that state.
\<close>

fun clone_areas :: "vma list \<Rightarrow> vm_state \<Rightarrow> bool \<times> vm_state" where
  "clone_areas [] S = (True, S)"
| "clone_areas (v # vs) S =
     (case slab_result S of
        (False, S) \<Rightarrow> (False, S)
      | (True, S) \<Rightarrow>
          (let (new, S) = vm_clone (new_vma (vstart v) (vend v) (vflags v) 0) v S
           in clone_areas vs (set_map (mmap (mm S) @ [new]) S)))"

definition mm_clone :: "bool \<Rightarrow> mm_struct \<Rightarrow> vm_state \<Rightarrow> (errno + unit) \<times> vm_state" where
  "mm_clone pgdir_ok src S =
     (if \<not> pgdir_ok then (Inl ENOMEM, S)
      else case clone_areas (mmap src) (set_map [] S) of
             (False, S) \<Rightarrow> (Inl ENOMEM, mm_fini S)
           | (True, S) \<Rightarrow> (Inr (), S\<lparr>mm := (mm S)\<lparr>brk := brk src\<rparr>\<rparr>))"

section \<open>Checks of user pointers\<close>

text \<open>\<^verbatim>\<open>vm_verify\<close> and \<^verbatim>\<open>vm_verify_unmapped\<close> return 0 (\<open>True\<close> here) or -1.\<close>

definition vm_verify :: "vma list \<Rightarrow> u32 \<Rightarrow> u32 \<Rightarrow> u32 \<Rightarrow> bool" where
  "vm_verify m s len flags =
     (case vma_get m s of
        None \<Rightarrow> False
      | Some v \<Rightarrow>
          if vflags v AND flags \<noteq> flags then False
          else if s - vstart v < len then False
          else True)"

definition vm_verify_unmapped :: "vma list \<Rightarrow> u32 \<Rightarrow> u32 \<Rightarrow> bool" where
  "vm_verify_unmapped m s len =
     (case vma_find m s of
        None \<Rightarrow> True
      | Some v \<Rightarrow> vstart v > s + len)"

text \<open>
  \<^verbatim>\<open>vm_copy_from\<close> and \<^verbatim>\<open>vm_copy_to\<close> up to the copy itself: the flags with which the range is mapped
  into the kernel; \<open>kmap_ok\<close> says whether \<^verbatim>\<open>kmap_tmp_range\<close> succeeds.
\<close>

definition vm_copy_range :: "bool \<Rightarrow> vma list \<Rightarrow> u32 \<Rightarrow> u32 \<Rightarrow> errno + u32" where
  "vm_copy_range kmap_ok m src len =
     (case vma_get m src of
        None \<Rightarrow> Inl EFAULT
      | Some v \<Rightarrow> if \<not> kmap_ok then Inl ENOMEM else Inr (vflags v))"

section \<open>System calls\<close>

definition mmap_create_vma :: "u32 \<Rightarrow> u32 \<Rightarrow> u32 \<Rightarrow> u32 \<Rightarrow> vm_state \<Rightarrow> vma option \<times> vm_state" where
  "mmap_create_vma addr len prot flags S =
     (if flags AND 2 \<noteq> 0 then vma_create_fixed addr len prot S
      else vma_create_high user_base kernel_base len prot S)"

text \<open>The area just created, which \<^verbatim>\<open>do_mmap\<close> reaches through the pointer it got.\<close>

definition update_vma :: "vma \<Rightarrow> vma \<Rightarrow> vm_state \<Rightarrow> vm_state" where
  "update_vma v w S = set_map (replace1 v w (mmap (mm S))) S"

definition do_mmap :: "nat \<Rightarrow> u32 \<Rightarrow> u32 \<Rightarrow> u32 \<Rightarrow> u32 \<Rightarrow> u32 \<Rightarrow> vm_state \<Rightarrow> (errno + u32) \<times> vm_state" where
  "do_mmap file addr len prot flags off S =
     (case alloc_private file off len S of
        (None, S) \<Rightarrow> (Inl ENOMEM, S)
      | (Some p, S) \<Rightarrow>
          (case mmap_create_vma addr len prot flags S of
             (None, S) \<Rightarrow> (Inl ENOMEM, S)
           | (Some v, S) \<Rightarrow>
               (let w = v\<lparr>vop := (if flags AND 1 \<noteq> 0 then Mmap_shared_ops else Mmap_ops),
                          vprivate := p\<rparr>
                in (Inr (vstart v), update_vma v w S))))"

definition do_mmap_anon :: "u32 \<Rightarrow> u32 \<Rightarrow> u32 \<Rightarrow> u32 \<Rightarrow> vm_state \<Rightarrow> (errno + u32) \<times> vm_state" where
  "do_mmap_anon addr len prot flags S =
     (case mmap_create_vma addr len (prot OR VM_ZERO) flags S of
        (None, S) \<Rightarrow> (Inl ENOMEM, S)
      | (Some v, S) \<Rightarrow> (Inr (vstart v), S))"

record mmap_args =
  a_addr :: u32
  a_len :: u32
  a_prot :: u32
  a_flags :: u32
  a_off :: u32

text \<open>\<open>args_ptr\<close> is the user address of the 24-byte argument block, \<open>file\<close> what \<^verbatim>\<open>fd_file\<close> finds.\<close>

definition sys_mmap :: "u32 \<Rightarrow> mmap_args \<Rightarrow> nat option \<Rightarrow> vm_state \<Rightarrow> (errno + u32) \<times> vm_state" where
  "sys_mmap args_ptr args file S =
     (if \<not> vm_verify (mmap (mm S)) args_ptr 24 (VM_READ OR VM_WRITE) then (Inl EFAULT, S)
      else if a_flags args AND 2 \<noteq> 0 \<and> \<not> page_aligned (a_addr args) then (Inl EINVAL, S)
      else if a_flags args AND 4 \<noteq> 0 then
        do_mmap_anon (a_addr args) (a_len args) (a_prot args AND 7) (a_flags args) S
      else case file of
             None \<Rightarrow> (Inl EBADF, S)
           | Some f \<Rightarrow>
               do_mmap f (a_addr args) (a_len args) (a_prot args AND 7) (a_flags args) (a_off args) S)"

text \<open>
  The two loops of \<^verbatim>\<open>sys_munmap\<close>.  The second ignores the result of \<^verbatim>\<open>vma_bisect\<close>: when the first
  bisection fails, the area after it is unmapped in its place and freed while the loop still holds
  a pointer to it; at the end of the list there is no such area.
\<close>

fun munmap_keep :: "u32 \<Rightarrow> u32 \<Rightarrow> vma list \<Rightarrow> bool" where
  "munmap_keep s e [] = False"
| "munmap_keep s e (v # vs) =
     (if vend v < s then munmap_keep s e vs
      else if vstart v \<ge> e then False
      else if has_flag v VM_KEEP then True
      else munmap_keep s e vs)"

definition munmap_tail :: "nat \<Rightarrow> u32 \<Rightarrow> vm_state \<Rightarrow> vm_state" where
  "munmap_tail i e S =
     (let v = mmap (mm S) ! i;
          S = (if vend v > e then snd (vma_bisect i e (vflags v) (vflags v) S) else S)
      in vm_unmap i S)"

fun munmap_loop :: "u32 \<Rightarrow> u32 \<Rightarrow> nat \<Rightarrow> vm_state \<Rightarrow> vm_state outcome" where
  "munmap_loop s e 0 S = Ret S"
| "munmap_loop s e (Suc n) S =
     (let m = mmap (mm S); i = length m - Suc n; v = m ! i
      in if vend v < s then munmap_loop s e n S
         else if vstart v \<ge> e then Ret S
         else if vstart v < s then
           (case vma_bisect i s (vflags v) (vflags v) S of
              (Inr _, S) \<Rightarrow> munmap_loop s e n (munmap_tail (Suc i) e S)
            | (Inl _, S) \<Rightarrow>
                if Suc i < length m \<and> has_flag (m ! Suc i) VM_KEEP
                then munmap_loop s e n (munmap_tail (Suc i) e S)
                else Stuck)
         else munmap_loop s e n (munmap_tail i e S))"

definition sys_munmap :: "u32 \<Rightarrow> u32 \<Rightarrow> vm_state \<Rightarrow> ((errno + unit) \<times> vm_state) outcome" where
  "sys_munmap addr len S =
     (let e = addr + page_align len
      in if e > kernel_base then Ret (Inl EINVAL, S)
         else if len = 0 \<or> \<not> page_aligned addr then Ret (Inl EINVAL, S)
         else if munmap_keep addr e (mmap (mm S)) then Ret (Inl EINVAL, S)
         else bind_outcome (munmap_loop addr e (length (mmap (mm S))) S) (\<lambda>S. Ret (Inr (), S)))"

definition HEAP_FLAGS :: u32 where "HEAP_FLAGS = VM_READ OR VM_WRITE OR VM_ZERO"

text \<open>\<^verbatim>\<open>get_heap\<close>, with the position of the area it returns.\<close>

fun index_of :: "vma \<Rightarrow> vma list \<Rightarrow> nat" where
  "index_of v [] = 0"
| "index_of v (x # xs) = (if x = v then 0 else Suc (index_of v xs))"

definition get_heap :: "vm_state \<Rightarrow> vma option \<times> vm_state" where
  "get_heap S =
     (case vma_get (mmap (mm S)) (brk (mm S) - 1) of
        Some heap \<Rightarrow> (Some heap, S)
      | None \<Rightarrow> vma_map (brk (mm S) - 1) 1 HEAP_FLAGS S)"

text \<open>The result on success is the old break, which the code stores through \<^verbatim>\<open>oldbrk\<close>.\<close>

definition sys_sbrk :: "u32 \<Rightarrow> u32 \<Rightarrow> vm_state \<Rightarrow> (errno + u32) \<times> vm_state" where
  "sys_sbrk inc oldbrk_ptr S =
     (let new = brk (mm S) + inc; old = brk (mm S)
      in if \<not> vm_verify (mmap (mm S)) oldbrk_ptr 4 VM_WRITE then (Inl EFAULT, S)
         else case get_heap S of
           (None, S) \<Rightarrow> (Inl ENOMEM, S)
         | (Some heap, S) \<Rightarrow>
             if new < vstart heap then (Inl EINVAL, S)
             else if inc \<le>s 0 \<or> new < vend heap then
               (Inr old, S\<lparr>mm := (mm S)\<lparr>brk := new\<rparr>\<rparr>)
             else case vma_grow_up (index_of heap (mmap (mm S))) inc (vflags heap) S of
               (Inl err, S) \<Rightarrow> (Inl err, S)
             | (Inr _, S) \<Rightarrow> (Inr old, S\<lparr>mm := (mm S)\<lparr>brk := new\<rparr>\<rparr>))"

section \<open>The invariant of an address space\<close>

text \<open>
  Areas are non-empty, page aligned, below the top page, and in increasing order without overlap.
  \<open>covered\<close> gives the addresses an address space maps.
\<close>

definition area_ok :: "vma \<Rightarrow> bool" where
  "area_ok v \<longleftrightarrow> vstart v < vend v \<and> page_aligned (vstart v) \<and> page_aligned (vend v)"

definition map_ok :: "vma list \<Rightarrow> bool" where
  "map_ok m \<longleftrightarrow> (\<forall>v \<in> set m. area_ok v) \<and> sorted_wrt (\<lambda>a b. vend a \<le> vstart b) m"

definition extent :: "vma \<Rightarrow> u32 set" where
  "extent v = {a. vma_contains v a}"

definition covered :: "vma list \<Rightarrow> u32 set" where
  "covered m = (\<Union>v \<in> set m. extent v)"

section \<open>Lemmas\<close>

lemma map_ok_Cons:
  "map_ok (v # m) \<longleftrightarrow> area_ok v \<and> (\<forall>x \<in> set m. vend v \<le> vstart x) \<and> map_ok m"
  by (auto simp: map_ok_def)

lemma map_ok_append:
  "map_ok (xs @ ys) \<longleftrightarrow> map_ok xs \<and> map_ok ys \<and> (\<forall>x \<in> set xs. \<forall>y \<in> set ys. vend x \<le> vstart y)"
  by (auto simp: map_ok_def sorted_wrt_append)

lemma area_okD: "area_ok v \<Longrightarrow> vstart v < vend v"
  by (simp add: area_ok_def)

lemma vma_find_first:
  assumes "map_ok m" "v \<in> set m" "vma_contains v a"
  shows "vma_find m a = Some v"
  using assms
proof (induction m)
  case (Cons x m)
  show ?case
  proof (cases "v = x")
    case False
    then have "vend x \<le> vstart v" using Cons.prems by (auto simp: map_ok_Cons)
    then have "vend x \<le> a" using Cons.prems(3) by (auto simp: vma_contains_def)
    then show ?thesis using Cons False by (auto simp: vma_find_def map_ok_Cons)
  qed (use Cons.prems(3) in \<open>simp add: vma_find_def vma_contains_def\<close>)
qed simp

lemma vma_get_iff:
  assumes "map_ok m"
  shows "vma_get m a = Some v \<longleftrightarrow> v \<in> set m \<and> vma_contains v a"
proof
  assume "vma_get m a = Some v"
  then have "vma_find m a = Some v" "vma_contains v a"
    by (auto simp: vma_get_def split: option.splits if_splits)
  then show "v \<in> set m \<and> vma_contains v a"
    using find_SomeD by (fastforce simp: vma_find_def)
next
  assume "v \<in> set m \<and> vma_contains v a"
  then show "vma_get m a = Some v" using vma_find_first [OF assms, of v a] by (simp add: vma_get_def)
qed

lemma vma_get_None_iff:
  assumes "map_ok m"
  shows "vma_get m a = None \<longleftrightarrow> a \<notin> covered m"
  using vma_get_iff [OF assms, of a] by (cases "vma_get m a") (auto simp: covered_def extent_def)

section \<open>Insertion\<close>

lemma set_vma_insert [simp]: "set (vma_insert v m) = insert v (set m)"
  by (induction m) auto

lemma covered_insert: "covered (vma_insert v m) = extent v \<union> covered m"
  by (auto simp: covered_def)

definition apart :: "vma \<Rightarrow> vma \<Rightarrow> bool" where
  "apart v x \<longleftrightarrow> vend v \<le> vstart x \<or> vend x \<le> vstart v"

lemma map_ok_insert:
  assumes "map_ok m" "area_ok v" "\<forall>x \<in> set m. apart v x"
  shows "map_ok (vma_insert v m)"
  using assms
proof (induction m)
  case Nil
  then show ?case by (simp add: map_ok_def)
next
  case (Cons x m)
  have x: "area_ok x" "\<forall>y \<in> set m. vend x \<le> vstart y" "map_ok m" "vstart x < vend x" "vstart v < vend v"
    using Cons.prems by (simp_all add: map_ok_Cons area_ok_def)
  show ?case
  proof (cases "vstart x > vstart v")
    case True
    then have "vend v \<le> vstart x" using Cons.prems(3) x(4) by (auto simp: apart_def)
    moreover have "\<forall>y \<in> set m. vend v \<le> vstart y"
      using calculation x(2,4) by (meson less_imp_le order_trans)
    ultimately show ?thesis using True Cons.prems x by (simp add: map_ok_Cons)
  next
    case False
    then have "vend x \<le> vstart v" using Cons.prems(3) x(5) by (auto simp: apart_def)
    then show ?thesis using False Cons x by (simp add: map_ok_Cons)
  qed
qed

text \<open>Areas that do not overlap share no address, and conversely for non-empty ones.\<close>

lemma apart_iff_disjoint:
  assumes "vstart v < vend v" "vstart x < vend x"
  shows "apart v x \<longleftrightarrow> extent v \<inter> extent x = {}"
proof -
  have "max (vstart v) (vstart x) \<in> extent v \<inter> extent x" if "\<not> apart v x"
    using that assms by (auto simp: apart_def extent_def vma_contains_def max_def)
  moreover have "extent v \<inter> extent x = {}" if "apart v x"
    using that by (fastforce simp: apart_def extent_def vma_contains_def)
  ultimately show ?thesis by blast
qed

section \<open>Searching for space\<close>

text \<open>
  The search from the top returns the highest address at which the length fits, provided no sum in
  the search wraps around: every bound plus the length stays below \<open>2\<^sup>32\<close>.
\<close>

definition fits :: "u32 \<Rightarrow> u32 \<Rightarrow> u32 \<Rightarrow> vma list \<Rightarrow> u32 \<Rightarrow> bool" where
  "fits s e len vs a \<longleftrightarrow>
     unat s \<le> unat a \<and> unat a + unat len \<le> unat e \<and>
     (\<forall>v \<in> set vs. unat a + unat len \<le> unat (vstart v) \<or> unat (vend v) \<le> unat a)"

lemma find_high_sound:
  assumes "sorted_wrt (\<lambda>a b. vend b \<le> vstart a) vs" "\<forall>v \<in> set vs. vstart v < vend v"
    and "\<forall>v \<in> set vs. unat (vend v) + unat len < 4294967296" "unat s + unat len < 4294967296"
    and "find_high s e len vs \<noteq> 0"
  shows "fits s e len vs (find_high s e len vs)"
  using assms
proof (induction vs arbitrary: e)
  case Nil
  then have "s < e" "len \<le> e - s" by (auto split: if_splits)
  then show ?case
    by (auto simp: fits_def word_le_nat_alt word_less_nat_alt unat_sub split: if_splits)
next
  case (Cons v vs)
  note IH = Cons.IH [OF _ _ _ Cons.prems(4)]
  have nv: "unat (vend v + len) = unat (vend v) + unat len" "unat (s + len) = unat s + unat len"
    using Cons.prems(3,4) by (simp_all add: unat_add_no_wrap)
  have below: "\<forall>x \<in> set vs. unat (vend x) \<le> unat (vstart v)" and v: "unat (vstart v) < unat (vend v)"
    using Cons.prems(1,2) by (auto simp: word_le_nat_alt word_less_nat_alt)
  consider "vstart v \<ge> e" | "vstart v < e" "\<not> s + len > e" "vend v + len \<le> e"
    | "vstart v < e" "\<not> s + len > e" "\<not> vend v + len \<le> e" | "vstart v < e" "s + len > e"
    by force
  then show ?case
  proof cases
    case 1
    then have "fits s e len vs (find_high s e len vs)" using IH Cons.prems by simp
    then show ?thesis using 1 by (auto simp: fits_def word_le_nat_alt)
  next
    case 2
    then have "unat (e - len) = unat e - unat len"
      using nv(2) by (intro unat_sub) (simp add: word_le_nat_alt not_less)
    moreover have "find_high s e len (v # vs) = e - len" using 2 by auto
    ultimately show ?thesis
      using 2(2,3) nv below v by (auto simp: fits_def word_le_nat_alt not_less)
  next
    case 3
    then have eq: "find_high s e len (v # vs) = find_high s (vstart v) len vs" by auto
    then have "fits s (vstart v) len vs (find_high s (vstart v) len vs)"
      using IH Cons.prems(1-3,5) by simp
    then show ?thesis unfolding eq using 3(1) by (auto simp: fits_def word_less_nat_alt)
  next
    case 4
    then have "find_high s e len (v # vs) = 0" by auto
    then show ?thesis using Cons.prems(5) by blast
  qed
qed

lemma find_high_highest:
  assumes "sorted_wrt (\<lambda>a b. vend b \<le> vstart a) vs" "\<forall>v \<in> set vs. vstart v < vend v"
    and "\<forall>v \<in> set vs. unat (vend v) + unat len < 4294967296" "unat s + unat len < 4294967296"
    and "fits s e len vs a" "0 < s" "0 < len"
  shows "find_high s e len vs \<noteq> 0 \<and> a \<le> find_high s e len vs"
  using assms
proof (induction vs arbitrary: e)
  case Nil
  then have f: "unat s \<le> unat a" "unat a + unat len \<le> unat e" "0 < unat s" "0 < unat len"
    by (simp_all add: fits_def word_less_nat_alt)
  then have "unat (e - s) = unat e - unat s" "unat (e - len) = unat e - unat len"
    by (auto intro!: unat_sub simp: word_le_nat_alt)
  then show ?case
    using f by (auto simp: word_le_nat_alt word_less_nat_alt unat_eq_0 [symmetric] simp del: unat_eq_zero)
next
  case (Cons v vs)
  have f: "unat s \<le> unat a" "unat a + unat len \<le> unat e" "0 < unat s" "0 < unat len"
      "unat a + unat len \<le> unat (vstart v) \<or> unat (vend v) \<le> unat a" "fits s e len vs a"
    using Cons.prems(5,6,7) by (auto simp: fits_def word_less_nat_alt)
  have nv: "unat (vend v + len) = unat (vend v) + unat len" "unat (s + len) = unat s + unat len"
    using Cons.prems(3,4) by (simp_all add: unat_add_no_wrap)
  have el: "unat (e - len) = unat e - unat len"
    using f by (intro unat_sub) (simp add: word_le_nat_alt)
  show ?case
  proof (cases "vstart v \<ge> e \<or> vend v + len \<le> e")
    case True
    have "find_high s e len vs \<noteq> 0 \<and> a \<le> find_high s e len vs"
      using Cons.IH [OF _ _ _ Cons.prems(4) f(6)] Cons.prems by simp
    moreover have "\<not> s + len > e" using f nv by (simp add: word_less_nat_alt)
    moreover have "e - len \<noteq> 0" "a \<le> e - len" using f el by (auto simp: word_le_nat_alt)
    ultimately show ?thesis using True by auto
  next
    case False
    then have "unat a + unat len \<le> unat (vstart v)"
      using f(2,5) nv by (auto simp: word_le_nat_alt)
    then have "fits s (vstart v) len vs a" using f by (auto simp: fits_def)
    then have "find_high s (vstart v) len vs \<noteq> 0 \<and> a \<le> find_high s (vstart v) len vs"
      using Cons.IH [OF _ _ _ Cons.prems(4)] Cons.prems by simp
    moreover have "\<not> s + len > e" using f nv by (simp add: word_less_nat_alt)
    ultimately show ?thesis using False by auto
  qed
qed

lemma dvd_unat_sub: "d dvd unat a \<Longrightarrow> d dvd unat b \<Longrightarrow> b \<le> a \<Longrightarrow> d dvd unat (a - b :: u32)"
  by (simp add: unat_sub dvd_diff_nat)

lemma find_high_aligned:
  assumes "page_aligned e" "page_aligned len" "\<forall>v \<in> set vs. page_aligned (vstart v)"
    and "unat s + unat len < 4294967296" "find_high s e len vs \<noteq> 0"
  shows "page_aligned (find_high s e len vs)"
  using assms
proof (induction vs arbitrary: e)
  case Nil
  then have "s < e" "len \<le> e - s" by (auto split: if_splits)
  then have "len \<le> e" by (auto simp: word_le_nat_alt word_less_nat_alt unat_sub)
  then show ?case using Nil by (auto simp: page_aligned_iff dvd_unat_sub)
next
  case (Cons v vs)
  have "len \<le> e" if "\<not> s + len > e"
    using that Cons.prems(4) by (simp add: word_le_nat_alt word_less_nat_alt unat_add_no_wrap)
  then show ?case
    using Cons by (auto simp: page_aligned_iff dvd_unat_sub split: if_splits)
qed

lemma page_align_least:
  assumes "unat a \<le> unat b" "page_aligned b"
  shows "unat (page_align a) \<le> unat b" "unat a \<le> unat (page_align a)"
proof -
  obtain k where k: "unat b = 4096 * k" using assms(2) by (auto simp: page_aligned_iff elim: dvdE)
  have "(unat a + 4095) div 4096 \<le> k" using assms(1) k by (simp add: div_le_mono [of "unat a + 4095" "4096 * k + 4095" 4096, simplified])
  then have le: "(unat a + 4095) div 4096 * 4096 \<le> unat b" using k by simp
  then have eq: "unat (page_align a) = (unat a + 4095) div 4096 * 4096"
    using u32_bound [of b] by (simp add: unat_page_align Let_def)
  then show "unat (page_align a) \<le> unat b" using le by simp
  show "unat a \<le> unat (page_align a)"
    unfolding eq using ceil_div [of 4096 "unat a"] by (auto simp: dvd_eq_mod_eq_0)
qed

lemma unat_page_align_add:
  assumes "page_aligned a" "unat a + unat (page_align len) < 4294967296" "unat len \<le> unat (page_align len)"
  shows "unat (page_align (a + len)) = unat a + unat (page_align len)"
proof -
  obtain k where k: "unat a = k * 4096" using assms(1) by (auto simp: page_aligned_iff elim!: dvdE)
  have u: "unat (a + len) = unat a + unat len" using assms(2,3) by (intro unat_add_no_wrap) simp
  have nw: "(unat len + 4095) div 4096 * 4096 < 4294967296 \<or> unat (page_align len) = 0"
    by (auto simp: unat_page_align Let_def)
  show ?thesis
  proof (cases "(unat len + 4095) div 4096 * 4096 < 4294967296")
    case True
    then have l: "unat (page_align len) = (unat len + 4095) div 4096 * 4096"
      by (simp add: unat_page_align Let_def)
    have "(unat a + unat len + 4095) div 4096 = k + (unat len + 4095) div 4096"
      unfolding k by (metis add.assoc div_mult_self3 zero_neq_numeral)
    then have "(unat (a + len) + 4095) div 4096 * 4096 = unat a + unat (page_align len)"
      unfolding u l k by (simp add: algebra_simps)
    then show ?thesis unfolding unat_page_align [of "a + len"] Let_def using assms(2) by simp
  next
    case False
    then have z: "unat (page_align len) = 0" using nw by simp
    then have "unat len = 0" using assms(3) by simp
    then show ?thesis using False by simp
  qed
qed

section \<open>Creating areas\<close>

lemma set_map_simps [simp]:
  "mmap (mm (set_map m S)) = m" "brk (mm (set_map m S)) = brk (mm S)" "allocs (set_map m S) = allocs S"
  "privs (set_map m S) = privs S" "f_count (set_map m S) = f_count S"
  by (simp_all add: set_map_def)

lemma slab_result_simps [simp]:
  "slab_result S = (b, S') \<Longrightarrow> mm S' = mm S" "slab_result S = (b, S') \<Longrightarrow> privs S' = privs S"
  "slab_result S = (b, S') \<Longrightarrow> f_count S' = f_count S"
  by (auto simp: slab_result_def split: list.splits)

lemma create_at_ok:
  assumes ok: "map_ok (mmap (mm S))" and a: "area_ok (new_vma addr (page_align (addr + len)) flags 0)"
    and free: "\<forall>x \<in> set (mmap (mm S)). apart (new_vma addr (page_align (addr + len)) flags 0) x"
    and res: "create_at addr len flags S = (r, S')"
  shows "map_ok (mmap (mm S'))"
    and "r = Some v \<Longrightarrow> v = new_vma addr (page_align (addr + len)) flags 0 \<and>
      covered (mmap (mm S')) = covered (mmap (mm S)) \<union> extent v"
    and "r = None \<Longrightarrow> mm S' = mm S"
  using assms map_ok_insert [OF ok a free]
  by (auto simp: create_at_def Let_def covered_insert split: prod.splits bool.splits)

lemma new_vma_simps [simp]:
  "vstart (new_vma s e f p) = s" "vend (new_vma s e f p) = e" "vflags (new_vma s e f p) = f"
  by (simp_all add: new_vma_def)

lemma high_area:
  assumes ok: "map_ok m" and top: "\<forall>v \<in> set m. vend v \<le> kernel_base"
    and len: "0 < unat len" "unat len \<le> 0x3FFFE000"
    and r: "vma_find_space_high m user_base kernel_base len = addr" "addr \<noteq> 0"
  shows "area_ok (new_vma addr (page_align (addr + len)) f 0)"
    and "\<forall>x \<in> set m. apart (new_vma addr (page_align (addr + len)) f 0) x"
    and "user_base \<le> addr \<and> page_align (addr + len) \<le> kernel_base \<and>
      unat (page_align (addr + len)) = unat addr + unat (page_align len)"
proof -
  let ?L = "page_align len"
  have L: "len \<le> ?L" "unat ?L < unat len + 4096" using page_align_ge [of len] len(2) by simp_all
  have s: "sorted_wrt (\<lambda>a b. vend b \<le> vstart a) (rev m)" "\<forall>v \<in> set (rev m). vstart v < vend v"
    using ok by (auto simp: map_ok_def sorted_wrt_rev area_ok_def)
  have nw: "\<forall>v \<in> set (rev m). unat (vend v) + unat ?L < 4294967296"
      "unat user_base + unat ?L < 4294967296"
    using top L len(2) by (auto simp: word_le_nat_alt)
  have al: "page_aligned kernel_base" "page_aligned ?L" "\<forall>v \<in> set (rev m). page_aligned (vstart v)"
    using ok by (auto simp: page_aligned_iff page_aligned_page_align [unfolded page_aligned_iff]
        map_ok_def area_ok_def)
  have fh: "find_high user_base kernel_base ?L (rev m) = addr"
    using r(1) by (simp add: vma_find_space_high_def)
  have f: "fits user_base kernel_base ?L (rev m) addr"
    using find_high_sound [OF s nw, of kernel_base] fh r(2) by simp
  have pa: "page_aligned addr" using find_high_aligned [OF al nw(2)] fh r(2) by simp
  have fit: "unat user_base \<le> unat addr" "unat addr + unat ?L \<le> unat kernel_base"
    using f unfolding fits_def by blast+
  have e: "unat (page_align (addr + len)) = unat addr + unat ?L"
    using fit L(1) by (intro unat_page_align_add [OF pa]) (simp_all add: word_le_nat_alt)
  show "area_ok (new_vma addr (page_align (addr + len)) f 0)"
    using e pa L(1) len(1) by (simp add: area_ok_def word_less_nat_alt word_le_nat_alt page_aligned_page_align)
  show "\<forall>x \<in> set m. apart (new_vma addr (page_align (addr + len)) f 0) x"
    using f e by (auto simp: fits_def apart_def word_le_nat_alt)
  show "user_base \<le> addr \<and> page_align (addr + len) \<le> kernel_base \<and>
      unat (page_align (addr + len)) = unat addr + unat ?L"
    using fit e by (simp add: word_le_nat_alt)
qed

lemma fixed_free_iff:
  assumes ok: "map_ok m" and s: "page_aligned s" "0 < unat len" "unat s + unat len \<le> 4294963200"
  shows "(case vma_find m s of Some v \<Rightarrow> vma_contains v s \<or> vstart v - s < len | None \<Rightarrow> False) \<longleftrightarrow>
    (\<exists>v \<in> set m. \<not> apart (new_vma s (page_align (s + len)) f 0) v)"
proof -
  let ?n = "new_vma s (page_align (s + len)) f 0"
  have u: "unat (s + len) = unat s + unat len" using s(3) by (intro unat_add_no_wrap) simp
  have pg: "unat (s + len) \<le> unat (page_align (s + len))"
    using page_align_ge(1) [of "s + len"] s(3) u by (simp add: word_le_nat_alt)
  show ?thesis
  proof (cases "vma_find m s")
    case None
    then have "\<forall>v \<in> set m. vend v \<le> s" by (auto simp: vma_find_def find_None_iff not_less)
    then show ?thesis using None by (auto simp: apart_def)
  next
    case (Some v)
    then obtain xs ys where m: "m = xs @ v # ys" and v: "s < vend v" and xs: "\<forall>x \<in> set xs. vend x \<le> s"
      using find_Some_split [of "\<lambda>v. s < vend v" m v] unfolding vma_find_def not_less by blast
    have va: "area_ok v" and ys: "\<forall>y \<in> set ys. vend v \<le> vstart y"
      using ok by (auto simp: m map_ok_append map_ok_Cons)
    have vs: "vstart v < vend v" "page_aligned (vstart v)" using va by (simp_all add: area_ok_def)
    show ?thesis
    proof (cases "vma_contains v s \<or> vstart v - s < len")
      case True
      have "\<not> apart ?n v"
      proof (cases "vstart v \<le> s")
        case True
        then show ?thesis using v u pg s(2) by (auto simp: apart_def word_le_nat_alt word_less_nat_alt)
      next
        case False
        then have "unat (vstart v) - unat s < unat len"
          using \<open>vma_contains v s \<or> vstart v - s < len\<close>
          by (auto simp: vma_contains_def word_less_nat_alt unat_sub)
        then show ?thesis using v u pg s(2) False by (auto simp: apart_def word_le_nat_alt word_less_nat_alt)
      qed
      then show ?thesis using True Some m by auto
    next
      case False
      then have lt: "s < vstart v" using v by (auto simp: vma_contains_def)
      then have "unat (vstart v - s) = unat (vstart v) - unat s" by (intro unat_sub) simp
      then have "unat (s + len) \<le> unat (vstart v)"
        using False u lt by (auto simp: word_less_nat_alt)
      then have pe: "page_align (s + len) \<le> vstart v"
        using page_align_least(1) vs(2) by (simp add: word_le_nat_alt)
      then have "apart ?n v" by (simp add: apart_def)
      moreover have "\<forall>x \<in> set xs. apart ?n x" using xs by (simp add: apart_def)
      moreover have "\<forall>y \<in> set ys. apart ?n y"
        using pe ys vs(1) by (auto simp: apart_def)
      ultimately show ?thesis using False Some m by auto
    qed
  qed
qed

section \<open>Splitting\<close>

text \<open>Without allocation failures, cutting the area at position \<open>i\<close> succeeds.\<close>

lemma slab_result_empty [simp]: "allocs S = [] \<Longrightarrow> slab_result S = (True, S)"
  by (simp add: slab_result_def)

lemma vm_split_ok:
  assumes "allocs S = []"
  obtains new' S' where "vm_split new old S = (Inr new', S')" "mm S' = mm S" "allocs S' = []"
    "vstart new' = vstart new" "vend new' = vend new" "vflags new' = vflags new"
  using assms
  by (cases "vop old = No_ops")
    (auto simp: vm_split_def mmap_split_def alloc_private_def Let_def)

lemma vma_bisect_ok:
  assumes "allocs S = []" and "i < length (mmap (mm S))"
  obtains right S' where "vma_bisect i split lf rf S = (Inr (), S')"
    "mmap (mm S') = replace_at i [(mmap (mm S) ! i)\<lparr>vend := split, vflags := lf\<rparr>, right] (mmap (mm S))"
    "vstart right = split" "vend right = vend (mmap (mm S) ! i)" "vflags right = rf"
    "allocs S' = []" "brk (mm S') = brk (mm S)"
proof -
  let ?v = "mmap (mm S) ! i"
  let ?right = "\<lparr>vstart = split, vend = vend ?v, vflags = rf, vprivate = 0, vop = vop ?v\<rparr>"
  let ?left = "?v\<lparr>vend := split, vflags := lf\<rparr>"
  obtain right S' where "vm_split ?right ?left S = (Inr right, S')" "mm S' = mm S" "allocs S' = []"
      "vstart right = split" "vend right = vend ?v" "vflags right = rf"
    using vm_split_ok [OF assms(1), of ?right ?left] by auto
  then show thesis
    using assms(1) by (intro that [of "set_map (replace_at i [?left, right] (mmap (mm S))) S'" right])
      (simp_all add: vma_bisect_def Let_def)
qed

lemma replace_at_split: "length xs = i \<Longrightarrow> replace_at i vs (xs @ v # ys) = xs @ vs @ ys"
  by (simp add: replace_at_def)

lemma vm_unmap_at:
  assumes "mmap (mm S) = xs @ v # ys" "\<not> has_flag v VM_KEEP" "length xs = i"
  shows "mmap (mm (vm_unmap i S)) = xs @ ys" "allocs (vm_unmap i S) = allocs S"
    "brk (mm (vm_unmap i S)) = brk (mm S)"
  using assms by (auto simp: vm_unmap_def Let_def mmap_unmap_def private_unref_def set_map_def)

lemma covered_append [simp]: "covered (xs @ ys) = covered xs \<union> covered ys"
  by (auto simp: covered_def)

lemma covered_Cons [simp]: "covered (v # ys) = extent v \<union> covered ys"
  by (auto simp: covered_def)

lemma covered_Nil [simp]: "covered [] = {}"
  by (simp add: covered_def)

lemma extent_split:
  assumes "vstart v \<le> split" "split \<le> vend v"
    and "vstart l = vstart v" "vend l = split" "vstart r = split" "vend r = vend v"
  shows "extent l \<union> extent r = extent v" "extent l \<inter> extent r = {}"
  using assms by (auto simp: extent_def vma_contains_def)

section \<open>Unmapping\<close>

definition addr_range :: "u32 \<Rightarrow> u32 \<Rightarrow> u32 set" where
  "addr_range s e = {a. s \<le> a \<and> a < e}"

text \<open>What is left of an area above \<open>e\<close> once everything below is cut off.\<close>

lemma munmap_tail_ok:
  assumes m: "mmap (mm S) = xs @ v # ys" and al: "allocs S = []" and k: "\<not> has_flag v VM_KEEP"
    and i: "length xs = i"
  obtains rs where "mmap (mm (munmap_tail i e S)) = xs @ rs @ ys" "allocs (munmap_tail i e S) = []"
    "brk (mm (munmap_tail i e S)) = brk (mm S)"
    "vend v \<le> e \<and> rs = [] \<or> e < vend v \<and> (\<exists>r. rs = [r] \<and> vstart r = e \<and> vend r = vend v)"
proof (cases "vend v > e")
  case False
  have "mmap (mm S) ! i = v" using m i by auto
  then have "munmap_tail i e S = vm_unmap i S" using False by (simp add: munmap_tail_def)
  then show thesis
    using vm_unmap_at [OF m k i] al False by (intro that [of "[]"]) auto
next
  case True
  have i': "i < length (mmap (mm S))" using m i by simp
  have vi: "mmap (mm S) ! i = v" using m i by auto
  obtain r S1 where b: "vma_bisect i e (vflags v) (vflags v) S = (Inr (), S1)"
      "mmap (mm S1) = replace_at i [v\<lparr>vend := e, vflags := vflags v\<rparr>, r] (mmap (mm S))"
      "vstart r = e" "vend r = vend v" "allocs S1 = []" "brk (mm S1) = brk (mm S)"
    using vma_bisect_ok [OF al i', of e "vflags v" "vflags v"] unfolding vi by metis
  have m1: "mmap (mm S1) = xs @ v\<lparr>vend := e, vflags := vflags v\<rparr> # r # ys"
    using b(2) m i by (simp add: replace_at_split)
  have k1: "\<not> has_flag (v\<lparr>vend := e, vflags := vflags v\<rparr>) VM_KEEP" using k by (simp add: has_flag_def)
  have "munmap_tail i e S = vm_unmap i S1" using True b(1) vi by (simp add: munmap_tail_def)
  then show thesis
    using vm_unmap_at [OF m1 k1 i] b True by (intro that [of "[r]"]) auto
qed

lemma map_ok_short: "length xs \<le> 1 \<Longrightarrow> \<forall>x \<in> set xs. area_ok x \<Longrightarrow> map_ok xs"
  by (cases xs) (auto simp: map_ok_def)

lemma munmap_keep_Cons:
  "\<not> munmap_keep s e (v # vs) \<Longrightarrow> \<not> vend v < s \<Longrightarrow> vstart v < e \<Longrightarrow>
     \<not> has_flag v VM_KEEP \<and> \<not> munmap_keep s e vs"
  by (auto split: if_splits)

lemma outside_range:
  assumes "vend v \<le> s \<or> e \<le> vstart v" shows "extent v - addr_range s e = extent v"
  using assms by (auto simp: extent_def vma_contains_def addr_range_def)

lemma covered_outside:
  assumes "\<forall>v \<in> set ys. e \<le> vstart v" shows "covered ys - addr_range s e = covered ys"
  using assms by (auto simp: covered_def extent_def vma_contains_def addr_range_def)

text \<open>One step on the area \<open>v\<close> that starts inside the range, or on its part inside the range.\<close>

lemma munmap_step:
  assumes ok: "map_ok (xs @ v # ys)" and v: "\<not> vend v < s" "vstart v < e"
    and al: "page_aligned s" "page_aligned e" "s < e"
    and left: "if vstart v < s then ls = [v\<lparr>vend := s, vflags := f\<rparr>] else ls = []"
    and right: "vend v \<le> e \<and> rs = [] \<or> e < vend v \<and> (\<exists>r. rs = [r] \<and> vstart r = e \<and> vend r = vend v)"
  shows "map_ok ((xs @ ls @ rs) @ ys)"
    and "covered (ls @ rs) = extent v - addr_range s e"
proof -
  have va: "vstart v < vend v" "page_aligned (vstart v)" "page_aligned (vend v)"
      and xs: "\<forall>x \<in> set xs. vend x \<le> vstart v" and ys: "\<forall>y \<in> set ys. vend v \<le> vstart y"
      and oks: "map_ok xs" "map_ok ys" "\<forall>x \<in> set xs. \<forall>y \<in> set ys. vend x \<le> vstart y"
    using ok by (auto simp: map_ok_append map_ok_Cons area_ok_def)
  have l: "\<forall>x \<in> set ls. area_ok x \<and> vstart x = vstart v \<and> vend x = s \<and> s \<le> vend v"
    using left v va al by (auto simp: area_ok_def split: if_splits)
  have r: "\<forall>x \<in> set rs. area_ok x \<and> vstart x = e \<and> vend x = vend v" using right al va by (auto simp: area_ok_def)
  have "length ls \<le> 1" "length rs \<le> 1" using left right by (auto split: if_splits)
  then have "map_ok ls" "map_ok rs" using l r by (blast intro: map_ok_short)+
  moreover have "\<forall>x \<in> set xs. \<forall>y \<in> set (ls @ rs). vend x \<le> vstart y"
  proof (intro ballI)
    fix x y assume "x \<in> set xs" "y \<in> set (ls @ rs)"
    then have "vend x \<le> vstart v" "vstart y = vstart v \<or> vstart y = e" using xs l r by auto
    then show "vend x \<le> vstart y" using v(2) by auto
  qed
  moreover have "\<forall>x \<in> set ls. \<forall>y \<in> set rs. vend x \<le> vstart y" using l r al(3) by auto
  moreover have "\<forall>x \<in> set (ls @ rs). \<forall>y \<in> set ys. vend x \<le> vstart y"
  proof (intro ballI)
    fix x y assume "x \<in> set (ls @ rs)" "y \<in> set ys"
    then have "vend x \<le> vend v" "vend v \<le> vstart y" using ys l r by auto
    then show "vend x \<le> vstart y" by (rule order_trans)
  qed
  ultimately show "map_ok ((xs @ ls @ rs) @ ys)" using oks unfolding map_ok_append by auto
  show "covered (ls @ rs) = extent v - addr_range s e"
    using left right v al(3)
    by (auto simp: extent_def vma_contains_def addr_range_def split: if_splits)
qed

text \<open>One turn of the loop on an area that meets the range: the new list and the recursive call.\<close>

lemma munmap_turn:
  assumes m: "mmap (mm S) = xs @ v # ys" and al: "allocs S = []"
    and v: "\<not> vend v < s" "vstart v < e" "\<not> has_flag v VM_KEEP"
  obtains ls rs S1 where "munmap_loop s e (Suc (length ys)) S = munmap_loop s e (length ys) S1"
    "mmap (mm S1) = (xs @ ls @ rs) @ ys" "allocs S1 = []"
    "if vstart v < s then ls = [v\<lparr>vend := s, vflags := vflags v\<rparr>] else ls = []"
    "vend v \<le> e \<and> rs = [] \<or> e < vend v \<and> (\<exists>r. rs = [r] \<and> vstart r = e \<and> vend r = vend v)"
proof (cases "vstart v < s")
  case False
  obtain rs where t: "mmap (mm (munmap_tail (length xs) e S)) = xs @ rs @ ys"
      "allocs (munmap_tail (length xs) e S) = []"
      "vend v \<le> e \<and> rs = [] \<or> e < vend v \<and> (\<exists>r. rs = [r] \<and> vstart r = e \<and> vend r = vend v)"
    using munmap_tail_ok [OF m al v(3) refl] by metis
  have "munmap_loop s e (Suc (length ys)) S = munmap_loop s e (length ys) (munmap_tail (length xs) e S)"
    using False v(1,2) by (auto simp: Let_def m)
  then show thesis using t False by (intro that [of _ "[]" rs]) simp_all
next
  case True
  let ?left = "v\<lparr>vend := s, vflags := vflags v\<rparr>"
  have i: "length xs < length (mmap (mm S))" "mmap (mm S) ! length xs = v" using m by simp_all
  obtain r S1 where b: "vma_bisect (length xs) s (vflags v) (vflags v) S = (Inr (), S1)"
      "mmap (mm S1) = replace_at (length xs) [?left, r] (mmap (mm S))"
      "vstart r = s" "vend r = vend v" "vflags r = vflags v" "allocs S1 = []"
    using vma_bisect_ok [OF al i(1), of s "vflags v" "vflags v"] unfolding i(2) by metis
  have m1: "mmap (mm S1) = (xs @ [?left]) @ r # ys" using b(2) m by (simp add: replace_at_split)
  have k: "\<not> has_flag r VM_KEEP" using v(3) b(5) by (simp add: has_flag_def)
  obtain rs where t: "mmap (mm (munmap_tail (Suc (length xs)) e S1)) = (xs @ [?left]) @ rs @ ys"
      "allocs (munmap_tail (Suc (length xs)) e S1) = []"
      "vend v \<le> e \<and> rs = [] \<or> e < vend v \<and> (\<exists>r. rs = [r] \<and> vstart r = e \<and> vend r = vend v)"
    using munmap_tail_ok [OF m1 b(6) k length_append_singleton, of e] unfolding b(4) by metis
  have "munmap_loop s e (Suc (length ys)) S =
      munmap_loop s e (length ys) (munmap_tail (Suc (length xs)) e S1)"
    using True v(1,2) b(1) by (auto simp: Let_def m)
  then show thesis using t True by (intro that [of _ "[?left]" rs]) simp_all
qed

lemma munmap_loop_ok:
  assumes "mmap (mm S) = xs @ ys" "allocs S = []" "map_ok (xs @ ys)" "\<not> munmap_keep s e ys"
    and al: "page_aligned s" "page_aligned e" "s < e"
  shows "\<exists>S'. munmap_loop s e (length ys) S = Ret S' \<and> map_ok (mmap (mm S')) \<and>
    covered (mmap (mm S')) = covered xs \<union> (covered ys - addr_range s e)"
  using assms(1-4)
proof (induction ys arbitrary: xs S)
  case Nil
  then show ?case by simp
next
  case (Cons v ys)
  have ord: "\<forall>y \<in> set ys. vend v \<le> vstart y" "vstart v < vend v"
    using Cons.prems(3) by (auto simp: map_ok_append map_ok_Cons area_ok_def)
  have nth: "mmap (mm S) ! length xs = v" "length (mmap (mm S)) = length xs + Suc (length ys)"
    using Cons.prems(1) by simp_all
  consider "vend v < s" | "\<not> vend v < s" "vstart v \<ge> e" | "\<not> vend v < s" "vstart v < e" by force
  then show ?case
  proof cases
    case 1
    have "munmap_loop s e (length (v # ys)) S = munmap_loop s e (length ys) S"
      using 1 nth by (simp add: Let_def)
    moreover have "extent v - addr_range s e = extent v" using 1 by (intro outside_range disjI1 less_imp_le)
    ultimately show ?thesis
      using Cons.IH [of S "xs @ [v]"] Cons.prems 1 by (simp add: Un_Diff Un_assoc)
  next
    case 2
    have "munmap_loop s e (length (v # ys)) S = Ret S" using 2 nth by (simp add: Let_def)
    moreover have "covered (v # ys) - addr_range s e = covered (v # ys)"
    proof (rule covered_outside, intro ballI)
      fix y assume "y \<in> set (v # ys)"
      then show "e \<le> vstart y" using 2(2) ord by (auto intro: order_trans less_imp_le)
    qed
    ultimately show ?thesis using Cons.prems by simp
  next
    case 3
    have k: "\<not> has_flag v VM_KEEP" "\<not> munmap_keep s e ys"
      using munmap_keep_Cons [OF Cons.prems(4) 3] by simp_all
    obtain ls rs S1 where t:
        "munmap_loop s e (Suc (length ys)) S = munmap_loop s e (length ys) S1"
        "mmap (mm S1) = (xs @ ls @ rs) @ ys" "allocs S1 = []"
        "if vstart v < s then ls = [v\<lparr>vend := s, vflags := vflags v\<rparr>] else ls = []"
        "vend v \<le> e \<and> rs = [] \<or> e < vend v \<and> (\<exists>r. rs = [r] \<and> vstart r = e \<and> vend r = vend v)"
      by (rule munmap_turn [OF Cons.prems(1,2) 3 k(1)])
    note st = munmap_step [OF Cons.prems(3) 3 al t(4,5)]
    from Cons.IH [OF t(2,3) st(1) k(2)] obtain S' where
      "munmap_loop s e (length ys) S1 = Ret S'" "map_ok (mmap (mm S'))"
      "covered (mmap (mm S')) = covered (xs @ ls @ rs) \<union> (covered ys - addr_range s e)" by blast
    then show ?thesis using t(1) st(2) by (auto simp: Un_Diff)
  qed
qed

section \<open>Growing and cloning\<close>

lemma vma_grow_up_ok:
  assumes ok: "map_ok (xs @ v # ys)" and m: "mmap (mm S) = xs @ v # ys"
    and nw: "unat (vend v) + unat amount \<le> 4294963200" and pos: "0 < unat amount"
    and r: "vma_grow_up (length xs) amount (vflags v) S = (Inr (), S')"
  shows "map_ok (mmap (mm S'))"
    and "mmap (mm S') = xs @ v\<lparr>vend := vend v + page_align amount\<rparr> # ys"
    and "brk (mm S') = brk (mm S)"
proof -
  let ?w = "v\<lparr>vend := vend v + page_align amount\<rparr>"
  have va: "vstart v < vend v" "page_aligned (vstart v)" "page_aligned (vend v)"
    and vy: "\<forall>y \<in> set ys. vend v \<le> vstart y"
    and oks: "map_ok xs" "map_ok ys" "\<forall>x \<in> set xs. vend x \<le> vstart v"
      "\<forall>x \<in> set xs. \<forall>y \<in> set ys. vend x \<le> vstart y"
    using ok by (auto simp: map_ok_append map_ok_Cons area_ok_def)
  have ys: "\<forall>y \<in> set ys. vend v \<le> vstart y \<and> page_aligned (vstart y) \<and> vstart y < vend y"
    using oks(2) vy by (auto simp: map_ok_def area_ok_def)
  have L: "unat amount \<le> unat (page_align amount)" "unat (page_align amount) < unat amount + 4096"
    using page_align_ge [of amount] nw by (simp_all add: word_le_nat_alt)
  have e: "unat (vend v + page_align amount) = unat (vend v) + unat (page_align amount)"
    using L nw by (intro unat_add_no_wrap) simp
  have pe: "unat (page_align (vend v + amount)) = unat (vend v) + unat (page_align amount)"
    using unat_page_align_add [OF va(3) _ L(1)] L(2) nw by simp
  show m': "mmap (mm S') = xs @ ?w # ys" "brk (mm S') = brk (mm S)"
    using r m by (auto simp: vma_grow_up_def Let_def split: if_splits)
  have "unat (vend v + amount) = unat (vend v) + unat amount" using nw by (intro unat_add_no_wrap) simp
  moreover have "\<not> vstart (hd ys) < vend v + amount" if "ys \<noteq> []"
  proof -
    have "(xs @ v # ys) ! Suc (length xs) = hd ys" using that by (simp add: nth_append hd_conv_nth)
    then show ?thesis using r m that by (auto simp: vma_grow_up_def Let_def split: if_splits)
  qed
  ultimately have hd: "unat (vend v) + unat (page_align amount) \<le> unat (vstart (hd ys))" if "ys \<noteq> []"
    using that ys page_align_least(1) [of "vend v + amount" "vstart (hd ys)"] pe
    by (simp add: word_less_nat_alt not_less)
  have "\<forall>y \<in> set ys. vend ?w \<le> vstart y"
  proof (cases ys)
    case (Cons z zs)
    then have "vend ?w \<le> vstart z" using hd e by (simp add: word_le_nat_alt)
    moreover have "\<forall>y \<in> set zs. vstart z \<le> vstart y"
      using oks(2) ys unfolding Cons by (auto simp: map_ok_Cons intro: order_trans less_imp_le)
    ultimately show ?thesis unfolding Cons by (auto intro: order_trans)
  qed simp
  moreover have "area_ok ?w"
    using va e pos L(1) page_aligned_page_align [of amount]
    by (simp add: area_ok_def page_aligned_iff word_less_nat_alt)
  ultimately show "map_ok (mmap (mm S'))"
    using oks unfolding m' by (auto simp: map_ok_append map_ok_Cons)
qed

lemma index_of_split: "v \<in> set m \<Longrightarrow> \<exists>xs ys. m = xs @ v # ys \<and> index_of v m = length xs"
proof (induction m)
  case (Cons x m)
  show ?case
  proof (cases "x = v")
    case True
    then show ?thesis by (intro exI [of _ "[]"] exI [of _ m]) simp
  next
    case False
    then obtain xs ys where "m = xs @ v # ys" "index_of v m = length xs" using Cons by auto
    then show ?thesis using False by (intro exI [of _ "x # xs"] exI [of _ ys]) simp
  qed
qed simp

text \<open>What a clone shares with its original.\<close>

definition area_image :: "vma \<Rightarrow> u32 \<times> u32 \<times> u32 \<times> vma_operations" where
  "area_image v = (vstart v, vend v, vflags v, vop v)"

lemma clone_areas_ok:
  assumes "allocs S = []"
  shows "\<exists>S'. clone_areas vs S = (True, S') \<and> allocs S' = [] \<and>
    map area_image (mmap (mm S')) = map area_image (mmap (mm S)) @ map area_image vs"
  using assms
proof (induction vs arbitrary: S)
  case (Cons v vs)
  obtain new S1 where c: "vm_clone (new_vma (vstart v) (vend v) (vflags v) 0) v S = (new, S1)"
    by fastforce
  then have n: "area_image new = area_image v" "mm S1 = mm S" "allocs S1 = []"
    using Cons.prems
    by (auto simp: vm_clone_def mmap_clone_def private_ref_def area_image_def new_vma_def Let_def
        split: if_splits)
  from Cons.IH [of "set_map (mmap (mm S1) @ [new]) S1"] n(3) obtain S' where
    "clone_areas vs (set_map (mmap (mm S1) @ [new]) S1) = (True, S')" "allocs S' = []"
    "map area_image (mmap (mm S')) = map area_image (mmap (mm S1) @ [new]) @ map area_image vs" by auto
  then show ?case using c n Cons.prems by (simp add: Let_def)
qed simp

section \<open>Properties\<close>

text \<open>An address space with a data area, a heap and a stack, for the witnesses.\<close>

definition mm_example :: vm_state where
  "mm_example = \<lparr>mm = \<lparr>mmap = [new_vma 0x10000 0x14000 6 0, new_vma 0x800000 0x900000 14 0,
       new_vma 0xBFFF0000 0xC0000000 63 0], brk = 0x900000\<rparr>,
     privs = (\<lambda>_. \<lparr>pfile = 0, poff = 0, plen = 0, pref = 0\<rparr>), next_priv = 1,
     f_count = (\<lambda>_. 1), allocs = []\<rparr>"

lemma mm_example_ok: "map_ok (mmap (mm mm_example))"
  by (simp add: mm_example_def map_ok_def area_ok_def page_aligned_def)

text \<open>
  In a well-formed address space \<^verbatim>\<open>vma_get\<close> returns an area exactly when that area holds the
  address, so at most one does; it returns \<^verbatim>\<open>NULL\<close> exactly for the unmapped addresses.
\<close>

theorem vma_get_correct:
  assumes "map_ok m"
  shows "(vma_get m a = Some v \<longleftrightarrow> v \<in> set m \<and> vma_contains v a) \<and>
    (vma_get m a = None \<longleftrightarrow> a \<notin> covered m)"
  using vma_get_iff [OF assms] vma_get_None_iff [OF assms] by blast

theorem vma_get_correct_witness:
  "vma_get (mmap (mm mm_example)) 0x12345 = Some (new_vma 0x10000 0x14000 6 0) \<and>
   vma_get (mmap (mm mm_example)) 0x14000 = None"
  using vma_get_correct [OF mm_example_ok, of "0x12345" "new_vma 0x10000 0x14000 6 0"]
    vma_get_correct [OF mm_example_ok, of "0x14000"]
  by (simp add: mm_example_def covered_def extent_def vma_contains_def)

text \<open>
  C33: \<^verbatim>\<open>vma_create_high\<close>, which serves \<^verbatim>\<open>mmap\<close> without \<^verbatim>\<open>MAP_FIXED\<close>, for requests of up to
  \<open>0x3FFFE000\<close> bytes: the new area lies inside user space, is long enough, overlaps no existing
  area, and the address space stays well formed with exactly the new addresses added.  When it
  returns \<^verbatim>\<open>NULL\<close> the address space is unchanged.
\<close>

theorem vma_create_high_safe:
  assumes "map_ok (mmap (mm S))" and "\<forall>v \<in> set (mmap (mm S)). vend v \<le> kernel_base"
    and "0 < unat len" and "unat len \<le> 0x3FFFE000"
    and "vma_create_high user_base kernel_base len flags S = (r, S')"
  shows "map_ok (mmap (mm S')) \<and>
    (case r of
       None \<Rightarrow> mm S' = mm S
     | Some v \<Rightarrow> user_base \<le> vstart v \<and> vend v \<le> kernel_base \<and>
         unat (vend v) = unat (vstart v) + unat (page_align len) \<and>
         extent v \<inter> covered (mmap (mm S)) = {} \<and>
         covered (mmap (mm S')) = covered (mmap (mm S)) \<union> extent v)"
proof -
  let ?addr = "vma_find_space_high (mmap (mm S)) user_base kernel_base len"
  show ?thesis
  proof (cases "?addr = 0")
    case True
    then show ?thesis using assms by (simp add: vma_create_high_def)
  next
    case False
    let ?v = "new_vma ?addr (page_align (?addr + len)) flags 0"
    note h = high_area(1,2) [OF assms(1-4) refl False, of flags]
      high_area(3) [OF assms(1-4) refl False]
    have c: "create_at ?addr len flags S = (r, S')" using assms(5) False by (simp add: vma_create_high_def)
    have "extent ?v \<inter> extent x = {}" if "x \<in> set (mmap (mm S))" for x
      using that h(1,2) assms(1) apart_iff_disjoint [of ?v x] by (simp add: map_ok_def area_ok_def)
    then have "extent ?v \<inter> covered (mmap (mm S)) = {}" by (auto simp: covered_def)
    then show ?thesis
      using create_at_ok [OF assms(1) h(1,2) c] h(3) by (cases r) auto
  qed
qed

theorem vma_create_high_safe_witness:
  "map_ok (mmap (mm (snd (vma_create_high user_base kernel_base 5000 6 mm_example))))"
  using vma_create_high_safe [OF mm_example_ok, of 5000 6
      "fst (vma_create_high user_base kernel_base 5000 6 mm_example)"
      "snd (vma_create_high user_base kernel_base 5000 6 mm_example)"]
  by (simp add: mm_example_def)



text \<open>
  The search has no check against wrap-around.  When the topmost area ends at the kernel base,
  as the stack does, a request of \<open>0xFFFFF000\<close> bytes is not refused: the search returns an address
  above the kernel base.
\<close>

theorem vma_find_space_high_wraps:
  assumes "vend v = kernel_base" and "vstart v < kernel_base"
  shows "vma_find_space_high (m @ [v]) user_base kernel_base 0xFFFFF000 = 0xC0001000"
proof -
  have "page_align 0xFFFFF000 = 0xFFFFF000" by (simp add: page_align_def align_up_def)
  moreover have "\<not> kernel_base \<le> vstart v" using assms(2) by simp
  ultimately show ?thesis using assms(1) by (simp add: vma_find_space_high_def)
qed

theorem vma_find_space_high_wraps_witness:
  "vma_find_space_high ([] @ [new_vma 0xBFFF0000 0xC0000000 63 0]) user_base kernel_base 0xFFFFF000
     = 0xC0001000"
  using vma_find_space_high_wraps [of "new_vma 0xBFFF0000 0xC0000000 63 0" "[]"] by simp

text \<open>
  \<^verbatim>\<open>vma_create_fixed\<close> at a page-aligned address, when memory is available: it refuses exactly
  when an existing area overlaps the page-rounded range, and otherwise maps exactly that range.
\<close>

theorem vma_create_fixed_exact:
  assumes "map_ok (mmap (mm S))" and "page_aligned s" and "0 < unat len"
    and "unat s + unat len \<le> 4294963200" and "allocs S = []"
    and "vma_create_fixed s len flags S = (r, S')"
  shows "map_ok (mmap (mm S')) \<and>
    (r = None \<longleftrightarrow> covered (mmap (mm S)) \<inter> addr_range s (page_align (s + len)) \<noteq> {}) \<and>
    covered (mmap (mm S')) =
      (if r = None then covered (mmap (mm S))
       else covered (mmap (mm S)) \<union> addr_range s (page_align (s + len)))"
proof -
  let ?n = "new_vma s (page_align (s + len)) flags 0" and ?m = "mmap (mm S)"
  have u: "unat (s + len) = unat s + unat len" using assms(4) by (intro unat_add_no_wrap) simp
  have "unat (s + len) \<le> unat (page_align (s + len))"
    using page_align_ge(1) [of "s + len"] assms(4) u by (simp add: word_le_nat_alt)
  then have a: "area_ok ?n"
    using assms(2,3) u by (simp add: area_ok_def word_less_nat_alt page_aligned_page_align)
  have ext: "extent ?n = addr_range s (page_align (s + len))"
    by (auto simp: extent_def vma_contains_def addr_range_def)
  have ap: "apart ?n v \<longleftrightarrow> extent ?n \<inter> extent v = {}" if "v \<in> set ?m" for v
    using that a assms(1) by (intro apart_iff_disjoint) (simp_all add: map_ok_def area_ok_def)
  let ?clash = "\<exists>v \<in> set ?m. \<not> apart ?n v"
  have cl: "?clash \<longleftrightarrow> covered ?m \<inter> addr_range s (page_align (s + len)) \<noteq> {}"
    using ap unfolding ext covered_def by blast
  have cf: "vma_create_fixed s len flags S = (if ?clash then (None, S) else create_at s len flags S)"
    using fixed_free_iff [OF assms(1-4), of flags]
    by (cases "vma_find ?m s") (simp_all add: vma_create_fixed_def)
  show ?thesis
  proof (cases ?clash)
    case True
    then show ?thesis using cf cl assms(1,6) by simp
  next
    case False
    then have c: "create_at s len flags S = (r, S')" using cf assms(6) by simp
    have "r = Some ?n" using c assms(5) by (auto simp: create_at_def Let_def)
    then show ?thesis
      using create_at_ok(1,2) [OF assms(1) a _ c] False cl ext by auto
  qed
qed

theorem vma_create_fixed_exact_witness:
  "fst (vma_create_fixed 0x12000 100 6 mm_example) = None \<and>
   fst (vma_create_fixed 0x20000 100 6 mm_example) \<noteq> None"
proof -
  have "0x12000 \<in> covered (mmap (mm mm_example)) \<inter> addr_range 0x12000 (page_align (0x12000 + 100))"
    by (simp add: mm_example_def covered_def extent_def vma_contains_def addr_range_def page_align_def
        align_up_def)
  moreover have "covered (mmap (mm mm_example)) \<inter> addr_range 0x20000 (page_align (0x20000 + 100)) = {}"
    by (auto simp: mm_example_def covered_def extent_def vma_contains_def addr_range_def page_align_def
        align_up_def word_le_nat_alt word_less_nat_alt)
  moreover have "page_aligned 0x12000" "page_aligned 0x20000" "allocs mm_example = []"
    by (simp_all add: page_aligned_def mm_example_def)
  ultimately show ?thesis
    using vma_create_fixed_exact [OF mm_example_ok, of "0x12000" 100 6
        "fst (vma_create_fixed 0x12000 100 6 mm_example)" "snd (vma_create_fixed 0x12000 100 6 mm_example)"]
      vma_create_fixed_exact [OF mm_example_ok, of "0x20000" 100 6
        "fst (vma_create_fixed 0x20000 100 6 mm_example)" "snd (vma_create_fixed 0x20000 100 6 mm_example)"]
    by auto
qed

text \<open>
  C1: \<^verbatim>\<open>sys_munmap\<close> of a page-aligned range below the kernel base that meets no \<^verbatim>\<open>VM_KEEP\<close> area,
  when memory is available: it succeeds, and afterwards exactly the addresses of the range are
  unmapped; areas that straddle an end of the range keep their other part, and the address space
  stays well formed.
\<close>

theorem sys_munmap_exact:
  assumes "map_ok (mmap (mm S))" and "allocs S = []" and "page_aligned addr" and "0 < unat len"
    and "unat addr + unat len \<le> 0xC0000000"
    and "\<not> munmap_keep addr (addr + page_align len) (mmap (mm S))"
  shows "\<exists>S'. sys_munmap addr len S = Ret (Inr (), S') \<and> map_ok (mmap (mm S')) \<and>
    covered (mmap (mm S')) = covered (mmap (mm S)) - addr_range addr (addr + page_align len)"
proof -
  let ?e = "addr + page_align len"
  have L: "unat len \<le> unat (page_align len)" "unat (page_align len) < unat len + 4096"
    using page_align_ge [of len] assms(5) by (simp_all add: word_le_nat_alt)
  have e: "unat ?e = unat addr + unat (page_align len)"
    using L(2) assms(5) by (intro unat_add_no_wrap) simp
  then have al: "page_aligned ?e"
    using assms(3) page_aligned_page_align [of len] by (simp add: page_aligned_iff)
  have lt: "addr < ?e" using e L(1) assms(4) by (simp add: word_less_nat_alt)
  have "unat (page_align (addr + len)) \<le> unat kernel_base"
    using assms(5) by (intro page_align_least(1)) (simp_all add: page_aligned_def unat_add_no_wrap)
  moreover have "unat (page_align (addr + len)) = unat ?e"
    using unat_page_align_add [OF assms(3) _ L(1)] L(2) assms(5) e by simp
  ultimately have top: "\<not> ?e > kernel_base" by (simp add: word_less_nat_alt)
  obtain S' where "munmap_loop addr ?e (length (mmap (mm S))) S = Ret S'" "map_ok (mmap (mm S'))"
      "covered (mmap (mm S')) = covered (mmap (mm S)) - addr_range addr ?e"
    using munmap_loop_ok [of S "[]" "mmap (mm S)" addr ?e] assms(1,2,3,6) al lt by auto
  then show ?thesis using top assms(3,4,6) by (auto simp: sys_munmap_def Let_def)
qed

theorem sys_munmap_exact_witness:
  "\<exists>S'. sys_munmap 0x801000 0x2000 mm_example = Ret (Inr (), S') \<and> map_ok (mmap (mm S')) \<and>
    0x802000 \<notin> covered (mmap (mm S'))"
proof -
  have "\<exists>S'. sys_munmap 0x801000 0x2000 mm_example = Ret (Inr (), S') \<and> map_ok (mmap (mm S')) \<and>
    covered (mmap (mm S')) =
      covered (mmap (mm mm_example)) - addr_range 0x801000 (0x801000 + page_align 0x2000)"
    by (rule sys_munmap_exact [OF mm_example_ok])
      (simp_all add: mm_example_def page_aligned_def page_align_def align_up_def has_flag_def)
  then show ?thesis by (auto simp: addr_range_def page_align_def align_up_def)
qed

text \<open>
  C35: \<^verbatim>\<open>vm_verify\<close> measures the length from the wrong side.  It accepts a range when the distance
  from the start of the area to the range is at least the length: a range that starts at the first
  byte of an area is refused whatever its length, and a range that starts at the last byte is
  accepted up to the length of the area, although it runs past the end.
\<close>

theorem vm_verify_wrong_side:
  assumes "map_ok m" and "v \<in> set m" and "vflags v AND flags = flags" and "0 < len"
  shows "\<not> vm_verify m (vstart v) len flags \<and>
    (unat len < unat (vend v) - unat (vstart v) \<longrightarrow> vm_verify m (vend v - 1) len flags)"
proof -
  have v: "vstart v < vend v" using assms(1,2) by (simp add: map_ok_def area_ok_def)
  have "vma_get m (vstart v) = Some v"
    using vma_get_iff [OF assms(1)] assms(2) v by (simp add: vma_contains_def)
  moreover have p: "unat (vend v - 1) = unat (vend v) - 1"
    using v unat_sub [of 1 "vend v"] by (auto simp: word_le_nat_alt word_less_nat_alt)
  have c: "vma_contains v (vend v - 1)"
    using v p by (auto simp: vma_contains_def word_le_nat_alt word_less_nat_alt)
  then have "vma_get m (vend v - 1) = Some v" using vma_get_iff [OF assms(1)] assms(2) by simp
  moreover have "unat (vend v - 1 - vstart v) = unat (vend v) - 1 - unat (vstart v)"
    using c p by (subst unat_sub) (simp_all add: vma_contains_def)
  ultimately show ?thesis
    using assms(3,4) by (auto simp: vm_verify_def word_less_nat_alt)
qed

theorem vm_verify_wrong_side_witness:
  "\<not> vm_verify (mmap (mm mm_example)) 0x10000 4 VM_READ \<and>
   vm_verify (mmap (mm mm_example)) (0x14000 - 1) 0x1000 VM_READ"
  using vm_verify_wrong_side [OF mm_example_ok, of "new_vma 0x10000 0x14000 6 0" VM_READ 4]
    vm_verify_wrong_side [OF mm_example_ok, of "new_vma 0x10000 0x14000 6 0" VM_READ "0x1000"]
  by (simp add: mm_example_def)



text \<open>
  \<^verbatim>\<open>mm_clone\<close>, which \<^verbatim>\<open>fork\<close> uses, gives the child an address space with the same areas, flags
  and operations in the same order, and the same break.
\<close>

theorem mm_clone_same:
  assumes "allocs S = []"
  shows "\<exists>S'. mm_clone True src S = (Inr (), S') \<and> brk (mm S') = brk src \<and>
    map area_image (mmap (mm S')) = map area_image (mmap src)"
  using clone_areas_ok [of "set_map [] S" "mmap src"] assms by (auto simp: mm_clone_def)

theorem mm_clone_same_witness:
  "\<exists>S'. mm_clone True (mm mm_example) mm_example = (Inr (), S') \<and> brk (mm S') = 0x900000"
proof -
  have "allocs mm_example = []" "brk (mm mm_example) = 0x900000" by (simp_all add: mm_example_def)
  with mm_clone_same [of mm_example "mm mm_example"] show ?thesis by auto
qed

end
