(* ===== verification/Paging.thy ===== *)
theory Paging
  imports Vma "HOL-Library.Monad_Syntax"
begin

text \<open>
  Physical frames and page tables: \<^verbatim>\<open>src/kernel/paging.c\<close>.  Physical memory is a sequence of pages of 1024
  words, a page being named by its physical address; page directories, page tables and the table
  of temporary mappings all live in it.  A frame of the pool is named by its index in
  \<^verbatim>\<open>frame_table\<close>.  The kernel reaches a page through the temporary mappings: \<^verbatim>\<open>kmap_tmp_page\<close> returns a virtual address,
  and an access through it goes to the page that the entry of the current process's temporary page table
  holds at that moment.  \<open>None\<close> is a call that does not return because the kernel panics or faults.
  The TLB is not part of the state, so the flushes leave no trace.
\<close>

section \<open>State\<close>

abbreviation (input) PE_P :: u32 where "PE_P \<equiv> 0x1"
abbreviation (input) PE_RW :: u32 where "PE_RW \<equiv> 0x2"
abbreviation (input) PE_U :: u32 where "PE_U \<equiv> 0x4"
abbreviation (input) PE_D :: u32 where "PE_D \<equiv> 0x40"

abbreviation (input) TMP_PGTAB_BASE :: u32 where "TMP_PGTAB_BASE \<equiv> 0xFFC00000"
abbreviation (input) current_pgdir :: u32 where "current_pgdir \<equiv> 0xFFFFF000"
abbreviation (input) KSTACK_START :: u32 where "KSTACK_START \<equiv> 0xFFFFA000"
abbreviation (input) NR_RESERVED_PAGES :: nat where "NR_RESERVED_PAGES \<equiv> 4"
abbreviation (input) NR_KSTACK_PAGES :: nat where "NR_KSTACK_PAGES \<equiv> 4"
abbreviation (input) NR_HIGH_PAGES :: nat where "NR_HIGH_PAGES \<equiv> 6"
abbreviation (input) MAX_HUSKS :: u32 where "MAX_HUSKS \<equiv> 16"

text \<open>
  \<open>faddr\<close> and \<open>ref\<close> are the fields of the frame table, \<open>kernel_pgdir\<close> is the physical address of the kernel's page directory,
  \<open>cr3\<close> that of the running process's, and \<open>pgdirs\<close> lists for each entry of the process table whether it is
  alive, and its page directory.
\<close>

record paging =
  phys :: "u32 \<Rightarrow> nat \<Rightarrow> u32"
  faddr :: "u32 \<Rightarrow> u32"
  ref :: "u32 \<Rightarrow> u32"
  frame_pool :: "u32 list"
  fp_start :: u32
  first_free :: u32
  kernel_pgdir :: u32
  cr3 :: u32
  husk_list :: "u32 list"
  husks :: u32
  pgdirs :: "(bool \<times> u32) list"

section \<open>Addresses and entries\<close>

definition addr_to_pdi :: "u32 \<Rightarrow> nat" where
  "addr_to_pdi addr = unat (drop_bit 22 (addr AND 0xFFC00000))"

definition pdi_to_addr :: "nat \<Rightarrow> u32" where
  "pdi_to_addr pdi = push_bit 22 (of_nat pdi)"

definition addr_to_pti :: "u32 \<Rightarrow> nat" where
  "addr_to_pti addr = unat (drop_bit 12 (addr AND 0x003FF000))"

definition pti_to_addr :: "nat \<Rightarrow> nat \<Rightarrow> u32" where
  "pti_to_addr pdi pti = pdi_to_addr pdi + push_bit 12 (of_nat pti)"

definition phys_to_info :: "paging \<Rightarrow> u32 \<Rightarrow> u32" where
  "phys_to_info s addr = (addr - fp_start s) div FRAME_SIZE"

definition entry_page :: "u32 \<Rightarrow> u32" where
  "entry_page e = e AND NOT 0xFFF"

definition entry_present :: "u32 \<Rightarrow> bool" where
  "entry_present e \<longleftrightarrow> e AND PE_P \<noteq> 0"

definition kernel_pdi :: nat where
  "kernel_pdi = addr_to_pdi kernel_base"

definition set_word :: "u32 \<Rightarrow> nat \<Rightarrow> u32 \<Rightarrow> paging \<Rightarrow> paging" where
  "set_word a i w s = s\<lparr>phys := (phys s)(a := (phys s a)(i := w))\<rparr>"

text \<open>\<^verbatim>\<open>addr_to_pte\<close> takes the physical address of a page table for a pointer, as it may while low memory is
  mapped one to one.  The entry pointer runs on from one page to the next.\<close>

definition pte_at :: "paging \<Rightarrow> u32 \<Rightarrow> u32 \<Rightarrow> nat \<Rightarrow> u32 \<times> nat" where
  "pte_at s pgdir addr i =
     (let k = addr_to_pti addr + i
      in (entry_page (phys s pgdir (addr_to_pdi addr)) + of_nat (k div 1024) * FRAME_SIZE, k mod 1024))"

definition page_attr :: "(u32 \<Rightarrow> u32) \<Rightarrow> u32 \<Rightarrow> u32 \<Rightarrow> u32 \<Rightarrow> paging \<Rightarrow> paging" where
  "page_attr f pgdir start e s =
     (let pte = pte_at s pgdir start
      in fold (\<lambda>i s. case pte i of (a, k) \<Rightarrow> set_word a k (f (phys s a k)) s)
           [0..<nat (sint ((page_align e - start) div FRAME_SIZE))] s)"

definition page_attr_off :: "u32 \<Rightarrow> u32 \<Rightarrow> u32 \<Rightarrow> u32 \<Rightarrow> paging \<Rightarrow> paging" where
  "page_attr_off pgdir start e fl = page_attr (\<lambda>pte. pte AND NOT fl) pgdir start e"

definition page_attr_on :: "u32 \<Rightarrow> u32 \<Rightarrow> u32 \<Rightarrow> u32 \<Rightarrow> paging \<Rightarrow> paging" where
  "page_attr_on pgdir start e fl = page_attr (\<lambda>pte. pte OR fl) pgdir start e"

definition vma_to_page_flags :: "u32 \<Rightarrow> u32" where
  "vma_to_page_flags fl =
     (if fl AND VM_READ \<noteq> 0 then PE_U else 0) OR (if fl AND VM_WRITE \<noteq> 0 then PE_RW else 0)"

section \<open>Temporary mappings\<close>

text \<open>\<^verbatim>\<open>tmp_pgtab\<close> is mapped at \<^verbatim>\<open>0xFFFFE000\<close> by the last entry of the current page directory; \<open>aliased\<close> is the page
  behind an address of the area it maps.\<close>

definition tmp_pgtab :: "paging \<Rightarrow> u32" where
  "tmp_pgtab s = entry_page (phys s (cr3 s) 1023)"

definition aliased :: "paging \<Rightarrow> u32 \<Rightarrow> u32" where
  "aliased s p = entry_page (phys s (tmp_pgtab s) (addr_to_pti p))"

definition load :: "paging \<Rightarrow> u32 \<Rightarrow> nat \<Rightarrow> u32" where
  "load s p i = phys s (aliased s p) i"

definition store :: "u32 \<Rightarrow> nat \<Rightarrow> u32 \<Rightarrow> paging \<Rightarrow> paging" where
  "store p i w s = set_word (aliased s p) i w s"

definition kmap_tmp_page :: "u32 \<Rightarrow> paging \<Rightarrow> (u32 \<times> paging) option" where
  "kmap_tmp_page addr s =
     List.find (\<lambda>i. \<not> entry_present (phys s (tmp_pgtab s) i)) [NR_RESERVED_PAGES..<1024 - NR_HIGH_PAGES] \<bind> (\<lambda>i.
       Some (TMP_PGTAB_BASE + of_nat i * FRAME_SIZE + (addr AND 0xFFF),
             set_word (tmp_pgtab s) i (addr OR PE_P OR PE_RW) s))"

definition kmap_tmp_page_n :: "u32 \<Rightarrow> nat \<Rightarrow> paging \<Rightarrow> u32 \<times> paging" where
  "kmap_tmp_page_n addr n s =
     (TMP_PGTAB_BASE + of_nat n * FRAME_SIZE, set_word (tmp_pgtab s) n (addr OR PE_P OR PE_RW) s)"

definition kunmap_tmp_page :: "u32 \<Rightarrow> paging \<Rightarrow> paging" where
  "kunmap_tmp_page addr s = set_word (tmp_pgtab s) (addr_to_pti addr) 0 s"

definition kunmap_page :: "u32 \<Rightarrow> paging \<Rightarrow> paging" where
  "kunmap_page addr s =
     (case kmap_tmp_page_n (entry_page (phys s (kernel_pgdir s) (addr_to_pdi addr))) 0 s of (pgtab, s) \<Rightarrow>
        store pgtab (addr_to_pti addr) 0 s)"

text \<open>The loop of \<^verbatim>\<open>get_tmp_ptes\<close> over the entries \<open>is\<close>; the result is the index of the first one.\<close>

fun get_tmp_ptes_loop :: "paging \<Rightarrow> u32 \<Rightarrow> nat list \<Rightarrow> nat option \<Rightarrow> u32 \<Rightarrow> nat option" where
  "get_tmp_ptes_loop s nr_pages [] first cnt = None"
| "get_tmp_ptes_loop s nr_pages (i # is) first cnt =
     (if entry_present (phys s (tmp_pgtab s) i) then get_tmp_ptes_loop s nr_pages is None 0
      else let first = (case first of None \<Rightarrow> i | Some f \<Rightarrow> f)
           in if cnt + 1 \<ge> nr_pages then Some first else get_tmp_ptes_loop s nr_pages is (Some first) (cnt + 1))"

definition get_tmp_ptes :: "paging \<Rightarrow> u32 \<Rightarrow> nat option" where
  "get_tmp_ptes s nr_pages = get_tmp_ptes_loop s nr_pages [NR_RESERVED_PAGES..<1022] None 0"

section \<open>Frames\<close>

definition kalloc_frame :: "u32 \<Rightarrow> paging \<Rightarrow> (u32 \<times> paging) option" where
  "kalloc_frame fl s =
     (case frame_pool s of
        [] \<Rightarrow> None
      | page # pool \<Rightarrow>
          let s = s\<lparr>frame_pool := pool, ref := (ref s)(page := 1)\<rparr>
          in if fl AND VM_ZERO \<noteq> 0 then
               kmap_tmp_page (faddr s page) s \<bind> (\<lambda>(vaddr, s).
                 Some (page, kunmap_tmp_page vaddr (s\<lparr>phys := (phys s)(aliased s vaddr := (\<lambda>_. 0))\<rparr>)))
             else Some (page, s))"

definition do_kfree_frame :: "u32 \<Rightarrow> paging \<Rightarrow> paging" where
  "do_kfree_frame page s = s\<lparr>frame_pool := page # frame_pool s\<rparr>"

definition kfree_frame :: "u32 \<Rightarrow> paging \<Rightarrow> paging" where
  "kfree_frame f s =
     (let s = s\<lparr>ref := (ref s)(f := ref s f - 1)\<rparr> in if ref s f = 0 then do_kfree_frame f s else s)"

section \<open>Ranges of another address space\<close>

text \<open>
  The loop of \<^verbatim>\<open>kmap_tmp_range\<close>.  The page table is mapped as page 1 of the temporary area and page 2 never is, so an
  entry pointer that runs over its end faults.
\<close>

primrec kmap_range_loop :: "nat \<Rightarrow> u32 \<Rightarrow> u32 \<Rightarrow> nat \<Rightarrow> nat \<Rightarrow> u32 \<Rightarrow> paging \<Rightarrow> paging option" where
  "kmap_range_loop 0 fl attr pte tmp pgtab s = Some s"
| "kmap_range_loop (Suc n) fl attr pte tmp pgtab s =
     (if pte \<ge> 1024 then None
      else (if entry_present (load s pgtab pte) then Some s
            else kalloc_frame fl s \<bind> (\<lambda>(frame, s). Some (store pgtab pte (faddr s frame OR attr OR PE_P) s))) \<bind> (\<lambda>s.
             kmap_range_loop n fl attr (pte + 1) (tmp + 1) pgtab
               (set_word (tmp_pgtab s) tmp (load s pgtab pte OR PE_RW) s)))"

text \<open>A result of 0 is \<^verbatim>\<open>NULL\<close>.\<close>

definition kmap_tmp_range :: "u32 \<Rightarrow> u32 \<Rightarrow> u32 \<Rightarrow> u32 \<Rightarrow> paging \<Rightarrow> (u32 \<times> paging) option" where
  "kmap_tmp_range phys_pgdir addr len fl s =
     (case kmap_tmp_page_n phys_pgdir 0 s of (pgdir, s) \<Rightarrow>
        (case kmap_tmp_page_n (entry_page (load s pgdir (addr_to_pdi addr))) 1 s of (pgtab, s) \<Rightarrow>
          let nr_pages = pages_in_range addr len
          in (case get_tmp_ptes s nr_pages of
               None \<Rightarrow> Some (0, s)
             | Some tmp \<Rightarrow>
                 kmap_range_loop (unat nr_pages) fl (vma_to_page_flags fl) (addr_to_pti addr) tmp pgtab s \<bind> (\<lambda>s.
                   Some (TMP_PGTAB_BASE + of_nat tmp * FRAME_SIZE + (addr AND 0xFFF), s)))))"

definition kunmap_tmp_range :: "u32 \<Rightarrow> u32 \<Rightarrow> paging \<Rightarrow> paging" where
  "kunmap_tmp_range addrp len s =
     (let starti = addr_to_pti addrp
      in fold (\<lambda>i s. set_word (tmp_pgtab s) i 0 s) [starti..<starti + unat (pages_in_range addrp len)] s)"

text \<open>Bytes at virtual addresses of the running process.\<close>

definition vpage :: "paging \<Rightarrow> u32 \<Rightarrow> u32 option" where
  "vpage s va =
     (let pde = phys s (cr3 s) (addr_to_pdi va); pte = phys s (entry_page pde) (addr_to_pti va)
      in if entry_present pde \<and> entry_present pte then Some (entry_page pte) else None)"

definition vload :: "paging \<Rightarrow> u32 \<Rightarrow> u8 option" where
  "vload s va =
     vpage s va \<bind> (\<lambda>a. let k = unat (va AND 0xFFF) in Some (ucast (drop_bit (8 * (k mod 4)) (phys s a (k div 4)))))"

definition vstore :: "u32 \<Rightarrow> u8 \<Rightarrow> paging \<Rightarrow> paging option" where
  "vstore va b s =
     vpage s va \<bind> (\<lambda>a.
       let k = unat (va AND 0xFFF); sh = 8 * (k mod 4)
       in Some (set_word a (k div 4) ((phys s a (k div 4) AND NOT (push_bit sh 0xFF)) OR push_bit sh (ucast b)) s))"

primrec vmemcpy :: "nat \<Rightarrow> u32 \<Rightarrow> u32 \<Rightarrow> paging \<Rightarrow> paging option" where
  "vmemcpy 0 dst src s = Some s"
| "vmemcpy (Suc n) dst src s = vload s src \<bind> (\<lambda>b. vstore dst b s \<bind> vmemcpy n (dst + 1) (src + 1))"

definition pm_copy_to :: "u32 \<Rightarrow> u32 \<Rightarrow> u32 \<Rightarrow> u32 \<Rightarrow> paging \<Rightarrow> ((errno + unit) \<times> paging) option" where
  "pm_copy_to phys_pgdir dst src len s =
     kmap_tmp_range phys_pgdir dst len VM_WRITE s \<bind> (\<lambda>(addr, s).
       if addr = 0 then Some (Inl ENOMEM, s)
       else vmemcpy (unat len) addr src s \<bind> (\<lambda>s. Some (Inr (), kunmap_tmp_range addr len s)))"

definition vm_copy_from :: "vma list \<Rightarrow> u32 \<Rightarrow> u32 \<Rightarrow> u32 \<Rightarrow> u32 \<Rightarrow> paging \<Rightarrow> ((errno + unit) \<times> paging) option" where
  "vm_copy_from m pgdir dst src len s =
     (case vma_get m src of
        None \<Rightarrow> Some (Inl EFAULT, s)
      | Some v \<Rightarrow>
          kmap_tmp_range pgdir src len (vflags v) s \<bind> (\<lambda>(addr, s).
            if addr = 0 then Some (Inl ENOMEM, s)
            else vmemcpy (unat len) dst addr s \<bind> (\<lambda>s. Some (Inr (), kunmap_tmp_range addr len s))))"

definition vm_copy_to :: "vma list \<Rightarrow> u32 \<Rightarrow> u32 \<Rightarrow> u32 \<Rightarrow> u32 \<Rightarrow> paging \<Rightarrow> ((errno + unit) \<times> paging) option" where
  "vm_copy_to m pgdir dst src len s =
     (case vma_get m dst of
        None \<Rightarrow> Some (Inl EFAULT, s)
      | Some v \<Rightarrow>
          kmap_tmp_range pgdir dst len (vflags v) s \<bind> (\<lambda>(addr, s).
            if addr = 0 then Some (Inl ENOMEM, s)
            else vmemcpy (unat len) addr src s \<bind> (\<lambda>s. Some (Inr (), kunmap_tmp_range addr len s))))"

section \<open>Page directories\<close>

text \<open>A loop over a list whose body may panic.\<close>

fun each :: "('a \<Rightarrow> 's \<Rightarrow> 's option) \<Rightarrow> 'a list \<Rightarrow> 's \<Rightarrow> 's option" where
  "each f [] s = Some s"
| "each f (x # xs) s = f x s \<bind> each f xs"

definition clone_entry :: "u32 \<Rightarrow> u32 \<Rightarrow> nat \<Rightarrow> paging \<Rightarrow> paging" where
  "clone_entry original copy i s =
     (let e = load s original i; k = phys_to_info s (entry_page e)
      in if entry_present e then store copy i e (s\<lparr>ref := (ref s)(k := ref s k + 1)\<rparr>) else s)"

definition clone_pgtab :: "u32 \<Rightarrow> paging \<Rightarrow> (u32 \<times> paging) option" where
  "clone_pgtab phys_pgtab s =
     kalloc_frame VM_ZERO s \<bind> (\<lambda>(f_pgtab, s).
       kmap_tmp_page phys_pgtab s \<bind> (\<lambda>(original, s).
         kmap_tmp_page (faddr s f_pgtab) s \<bind> (\<lambda>(copy, s).
           Some (faddr s f_pgtab, fold (clone_entry original copy) [0..<1024] s))))"

fun clone_pgtabs :: "u32 \<Rightarrow> nat list \<Rightarrow> paging \<Rightarrow> (bool \<times> paging) option" where
  "clone_pgtabs pgdir [] s = Some (True, s)"
| "clone_pgtabs pgdir (i # is) s =
     (if \<not> entry_present (load s current_pgdir i) then clone_pgtabs pgdir is s
      else clone_pgtab (entry_page (load s current_pgdir i)) s \<bind> (\<lambda>(pgtab, s).
             if pgtab = 0 then Some (False, kunmap_tmp_page pgdir s)
             else clone_pgtabs pgdir is (store pgdir i (pgtab OR (load s current_pgdir i AND 0xFFF)) s)))"

definition copy_kstack_page :: "u32 \<Rightarrow> nat \<Rightarrow> paging \<Rightarrow> paging option" where
  "copy_kstack_page pgtab i s =
     kmap_tmp_page (entry_page (load s pgtab (1024 - NR_HIGH_PAGES + i))) s \<bind> (\<lambda>(tmp, s).
       Some (kunmap_tmp_page tmp
         (s\<lparr>phys := (phys s)(aliased s tmp := phys s (aliased s (KSTACK_START + of_nat i * FRAME_SIZE)))\<rparr>)))"

text \<open>The list of husks.\<close>

definition pop_husk :: "paging \<Rightarrow> (u32 \<times> paging) option" where
  "pop_husk s =
     (case husk_list s of [] \<Rightarrow> None
      | frame # rest \<Rightarrow> Some (faddr s frame, s\<lparr>husk_list := rest, husks := husks s - 1\<rparr>))"

definition push_husk :: "u32 \<Rightarrow> paging \<Rightarrow> paging" where
  "push_husk phys_pgdir s =
     s\<lparr>husk_list := phys_to_info s phys_pgdir # husk_list s, husks := husks s + 1\<rparr>"

primrec alloc_frames :: "nat \<Rightarrow> u32 \<Rightarrow> paging \<Rightarrow> (u32 list \<times> paging) option" where
  "alloc_frames 0 fl s = Some ([], s)"
| "alloc_frames (Suc n) fl s =
     kalloc_frame fl s \<bind> (\<lambda>(f, s). alloc_frames n fl s \<bind> (\<lambda>(fs, s). Some (f # fs, s)))"

definition make_new_pgdir :: "paging \<Rightarrow> (u32 \<times> paging) option" where
  "make_new_pgdir s =
     alloc_frames NR_HIGH_PAGES VM_ZERO s \<bind> (\<lambda>(frames, s).
       kmap_tmp_page (faddr s (frames ! (NR_HIGH_PAGES - 1))) s \<bind> (\<lambda>(pgdir, s).
         kmap_tmp_page (faddr s (frames ! (NR_HIGH_PAGES - 2))) s \<bind> (\<lambda>(pgtab, s).
           let s = store pgdir 1023 (faddr s (frames ! (NR_HIGH_PAGES - 2)) OR PE_P OR PE_RW) s;
               s = fold (\<lambda>i s. store pgtab (1024 - NR_HIGH_PAGES + i) (faddr s (frames ! i) OR PE_P OR PE_RW) s)
                     [0..<NR_HIGH_PAGES] s;
               s = fold (\<lambda>pdi s. store pgdir pdi (phys s (kernel_pgdir s) pdi) s) [kernel_pdi..<1023] s
           in Some (faddr s (frames ! (NR_HIGH_PAGES - 1)), kunmap_tmp_page pgdir (kunmap_tmp_page pgtab s)))))"

definition new_pgdir :: "paging \<Rightarrow> (u32 \<times> paging) option" where
  "new_pgdir s = (if husks s > 0 then pop_husk s else make_new_pgdir s)"

definition clone_pgdir :: "paging \<Rightarrow> (u32 \<times> paging) option" where
  "clone_pgdir s =
     new_pgdir s \<bind> (\<lambda>(p_pgdir, s).
       if p_pgdir = 0 then Some (0, s)
       else kmap_tmp_page p_pgdir s \<bind> (\<lambda>(pgdir, s).
         clone_pgtabs pgdir [0..<kernel_pdi] s \<bind> (\<lambda>(ok, s).
           if \<not> ok then Some (0, s)
           else kmap_tmp_page (entry_page (load s pgdir 1023)) s \<bind> (\<lambda>(pgtab, s).
             each (copy_kstack_page pgtab) [0..<NR_KSTACK_PAGES] s \<bind> (\<lambda>s.
               Some (p_pgdir, kunmap_tmp_page pgdir s))))))"

section \<open>Releasing page directories\<close>

definition del_pgtab :: "u32 \<Rightarrow> paging \<Rightarrow> paging option" where
  "del_pgtab phys_pgtab s =
     kmap_tmp_page phys_pgtab s \<bind> (\<lambda>(pgtab, s).
       let s = fold (\<lambda>i s. if entry_present (load s pgtab i)
                           then kfree_frame (phys_to_info s (entry_page (load s pgtab i))) s else s) [0..<1024] s;
           s = kunmap_tmp_page pgtab s
       in Some (kfree_frame (phys_to_info s phys_pgtab) s))"

definition del_pgdir :: "u32 \<Rightarrow> paging \<Rightarrow> paging option" where
  "del_pgdir phys_pgdir s =
     kmap_tmp_page phys_pgdir s \<bind> (\<lambda>(pgdir, s).
       each (\<lambda>i s. if entry_present (load s pgdir i) then del_pgtab (entry_page (load s pgdir i)) s else Some s)
         [0..<kernel_pdi] s \<bind> (\<lambda>s.
         let s = kfree_frame (phys_to_info s (entry_page (load s pgdir 1023))) s;
             s = kfree_frame (phys_to_info s phys_pgdir) s
         in Some (kunmap_tmp_page pgdir s)))"

definition free_pte :: "u32 \<Rightarrow> paging \<Rightarrow> paging" where
  "free_pte pte s = kfree_frame (phys_to_info s (entry_page pte)) s"

definition free_husk :: "u32 \<Rightarrow> paging \<Rightarrow> paging option" where
  "free_husk phys_pgdir s =
     kmap_tmp_page phys_pgdir s \<bind> (\<lambda>(pgdir, s).
       kmap_tmp_page (entry_page (load s pgdir 1023)) s \<bind> (\<lambda>(pgtab, s).
         let s = fold (\<lambda>i s. free_pte (load s pgtab (1024 - NR_HIGH_PAGES + i)) s) [0..<NR_HIGH_PAGES] s
         in Some (kunmap_tmp_page pgdir (kunmap_tmp_page pgtab s))))"

definition husk_pgdir :: "u32 \<Rightarrow> paging \<Rightarrow> paging option" where
  "husk_pgdir phys_pgdir s =
     kmap_tmp_page phys_pgdir s \<bind> (\<lambda>(pgdir, s).
       each (\<lambda>i s. if entry_present (load s pgdir i)
                   then del_pgtab (entry_page (load s pgdir i)) s \<bind> (\<lambda>s. Some (store pgdir i 0 s))
                   else Some s) [0..<kernel_pdi] s \<bind> (\<lambda>s.
         Some (kunmap_tmp_page pgdir s)))"

definition free_pgdir :: "u32 \<Rightarrow> paging \<Rightarrow> paging option" where
  "free_pgdir phys_pgdir s =
     (if husks s \<ge> MAX_HUSKS then pop_husk s \<bind> (\<lambda>(d, s). free_husk d s) else Some s) \<bind> (\<lambda>s.
       husk_pgdir phys_pgdir s \<bind> (\<lambda>s. Some (push_husk phys_pgdir s)))"

section \<open>The pages of an area\<close>

type_synonym apply_fn = "vma \<Rightarrow> u32 \<Rightarrow> u32 \<Rightarrow> paging \<Rightarrow> (u32 \<times> paging) option"

definition pm_apply_pte :: "apply_fn \<Rightarrow> vma \<Rightarrow> nat \<Rightarrow> u32 \<Rightarrow> nat \<Rightarrow> paging \<Rightarrow> paging option" where
  "pm_apply_pte fn v pdi pgtab pti s =
     (if entry_present (load s pgtab pti)
      then fn v (pti_to_addr pdi pti) (load s pgtab pti) s \<bind> (\<lambda>(pte, s). Some (store pgtab pti pte s))
      else Some s)"

definition pm_apply_pgtab :: "apply_fn \<Rightarrow> vma \<Rightarrow> nat \<Rightarrow> u32 \<Rightarrow> paging \<Rightarrow> paging option" where
  "pm_apply_pgtab fn v pdi phys_pgtab s =
     (let pti = (if vstart v > pdi_to_addr pdi then addr_to_pti (vstart v) else 0);
          last_pti = (if vend v < pdi_to_addr (pdi + 1) then addr_to_pti (vend v - 1) else 1023)
      in kmap_tmp_page phys_pgtab s \<bind> (\<lambda>(pgtab, s).
           each (pm_apply_pte fn v pdi pgtab) [pti..<last_pti + 1] s \<bind> (\<lambda>s. Some (kunmap_tmp_page pgtab s))))"

text \<open>\<open>mm_pgdir\<close> is the page directory of the address space that the area belongs to.\<close>

definition pm_apply :: "apply_fn \<Rightarrow> u32 \<Rightarrow> vma \<Rightarrow> paging \<Rightarrow> paging option" where
  "pm_apply fn mm_pgdir v s =
     kmap_tmp_page mm_pgdir s \<bind> (\<lambda>(pgdir, s).
       each (\<lambda>pdi s. if entry_present (load s pgdir pdi)
                     then pm_apply_pgtab fn v pdi (entry_page (load s pgdir pdi)) s else Some s)
         [addr_to_pdi (vstart v)..<addr_to_pdi (vend v - 1) + 1] s \<bind> (\<lambda>s.
         Some (kunmap_tmp_page pgdir s)))"

text \<open>\<open>vm_writeback\<close> is what the operations of the area do with a changed page.\<close>

definition pm_unmap_fn :: "(vma \<Rightarrow> u32 \<Rightarrow> paging \<Rightarrow> paging) \<Rightarrow> apply_fn" where
  "pm_unmap_fn vm_writeback v addr pte s =
     (let s = (if pte AND PE_D \<noteq> 0 then vm_writeback v addr s else s)
      in Some (0, kfree_frame (phys_to_info s (entry_page pte)) s))"

definition pm_unmap :: "(vma \<Rightarrow> u32 \<Rightarrow> paging \<Rightarrow> paging) \<Rightarrow> u32 \<Rightarrow> vma \<Rightarrow> paging \<Rightarrow> paging option" where
  "pm_unmap vm_writeback = pm_apply (pm_unmap_fn vm_writeback)"

definition pm_disable_write_fn :: apply_fn where
  "pm_disable_write_fn v addr pte s = Some (pte AND NOT PE_RW, s)"

definition pm_disable_write :: "u32 \<Rightarrow> vma \<Rightarrow> paging \<Rightarrow> paging option" where
  "pm_disable_write = pm_apply pm_disable_write_fn"

text \<open>The page is copied from the address it has in the running process.\<close>

definition pm_copy_fn :: apply_fn where
  "pm_copy_fn v addr pte s =
     kalloc_frame (vflags v) s \<bind> (\<lambda>(frame, s).
       kmap_tmp_page (faddr s frame) s \<bind> (\<lambda>(tmp, s).
         vpage s addr \<bind> (\<lambda>src.
           let s = kunmap_tmp_page tmp (s\<lparr>phys := (phys s)(aliased s tmp := phys s src)\<rparr>);
               s = kfree_frame (phys_to_info s (entry_page pte)) s
           in Some (faddr s frame OR (pte AND 0xFFF), s))))"

definition pm_copy :: "u32 \<Rightarrow> vma \<Rightarrow> paging \<Rightarrow> paging option" where
  "pm_copy = pm_apply pm_copy_fn"

section \<open>Mapping pages\<close>

definition umap_page_table :: "u32 \<Rightarrow> u32 \<Rightarrow> paging \<Rightarrow> (u32 \<times> paging) option" where
  "umap_page_table pgdir addr s =
     (let pdi = addr_to_pdi addr
      in (if entry_present (load s pgdir pdi) then Some s
          else kalloc_frame VM_ZERO s \<bind> (\<lambda>(frame, s).
                 Some (store pgdir pdi (faddr s frame OR PE_P OR PE_RW OR PE_U) s))) \<bind> (\<lambda>s.
           kmap_tmp_page (entry_page (load s pgdir pdi)) s))"

definition do_map_pgtab :: "u32 \<Rightarrow> u32 \<Rightarrow> u32 \<Rightarrow> paging \<Rightarrow> paging option" where
  "do_map_pgtab phys_pgdir phys_pgtab addr s =
     kmap_tmp_page phys_pgdir s \<bind> (\<lambda>(pgdir, s).
       Some (kunmap_tmp_page pgdir (store pgdir (addr_to_pdi addr) (phys_pgtab OR PE_P OR PE_RW) s)))"

definition kmap_page_table :: "u32 \<Rightarrow> paging \<Rightarrow> (u32 \<times> paging) option" where
  "kmap_page_table addr s =
     (let pdi = addr_to_pdi addr
      in (if entry_present (phys s (kernel_pgdir s) pdi) then Some s
          else kalloc_frame VM_ZERO s \<bind> (\<lambda>(frame, s).
                 let s = set_word (kernel_pgdir s) pdi (faddr s frame OR PE_P OR PE_RW) s
                 in each (\<lambda>(alive, d) s. if alive then do_map_pgtab d (faddr s frame) addr s else Some s) (pgdirs s) s
                      \<bind> (\<lambda>s. each (\<lambda>husk s. do_map_pgtab (faddr s husk) (faddr s frame) addr s) (husk_list s) s)))
         \<bind> (\<lambda>s. kmap_tmp_page (entry_page (phys s (kernel_pgdir s) pdi)) s))"

definition knext_page_table :: "u32 \<Rightarrow> u32 \<Rightarrow> paging \<Rightarrow> (u32 \<times> paging) option" where
  "knext_page_table i pgtab s =
     (if i mod 1024 \<noteq> 0 then Some (pgtab, s) else kmap_page_table (i * FRAME_SIZE) (kunmap_tmp_page pgtab s))"

definition unext_page_table :: "u32 \<Rightarrow> u32 \<Rightarrow> u32 \<Rightarrow> paging \<Rightarrow> (u32 \<times> paging) option" where
  "unext_page_table i pgdir pgtab s =
     (if i mod 1024 \<noteq> 0 then Some (pgtab, s) else umap_page_table pgdir (i * FRAME_SIZE) (kunmap_tmp_page pgtab s))"

text \<open>The number of turns of \<^verbatim>\<open>for (i = start; i < start + n; i++)\<close>.\<close>

definition turns :: "u32 \<Rightarrow> u32 \<Rightarrow> nat" where
  "turns start n = (if start + n < start then 0 else unat n)"

primrec map_pages_loop :: "nat \<Rightarrow> u32 \<Rightarrow> u32 \<Rightarrow> u32 \<Rightarrow> u32 \<Rightarrow> paging \<Rightarrow> (u32 \<times> paging) option" where
  "map_pages_loop 0 i fl pgdir pgtab s = Some (pgtab, s)"
| "map_pages_loop (Suc n) i fl pgdir pgtab s =
     kalloc_frame fl s \<bind> (\<lambda>(frame, s).
       let s = store pgtab (unat (i mod 1024)) (faddr s frame OR PE_P OR vma_to_page_flags fl) s
       in unext_page_table (i + 1) pgdir pgtab s \<bind> (\<lambda>(pgtab, s).
            map_pages_loop n (i + 1) fl pgdir pgtab s))"

definition map_pages :: "u32 \<Rightarrow> u32 \<Rightarrow> u32 \<Rightarrow> u32 \<Rightarrow> paging \<Rightarrow> paging option" where
  "map_pages phys_pgdir dst pages fl s =
     kmap_tmp_page phys_pgdir s \<bind> (\<lambda>(pgdir, s).
       umap_page_table pgdir dst s \<bind> (\<lambda>(pgtab, s).
         map_pages_loop (turns (dst div FRAME_SIZE) pages) (dst div FRAME_SIZE) fl pgdir pgtab s \<bind> (\<lambda>(pgtab, s).
           Some (kunmap_tmp_page pgdir (kunmap_tmp_page pgtab s)))))"

definition map_frame :: "u32 \<Rightarrow> u32 \<Rightarrow> u32 \<Rightarrow> paging \<Rightarrow> paging option" where
  "map_frame frame addr fl s =
     umap_page_table current_pgdir addr s \<bind> (\<lambda>(pgtab, s).
       Some (kunmap_tmp_page pgtab
         (store pgtab (addr_to_pti addr) (faddr s frame OR PE_P OR vma_to_page_flags fl) s)))"

definition map_page :: "u32 \<Rightarrow> u32 \<Rightarrow> paging \<Rightarrow> paging option" where
  "map_page addr fl s = kalloc_frame fl s \<bind> (\<lambda>(frame, s). map_frame frame addr fl s)"

definition copy_page :: "u32 \<Rightarrow> u32 \<Rightarrow> paging \<Rightarrow> paging option" where
  "copy_page addr fl s =
     (let attr = vma_to_page_flags fl; pti = addr_to_pti addr
      in umap_page_table current_pgdir addr s \<bind> (\<lambda>(pgtab, s).
           if ref s (phys_to_info s (entry_page (load s pgtab pti))) = 1 then
             Some (kunmap_tmp_page pgtab (store pgtab pti (load s pgtab pti OR attr) s))
           else
             kalloc_frame fl s \<bind> (\<lambda>(frame, s).
               kmap_tmp_page (faddr s frame) s \<bind> (\<lambda>(tmp, s).
                 vpage s (page_base addr) \<bind> (\<lambda>src.
                   let s = kunmap_tmp_page tmp (s\<lparr>phys := (phys s)(aliased s tmp := phys s src)\<rparr>);
                       s = kfree_frame (phys_to_info s (entry_page (load s pgtab pti))) s;
                       s = store pgtab pti (faddr s frame OR PE_P OR attr) s
                   in Some (kunmap_tmp_page pgtab s))))))"

section \<open>Pages of the kernel's address space\<close>

text \<open>The search for \<^verbatim>\<open>n\<close> consecutive free pages has no limit; the result is the first one.\<close>

partial_function (option) find_pages ::
    "u32 \<Rightarrow> u32 \<Rightarrow> u32 \<Rightarrow> u32 \<Rightarrow> u32 \<Rightarrow> paging \<Rightarrow> (u32 \<times> u32 \<times> paging) option" where
  "find_pages n cnt start i pgtab s =
     (if entry_present (load s pgtab (unat (i mod 1024))) then
        knext_page_table (i + 1) pgtab s \<bind> (\<lambda>(pgtab, s). find_pages n 0 0 (i + 1) pgtab s)
      else
        let start = (if start = 0 then i else start)
        in if cnt + 1 = n then Some (start, pgtab, s)
           else knext_page_table (i + 1) pgtab s \<bind> (\<lambda>(pgtab, s). find_pages n (cnt + 1) start (i + 1) pgtab s))"

primrec kalloc_pages_loop :: "nat \<Rightarrow> u32 \<Rightarrow> u32 \<Rightarrow> paging \<Rightarrow> (u32 \<times> paging) option" where
  "kalloc_pages_loop 0 i pgtab s = Some (pgtab, s)"
| "kalloc_pages_loop (Suc n) i pgtab s =
     kalloc_frame 0 s \<bind> (\<lambda>(frame, s).
       let s = store pgtab (unat (i mod 1024)) (faddr s frame OR PE_P OR PE_RW) s
       in knext_page_table (i + 1) pgtab s \<bind> (\<lambda>(pgtab, s). kalloc_pages_loop n (i + 1) pgtab s))"

partial_function (option) find_first_free :: "u32 \<Rightarrow> u32 \<Rightarrow> paging \<Rightarrow> (u32 \<times> u32 \<times> paging) option" where
  "find_first_free i pgtab s =
     (if \<not> entry_present (load s pgtab (unat (i mod 1024))) then Some (i, pgtab, s)
      else knext_page_table (i + 1) pgtab s \<bind> (\<lambda>(pgtab, s). find_first_free (i + 1) pgtab s))"

definition kalloc_pages :: "u32 \<Rightarrow> paging \<Rightarrow> (u32 \<times> paging) option" where
  "kalloc_pages n s =
     kmap_page_table (first_free s * FRAME_SIZE) s \<bind> (\<lambda>(pgtab, s).
       find_pages n 0 0 (first_free s) pgtab s \<bind> (\<lambda>(start, pgtab, s).
         kmap_page_table (start * FRAME_SIZE) (kunmap_tmp_page pgtab s) \<bind> (\<lambda>(pgtab, s).
           kalloc_pages_loop (turns start n) start pgtab s \<bind> (\<lambda>(pgtab, s).
             let s = kunmap_tmp_page pgtab s
             in (if start = first_free s then
                   kmap_page_table ((start + n) * FRAME_SIZE) s \<bind> (\<lambda>(pgtab, s).
                     find_first_free (start + n) pgtab s \<bind> (\<lambda>(i, pgtab, s).
                       Some (kunmap_tmp_page pgtab (s\<lparr>first_free := i\<rparr>))))
                 else Some s) \<bind> (\<lambda>s. Some (start * FRAME_SIZE, s))))))"

primrec kfree_pages_loop :: "nat \<Rightarrow> u32 \<Rightarrow> u32 \<Rightarrow> paging \<Rightarrow> (u32 \<times> paging) option" where
  "kfree_pages_loop 0 i pgtab s = Some (pgtab, s)"
| "kfree_pages_loop (Suc n) i pgtab s =
     (let k = unat (i mod 1024);
          frame = phys_to_info s (entry_page (load s pgtab k));
          s = kfree_frame frame (store pgtab k 0 s)
      in knext_page_table (i + 1) pgtab s \<bind> (\<lambda>(pgtab, s). kfree_pages_loop n (i + 1) pgtab s))"

definition kfree_pages :: "u32 \<Rightarrow> u32 \<Rightarrow> paging \<Rightarrow> paging option" where
  "kfree_pages addr n s =
     (let start = addr div FRAME_SIZE
      in kmap_page_table addr s \<bind> (\<lambda>(pgtab, s).
           kfree_pages_loop (turns start n) start pgtab s \<bind> (\<lambda>(pgtab, s).
             let s = kunmap_tmp_page pgtab s
             in Some (if start < first_free s then s\<lparr>first_free := start\<rparr> else s))))"

section \<open>Initialisation\<close>

definition kernel_to_phys :: "u32 \<Rightarrow> u32" where
  "kernel_to_phys addr = addr - kernel_base"

definition phys_to_kernel :: "u32 \<Rightarrow> u32" where
  "phys_to_kernel addr = addr + kernel_base"

primrec direct_map_loop :: "nat \<Rightarrow> u32 \<Rightarrow> u32 \<Rightarrow> u32 \<Rightarrow> u32 \<Rightarrow> paging \<Rightarrow> (u32 \<times> paging) option" where
  "direct_map_loop 0 i start fl pgtab s = Some (pgtab, s)"
| "direct_map_loop (Suc n) i start fl pgtab s =
     (let first_page = start div FRAME_SIZE; addr = kernel_to_phys start + i * FRAME_SIZE;
          s = store pgtab (unat ((first_page + i) mod 1024)) (addr OR fl) s
      in knext_page_table (first_page + (i + 1)) pgtab s \<bind> (\<lambda>(pgtab, s).
           direct_map_loop n (i + 1) start fl pgtab s))"

text \<open>The last page table stays mapped.\<close>

definition direct_map :: "u32 \<Rightarrow> u32 \<Rightarrow> u32 \<Rightarrow> paging \<Rightarrow> paging option" where
  "direct_map start e fl s =
     kmap_page_table start s \<bind> (\<lambda>(pgtab, s).
       direct_map_loop (unat (align_up (e - start) FRAME_SIZE div FRAME_SIZE)) 0 start fl pgtab s \<bind> (\<lambda>(pgtab, s).
         Some s))"

definition init_frame :: "u32 \<Rightarrow> u32 \<Rightarrow> nat \<Rightarrow> paging \<Rightarrow> paging" where
  "init_frame start r i s =
     s\<lparr>faddr := (faddr s)(of_nat i := start + of_nat i * FRAME_SIZE), ref := (ref s)(of_nat i := r)\<rparr>"

definition add_tail_frame :: "nat \<Rightarrow> paging \<Rightarrow> paging" where
  "add_tail_frame i s = s\<lparr>frame_pool := frame_pool s @ [of_nat i]\<rparr>"

text \<open>\<open>ft\<close> gives the addresses of the two page tables \<^verbatim>\<open>ft_pgtabs\<close>, and a \<^verbatim>\<open>struct pf_info\<close> has 16 bytes.\<close>

definition frame_pool_init :: "(nat \<Rightarrow> u32) \<Rightarrow> u32 \<Rightarrow> u32 \<Rightarrow> paging \<Rightarrow> paging option" where
  "frame_pool_init ft start e s =
     (let v_start = phys_to_kernel start;
          nr_frames = align_up (e - start) FRAME_SIZE div FRAME_SIZE;
          ft_needed = (nr_frames * 16) div FRAME_SIZE + 1
      in if ft_needed > 2 * 1024 then None
         else
           let s = set_word (kernel_pgdir s) (addr_to_pdi v_start) (kernel_to_phys (ft 0) OR PE_P OR PE_RW) s;
               s = set_word (kernel_pgdir s) (addr_to_pdi v_start + 1) (kernel_to_phys (ft 1) OR PE_P OR PE_RW) s;
               s = fold (\<lambda>i. set_word (kernel_to_phys (ft (i div 1024))) (i mod 1024)
                              ((start + of_nat i * FRAME_SIZE) OR PE_P OR PE_RW)) [0..<unat ft_needed] s;
               s = s\<lparr>fp_start := start\<rparr>;
               s = fold (init_frame start 1) [0..<unat ft_needed] s;
               s = fold (\<lambda>i s. add_tail_frame i (init_frame start 0 i s)) [unat ft_needed..<unat nr_frames] s
           in Some (s\<lparr>first_free := v_start div FRAME_SIZE + ft_needed\<rparr>))"

text \<open>The information of the boot loader, and the addresses that the linker gives.\<close>

record multiboot_info =
  mb_flags :: u32
  mem_upper :: u32
  mods_addr :: u32
  mods :: "(u32 \<times> u32) list"
  elf_num :: u32
  elf_size :: u32
  elf_addr :: u32
  mmap_length :: u32
  mmap_addr :: u32

record layout =
  kend :: u32
  uro :: "u32 \<times> u32"
  kro :: "u32 \<times> u32"
  tmp_table :: u32
  ft_pgtabs :: "nat \<Rightarrow> u32"

definition mb_valid :: "nat \<Rightarrow> multiboot_info \<Rightarrow> bool" where
  "mb_valid flag info \<longleftrightarrow> mb_flags info AND push_bit flag 1 \<noteq> 0"

abbreviation (input) MULTIBOOT_MEM_VALID :: "multiboot_info \<Rightarrow> bool" where "MULTIBOOT_MEM_VALID \<equiv> mb_valid 0"
abbreviation (input) MULTIBOOT_MODS_VALID :: "multiboot_info \<Rightarrow> bool" where "MULTIBOOT_MODS_VALID \<equiv> mb_valid 3"
abbreviation (input) MULTIBOOT_ELFSEC_VALID :: "multiboot_info \<Rightarrow> bool" where "MULTIBOOT_ELFSEC_VALID \<equiv> mb_valid 5"
abbreviation (input) MULTIBOOT_MMAP_VALID :: "multiboot_info \<Rightarrow> bool" where "MULTIBOOT_MMAP_VALID \<equiv> mb_valid 6"

definition MULTIBOOT_MEM_MAX :: "multiboot_info \<Rightarrow> u32" where
  "MULTIBOOT_MEM_MAX info = 0x100000 + mem_upper info * 1024"

definition translate_mods :: "u32 \<Rightarrow> multiboot_info \<Rightarrow> u32 \<times> multiboot_info" where
  "translate_mods heap info =
     (let info = info\<lparr>mods_addr := phys_to_kernel (mods_addr info),
                      mods := map (\<lambda>(start, e). (phys_to_kernel start, phys_to_kernel e)) (mods info)\<rparr>
      in (fold (\<lambda>(start, e) heap. max heap e) (mods info) (max heap (mods_addr info)), info))"

text \<open>The highest address in use, and the information with virtual addresses.\<close>

definition translate_info :: "u32 \<Rightarrow> multiboot_info \<Rightarrow> u32 \<times> multiboot_info" where
  "translate_info heap info =
     (let (heap, info) = (if MULTIBOOT_MODS_VALID info then translate_mods heap info else (heap, info));
          info = (if MULTIBOOT_ELFSEC_VALID info then info\<lparr>elf_addr := phys_to_kernel (elf_addr info)\<rparr> else info);
          heap = (if MULTIBOOT_ELFSEC_VALID info then max heap (elf_addr info + elf_num info * elf_size info) else heap);
          info = (if MULTIBOOT_MMAP_VALID info then info\<lparr>mmap_addr := phys_to_kernel (mmap_addr info)\<rparr> else info);
          heap = (if MULTIBOOT_MMAP_VALID info then max heap (mmap_addr info + mmap_length info) else heap)
      in (heap, info))"

definition mem_init :: "layout \<Rightarrow> multiboot_info \<Rightarrow> paging \<Rightarrow> (multiboot_info \<times> paging) option" where
  "mem_init L info s =
     (let (heap, info) = translate_info (page_align (kend L)) info;
          heap = kernel_to_phys ((page_align heap + 0x00500000) AND 0xFFC00000);
          info = (if MULTIBOOT_MEM_VALID info then info else info\<lparr>mem_upper := 0x800000\<rparr>)
      in frame_pool_init (ft_pgtabs L) heap (page_base (MULTIBOOT_MEM_MAX info)) s \<bind> (\<lambda>s.
           let s = page_attr_off (kernel_pgdir s) (fst (uro L)) (snd (uro L)) PE_RW s;
               s = page_attr_off (kernel_pgdir s) (fst (kro L)) (snd (kro L)) PE_RW s;
               t = kernel_to_phys (tmp_table L);
               s = set_word (kernel_pgdir s) (addr_to_pdi TMP_PGTAB_BASE) (t OR PE_P OR PE_RW) s;
               s = set_word t 1022 (t OR PE_P OR PE_RW) s;
               s = set_word t 1023 (kernel_pgdir s OR PE_P OR PE_RW) s;
               s = fold (\<lambda>i s. set_word (kernel_pgdir s) i 0 s) [0..<16] s
           in (if MULTIBOOT_MODS_VALID info then each (\<lambda>(start, e). direct_map start e (PE_P OR PE_RW)) (mods info) s
               else Some s) \<bind> (\<lambda>s. Some (info, s))))"

end
