(* ===== verification/Paging_Spec.thy ===== *)
theory Paging_Spec
  imports Paging
begin

text \<open>
  The page tables as a map from page numbers to entries, and the operations of \<^verbatim>\<open>src/kernel/paging.c\<close> on it.
\<close>

section \<open>Entries and temporary addresses\<close>

lemma entry_page_idem [simp]: "entry_page (entry_page e) = entry_page e"
  by (simp add: entry_page_def and.assoc)

lemma entry_page_or: "entry_page (a OR b) = entry_page a OR entry_page b"
  by (simp add: entry_page_def bit.conj_disj_distrib2)

lemma entry_page_flags [simp]: "entry_page 1 = 0" "entry_page 2 = 0" "entry_page 3 = 0" "entry_page 4 = 0" "entry_page 7 = 0" "entry_page 0 = 0"
  by (simp_all add: entry_page_def)

lemma entry_page_attr [simp]: "entry_page (vma_to_page_flags fl) = 0"
  by (simp add: vma_to_page_flags_def entry_page_or)

lemma entry_present_bit: "entry_present e \<longleftrightarrow> bit e 0"
  by (simp add: entry_present_def bit_0 and_one_eq odd_iff_mod_2_eq_one)

lemma entry_present_or [simp]: "entry_present (a OR b) \<longleftrightarrow> entry_present a \<or> entry_present b"
  by (simp add: entry_present_bit bit_or_iff)

lemma entry_present_num [simp]: "\<not> entry_present 0" "entry_present 1" "entry_present 3" "entry_present 7" "\<not> entry_present 2"
  by (simp_all add: entry_present_def)

lemma aligned_low:
  assumes "entry_page a = a"
  shows "a AND 0xFFF = 0"
proof -
  have "a AND 0xFFF = (a AND NOT 0xFFF) AND 0xFFF" using assms by (simp only: entry_page_def)
  also have "\<dots> = 0" by (simp only: and.assoc bit.conj_cancel_left bit.conj_zero_right)
  finally show ?thesis .
qed

lemma field_of: "drop_bit j (a AND push_bit j (mask k)) = take_bit k (drop_bit j (a :: u32))"
  by (rule bit_word_eqI) (auto simp: bit_simps dest: bit_imp_le_length)

lemma addr_to_pti_nat: "addr_to_pti a = unat a div 4096 mod 1024"
proof -
  have "(0x003FF000 :: u32) = push_bit 12 (mask 10)" by (simp add: mask_eq_exp_minus_1)
  then have "addr_to_pti a = unat (take_bit 10 (drop_bit 12 a))" unfolding addr_to_pti_def by (simp only: field_of)
  then show ?thesis by (simp only: unat_take_bit_word unat_drop) simp
qed

lemma addr_to_pdi_nat: "addr_to_pdi a = unat a div 4194304"
proof -
  have "(0xFFC00000 :: u32) = push_bit 22 (mask 10)" by (simp add: mask_eq_exp_minus_1)
  then have "addr_to_pdi a = unat (take_bit 10 (drop_bit 22 a))" unfolding addr_to_pdi_def by (simp only: field_of)
  then show ?thesis
    using u32_bound [of a] by (simp only: unat_take_bit_word unat_drop) (simp add: div_less_iff_less_mult)
qed

lemma tmp_index:
  assumes "i < 1024"
  shows "addr_to_pti (TMP_PGTAB_BASE + of_nat i * FRAME_SIZE) = i"
proof -
  have "unat (TMP_PGTAB_BASE + of_nat i * FRAME_SIZE) = (i + 1023 * 1024) * 4096"
    using assms by (simp add: unat_word_ariths unat_of_nat)
  then have "addr_to_pti (TMP_PGTAB_BASE + of_nat i * FRAME_SIZE) = (i + 1023 * 1024) mod 1024"
    by (simp only: addr_to_pti_nat) (simp only: nonzero_mult_div_cancel_right)
  then show ?thesis using assms by (simp only: mod_mult_self1) simp
qed

lemma high_index: "addr_to_pti current_pgdir = 1023"
  by code_simp

lemma page_index:
  assumes "v < 2 ^ 20"
  shows "addr_to_pdi (of_nat v * FRAME_SIZE) = v div 1024" "addr_to_pti (of_nat v * FRAME_SIZE) = v mod 1024"
proof -
  have "unat (of_nat v * FRAME_SIZE) = v * 4096" using assms by (simp add: unat_word_ariths unat_of_nat)
  then show "addr_to_pdi (of_nat v * FRAME_SIZE) = v div 1024" "addr_to_pti (of_nat v * FRAME_SIZE) = v mod 1024"
    by (simp_all add: addr_to_pdi_nat addr_to_pti_nat)
qed

section \<open>The temporary page table\<close>

text \<open>A state with the temporary page table \<open>T\<close>.\<close>

definition with_tmp :: "(nat \<Rightarrow> u32) \<Rightarrow> paging \<Rightarrow> paging" where
  "with_tmp T s = s\<lparr>phys := (phys s)(tmp_pgtab s := T)\<rparr>"

definition tmp_sep :: "paging \<Rightarrow> bool" where
  "tmp_sep s \<longleftrightarrow> tmp_pgtab s \<noteq> cr3 s"

definition slots :: "(nat \<Rightarrow> u32) \<Rightarrow> nat set" where
  "slots T = {i. 4 \<le> i \<and> i < 1018 \<and> \<not> entry_present (T i)}"

text \<open>Two tables with the same mappings.\<close>

definition same_tmp :: "(nat \<Rightarrow> u32) \<Rightarrow> (nat \<Rightarrow> u32) \<Rightarrow> bool" where
  "same_tmp T T' \<longleftrightarrow> (\<forall>i. entry_present (T' i) = entry_present (T i) \<and> (entry_present (T i) \<longrightarrow> T' i = T i))"

lemma with_tmp_self: "with_tmp (phys s (tmp_pgtab s)) s = s"
  by (simp add: with_tmp_def)

lemma with_tmp_fields [simp]:
  "faddr (with_tmp T s) = faddr s" "ref (with_tmp T s) = ref s" "frame_pool (with_tmp T s) = frame_pool s"
  "fp_start (with_tmp T s) = fp_start s" "cr3 (with_tmp T s) = cr3 s" "kernel_pgdir (with_tmp T s) = kernel_pgdir s"
  "husks (with_tmp T s) = husks s" "husk_list (with_tmp T s) = husk_list s" "pgdirs (with_tmp T s) = pgdirs s"
  "first_free (with_tmp T s) = first_free s" "phys_to_info (with_tmp T s) = phys_to_info s"
  by (simp_all add: with_tmp_def phys_to_info_def fun_eq_iff)

lemma set_word_fields [simp]:
  "faddr (set_word a i w s) = faddr s" "ref (set_word a i w s) = ref s" "frame_pool (set_word a i w s) = frame_pool s"
  "fp_start (set_word a i w s) = fp_start s" "cr3 (set_word a i w s) = cr3 s" "kernel_pgdir (set_word a i w s) = kernel_pgdir s"
  "phys_to_info (set_word a i w s) = phys_to_info s"
  by (simp_all add: set_word_def phys_to_info_def fun_eq_iff)

lemma phys_set_word: "phys (set_word a i w s) b j = (if b = a \<and> j = i then w else phys s b j)"
  by (simp add: set_word_def)

lemma tmp_pgtab_with [simp]: "tmp_sep s \<Longrightarrow> tmp_pgtab (with_tmp T s) = tmp_pgtab s"
  by (simp add: tmp_sep_def tmp_pgtab_def with_tmp_def)

lemma tmp_pgtab_set_word [simp]: "a \<noteq> cr3 s \<or> i \<noteq> 1023 \<Longrightarrow> tmp_pgtab (set_word a i w s) = tmp_pgtab s"
  by (auto simp: tmp_pgtab_def phys_set_word)

lemma tmp_sep_with [simp]: "tmp_sep s \<Longrightarrow> tmp_sep (with_tmp T s)"
  by (simp add: tmp_sep_def)

lemma tmp_sep_set_word [simp]: "a \<noteq> cr3 s \<or> i \<noteq> 1023 \<Longrightarrow> tmp_sep (set_word a i w s) = tmp_sep s"
  by (simp add: tmp_sep_def)

lemma with_tmp_twice [simp]: "tmp_sep s \<Longrightarrow> with_tmp T' (with_tmp T s) = with_tmp T' s"
  by (simp add: with_tmp_def tmp_pgtab_def tmp_sep_def)

lemma set_word_tmp [simp]: "tmp_sep s \<Longrightarrow> set_word (tmp_pgtab s) i w (with_tmp T s) = with_tmp (T(i := w)) s"
  by (simp add: with_tmp_def set_word_def)

lemma phys_with_tmp: "tmp_sep s \<Longrightarrow> phys (with_tmp T s) a = (if a = tmp_pgtab s then T else phys s a)"
  by (simp add: with_tmp_def)

lemma aliased_with [simp]: "tmp_sep s \<Longrightarrow> aliased (with_tmp T s) p = entry_page (T (addr_to_pti p))"
  by (simp add: aliased_def phys_with_tmp)

lemma load_with: "tmp_sep s \<Longrightarrow> entry_page (T (addr_to_pti p)) \<noteq> tmp_pgtab s \<Longrightarrow>
  load (with_tmp T s) p i = phys s (entry_page (T (addr_to_pti p))) i"
  by (simp add: load_def phys_with_tmp)

lemma set_word_with:
  assumes "tmp_sep s" "a \<noteq> tmp_pgtab s" "a \<noteq> cr3 s \<or> i \<noteq> 1023"
  shows "set_word a i w (with_tmp T s) = with_tmp T (set_word a i w s)"
proof -
  have "tmp_pgtab (set_word a i w s) = tmp_pgtab s" using assms(3) by simp
  then show ?thesis using assms(1,2) unfolding with_tmp_def set_word_def by (simp add: fun_upd_twist)
qed

lemma store_with:
  assumes "tmp_sep s" "entry_page (T (addr_to_pti p)) = a" "a \<noteq> tmp_pgtab s" "a \<noteq> cr3 s \<or> i \<noteq> 1023"
  shows "store p i w (with_tmp T s) = with_tmp T (set_word a i w s)"
  using assms set_word_with by (simp add: store_def)

lemma kunmap_with [simp]: "tmp_sep s \<Longrightarrow> kunmap_tmp_page p (with_tmp T s) = with_tmp (T(addr_to_pti p := 0)) s"
  by (simp add: kunmap_tmp_page_def)

lemma kmap_with:
  assumes "tmp_sep s" "entry_page a = a" "slots T \<noteq> {}"
  obtains p where "addr_to_pti p \<in> slots T"
    "kmap_tmp_page a (with_tmp T s) = Some (p, with_tmp (T(addr_to_pti p := a OR PE_P OR PE_RW)) s)"
proof -
  define ks where "ks = [NR_RESERVED_PAGES..<1024 - NR_HIGH_PAGES]"
  have set_ks: "set ks = {4..<1018}" by (simp add: ks_def del: upt_rec_numeral)
  have "\<exists>x \<in> set ks. \<not> entry_present (T x)" using assms(3) by (auto simp: slots_def set_ks)
  then obtain i where i: "List.find (\<lambda>i. \<not> entry_present (T i)) ks = Some i"
    by (cases "List.find (\<lambda>i. \<not> entry_present (T i)) ks") (auto simp: find_None_iff)
  then have "i \<in> set ks \<and> \<not> entry_present (T i)" by (auto simp: find_Some_iff)
  then have "i \<in> slots T" by (auto simp: slots_def set_ks)
  moreover have "kmap_tmp_page a (with_tmp T s) =
    Some (TMP_PGTAB_BASE + of_nat i * FRAME_SIZE, with_tmp (T(i := a OR PE_P OR PE_RW)) s)"
    unfolding kmap_tmp_page_def ks_def [symmetric] using i assms(1) aligned_low [OF assms(2)] by (simp add: phys_with_tmp)
  moreover have "addr_to_pti (TMP_PGTAB_BASE + of_nat i * FRAME_SIZE) = i"
    using \<open>i \<in> slots T\<close> by (intro tmp_index) (simp add: slots_def)
  ultimately show thesis using that by metis
qed

lemma same_tmp_refl [simp]: "same_tmp T T"
  by (simp add: same_tmp_def)

lemma same_tmp_trans: "same_tmp T T' \<Longrightarrow> same_tmp T' T'' \<Longrightarrow> same_tmp T T''"
  by (simp add: same_tmp_def)

lemma same_tmp_clear: "i \<in> slots T \<Longrightarrow> same_tmp T (T(i := 0))"
  by (simp add: same_tmp_def slots_def)

lemma slots_same: "same_tmp T T' \<Longrightarrow> slots T' = slots T"
  by (simp add: same_tmp_def slots_def)

lemma slots_upd: "slots (T(i := w)) = (if entry_present w then slots T - {i} else slots T \<union> ({i} \<inter> {4..<1018}))"
  by (auto simp: slots_def)

lemma finite_slots [simp]: "finite (slots T)"
  by (rule finite_subset [of _ "{..<1018}"]) (auto simp: slots_def)

section \<open>Taking a frame\<close>

definition take_frame :: "u32 \<Rightarrow> paging \<Rightarrow> paging" where
  "take_frame fl s =
     (let f = hd (frame_pool s)
      in s\<lparr>frame_pool := tl (frame_pool s), ref := (ref s)(f := 1),
           phys := if fl AND VM_ZERO \<noteq> 0 then (phys s)(faddr s f := (\<lambda>_. 0)) else phys s\<rparr>)"

text \<open>The free frames are pages of their own.\<close>

definition pool_ok :: "paging \<Rightarrow> bool" where
  "pool_ok s \<longleftrightarrow> tmp_sep s \<and> distinct (frame_pool s) \<and> inj_on (faddr s) (set (frame_pool s)) \<and>
     (\<forall>f \<in> set (frame_pool s). entry_page (faddr s f) = faddr s f \<and> faddr s f \<noteq> tmp_pgtab s \<and> faddr s f \<noteq> cr3 s)"

lemma take_frame_fields [simp]:
  "faddr (take_frame fl s) = faddr s" "cr3 (take_frame fl s) = cr3 s" "fp_start (take_frame fl s) = fp_start s"
  "frame_pool (take_frame fl s) = tl (frame_pool s)" "phys_to_info (take_frame fl s) = phys_to_info s"
  "ref (take_frame fl s) = (ref s)(hd (frame_pool s) := 1)"
  by (simp_all add: take_frame_def Let_def phys_to_info_def fun_eq_iff)

lemma phys_take_frame:
  "phys (take_frame fl s) a = (if fl AND VM_ZERO \<noteq> 0 \<and> a = faddr s (hd (frame_pool s)) then (\<lambda>_. 0) else phys s a)"
  by (simp add: take_frame_def Let_def)

lemma tmp_pgtab_take [simp]:
  assumes "pool_ok s" "frame_pool s \<noteq> []"
  shows "tmp_pgtab (take_frame fl s) = tmp_pgtab s"
  using assms hd_in_set [OF assms(2)] by (auto simp: pool_ok_def tmp_pgtab_def phys_take_frame)

lemma pool_ok_take:
  assumes "pool_ok s" "frame_pool s \<noteq> []"
  shows "pool_ok (take_frame fl s)"
  using assms by (cases "frame_pool s") (auto simp: pool_ok_def tmp_sep_def)

lemma kalloc_with:
  assumes ok: "pool_ok s" and ne: "frame_pool s \<noteq> []" and sl: "slots T \<noteq> {}"
  obtains T' where "kalloc_frame fl (with_tmp T s) = Some (hd (frame_pool s), with_tmp T' (take_frame fl s))" "same_tmp T T'"
proof (cases "fl AND VM_ZERO = 0")
  case True
  have "kalloc_frame fl (with_tmp T s) = Some (hd (frame_pool s), with_tmp T (take_frame fl s))"
    using True ne tmp_pgtab_take [OF ok ne, of fl]
    by (cases "frame_pool s") (simp_all add: kalloc_frame_def take_frame_def with_tmp_def Let_def)
  then show thesis using that by simp
next
  case False
  obtain f fs where p: "frame_pool s = f # fs" using ne by (cases "frame_pool s") auto
  define s1 where "s1 = s\<lparr>frame_pool := fs, ref := (ref s)(f := 1)\<rparr>"
  have t1: "tmp_pgtab s1 = tmp_pgtab s" "tmp_sep s1" using ok by (simp_all add: s1_def tmp_pgtab_def pool_ok_def tmp_sep_def)
  have f: "entry_page (faddr s f) = faddr s f" "faddr s f \<noteq> tmp_pgtab s" "faddr s f \<noteq> cr3 s"
    using ok p by (simp_all add: pool_ok_def)
  obtain q where q: "addr_to_pti q \<in> slots T"
    "kmap_tmp_page (faddr s f) (with_tmp T s1) = Some (q, with_tmp (T(addr_to_pti q := faddr s f OR PE_P OR PE_RW)) s1)"
    using kmap_with [OF t1(2) f(1) sl] by blast
  define T1 where "T1 = T(addr_to_pti q := faddr s f OR PE_P OR PE_RW)"
  have al: "aliased (with_tmp T1 s1) q = faddr s f" using t1(2) f(1) by (simp add: T1_def entry_page_or)
  have w: "(with_tmp T1 s1)\<lparr>phys := (phys (with_tmp T1 s1))(faddr s f := (\<lambda>_. 0))\<rparr> = with_tmp T1 (take_frame fl s)"
    using False p f(2) tmp_pgtab_take [OF ok ne, of fl] t1(1)
    by (simp add: with_tmp_def take_frame_def s1_def Let_def fun_upd_twist)
  have s1: "(with_tmp T s)\<lparr>frame_pool := fs, ref := (ref (with_tmp T s))(f := 1)\<rparr> = with_tmp T s1"
    by (simp add: s1_def with_tmp_def tmp_pgtab_def)
  have sep: "tmp_sep (take_frame fl s)" using pool_ok_take [OF ok ne] by (simp add: pool_ok_def)
  have "kalloc_frame fl (with_tmp T s) = Some (f, kunmap_tmp_page q (with_tmp T1 (take_frame fl s)))"
    using False p q(2) [folded T1_def] al w s1 by (simp add: kalloc_frame_def Let_def)
  also have "kunmap_tmp_page q (with_tmp T1 (take_frame fl s)) = with_tmp (T(addr_to_pti q := 0)) (take_frame fl s)"
    using sep by (simp add: T1_def)
  finally show thesis using that p same_tmp_clear [OF q(1)] by simp
qed

section \<open>Address spaces\<close>

definition free_pages :: "paging \<Rightarrow> u32 set" where
  "free_pages s = faddr s ` set (frame_pool s)"

abbreviation table :: "paging \<Rightarrow> u32 \<Rightarrow> nat \<Rightarrow> u32" where
  "table s D i \<equiv> entry_page (phys s D i)"

text \<open>
  \<open>dir_ok D s\<close>: the page directory \<open>D\<close> and the page tables of its user half are different pages in use, apart
  from the temporary page table and the running process's directory.
\<close>

definition dir_ok :: "u32 \<Rightarrow> paging \<Rightarrow> bool" where
  "dir_ok D s \<longleftrightarrow> pool_ok s \<and> entry_page D = D \<and> D \<noteq> tmp_pgtab s \<and> D \<notin> free_pages s \<and>
     (\<forall>i < 768. entry_present (phys s D i) \<longrightarrow>
        table s D i \<notin> free_pages s \<and> table s D i \<notin> {tmp_pgtab s, D, cr3 s}) \<and>
     (\<forall>i < 768. \<forall>j < 768. entry_present (phys s D i) \<longrightarrow> entry_present (phys s D j) \<longrightarrow>
        table s D i = table s D j \<longrightarrow> i = j)"

text \<open>The entry of a page, by its number, if the page is mapped.\<close>

definition mapped :: "paging \<Rightarrow> u32 \<Rightarrow> nat \<Rightarrow> u32 option" where
  "mapped s D v =
     (let pde = phys s D (v div 1024); pte = phys s (entry_page pde) (v mod 1024)
      in if entry_present pde \<and> entry_present pte then Some pte else None)"

definition ensure_table :: "u32 \<Rightarrow> nat \<Rightarrow> paging \<Rightarrow> paging" where
  "ensure_table D i s =
     (if entry_present (phys s D i) then s
      else set_word D i (faddr s (hd (frame_pool s)) OR PE_P OR PE_RW OR PE_U) (take_frame VM_ZERO s))"

lemma dir_okD:
  assumes "dir_ok D s"
  shows "pool_ok s" "tmp_sep s" "entry_page D = D" "D \<noteq> tmp_pgtab s" "D \<notin> free_pages s"
    "i < 768 \<Longrightarrow> entry_present (phys s D i) \<Longrightarrow> table s D i \<notin> free_pages s"
    "i < 768 \<Longrightarrow> entry_present (phys s D i) \<Longrightarrow> table s D i \<noteq> tmp_pgtab s"
    "i < 768 \<Longrightarrow> entry_present (phys s D i) \<Longrightarrow> table s D i \<noteq> D"
    "i < 768 \<Longrightarrow> entry_present (phys s D i) \<Longrightarrow> table s D i \<noteq> cr3 s"
    "i < 768 \<Longrightarrow> j < 768 \<Longrightarrow> entry_present (phys s D i) \<Longrightarrow> entry_present (phys s D j) \<Longrightarrow> table s D i = table s D j \<Longrightarrow> i = j"
  using assms by (simp_all add: dir_ok_def pool_ok_def)

lemma head_frame:
  assumes "pool_ok s" "frame_pool s \<noteq> []"
  shows "faddr s (hd (frame_pool s)) \<in> free_pages s" "entry_page (faddr s (hd (frame_pool s))) = faddr s (hd (frame_pool s))"
    "faddr s (hd (frame_pool s)) \<noteq> tmp_pgtab s" "faddr s (hd (frame_pool s)) \<noteq> cr3 s"
    "faddr s (hd (frame_pool s)) \<notin> free_pages (take_frame fl s)" "free_pages (take_frame fl s) \<subseteq> free_pages s"
proof -
  obtain f fs where p: "frame_pool s = f # fs" using assms(2) by (cases "frame_pool s") auto
  then show "faddr s (hd (frame_pool s)) \<in> free_pages s" "entry_page (faddr s (hd (frame_pool s))) = faddr s (hd (frame_pool s))"
    "faddr s (hd (frame_pool s)) \<noteq> tmp_pgtab s" "faddr s (hd (frame_pool s)) \<noteq> cr3 s"
    "faddr s (hd (frame_pool s)) \<notin> free_pages (take_frame fl s)" "free_pages (take_frame fl s) \<subseteq> free_pages s"
    using assms(1) by (auto simp: free_pages_def pool_ok_def)
qed

lemma take_frame_other: "pool_ok s \<Longrightarrow> frame_pool s \<noteq> [] \<Longrightarrow> a \<notin> free_pages s \<Longrightarrow> phys (take_frame fl s) a = phys s a"
  using head_frame(1) by (auto simp: phys_take_frame)

lemma dir_ok_take:
  assumes ok: "dir_ok D s" and ne: "frame_pool s \<noteq> []"
  shows "dir_ok D (take_frame fl s)" "v < 768 * 1024 \<Longrightarrow> mapped (take_frame fl s) D v = mapped s D v"
proof -
  note d = dir_okD [OF ok] and h = head_frame [OF dir_okD(1) [OF ok] ne]
  have D: "phys (take_frame fl s) D = phys s D" using take_frame_other [OF d(1) ne d(5)] .
  have less: "a \<notin> free_pages (take_frame fl s)" if "a \<notin> free_pages s" for a using h(6) that by blast
  show "dir_ok D (take_frame fl s)"
    unfolding dir_ok_def D using d less pool_ok_take [OF d(1) ne] tmp_pgtab_take [OF d(1) ne] by simp
  show "mapped (take_frame fl s) D v = mapped s D v" if "v < 768 * 1024"
    using take_frame_other [OF d(1) ne d(6)] that by (auto simp: mapped_def D Let_def)
qed

text \<open>A new page table.\<close>

lemma ensure_facts:
  assumes ok: "dir_ok D s" and ne: "entry_present (phys s D i) \<or> frame_pool s \<noteq> []" and i: "i < 768"
  shows "entry_present (phys (ensure_table D i s) D i)" "faddr (ensure_table D i s) = faddr s"
    "cr3 (ensure_table D i s) = cr3 s" "tmp_pgtab (ensure_table D i s) = tmp_pgtab s"
    "dir_ok D (ensure_table D i s)"
    "v < 768 * 1024 \<Longrightarrow> mapped (ensure_table D i s) D v = mapped s D v"
    "a \<noteq> D \<Longrightarrow> a \<notin> free_pages s \<Longrightarrow> phys (ensure_table D i s) a = phys s a"
proof -
  have *: "entry_present (phys (ensure_table D i s) D i) \<and> faddr (ensure_table D i s) = faddr s \<and>
    cr3 (ensure_table D i s) = cr3 s \<and> tmp_pgtab (ensure_table D i s) = tmp_pgtab s \<and>
    dir_ok D (ensure_table D i s) \<and>
    (v < 768 * 1024 \<longrightarrow> mapped (ensure_table D i s) D v = mapped s D v) \<and>
    (a \<noteq> D \<longrightarrow> a \<notin> free_pages s \<longrightarrow> phys (ensure_table D i s) a = phys s a)"
  proof (cases "entry_present (phys s D i)")
    case True
    then show ?thesis using ok by (simp add: ensure_table_def)
  next
    case False
    then have p: "frame_pool s \<noteq> []" using ne by simp
    define F where "F = faddr s (hd (frame_pool s))"
    define s1 where "s1 = take_frame VM_ZERO s"
    define s2 where "s2 = set_word D i (F OR PE_P OR PE_RW OR PE_U) s1"
    note d = dir_okD [OF ok] and h = head_frame [OF dir_okD(1) [OF ok] p, folded F_def]
    have d1: "dir_ok D s1" unfolding s1_def using dir_ok_take(1) [OF ok p] .
    note e = dir_okD [OF d1]
    have F: "F \<notin> free_pages s1" "F \<noteq> D" "F \<noteq> tmp_pgtab s1" "F \<noteq> cr3 s1"
      unfolding s1_def using h d(5) tmp_pgtab_take [OF d(1) p] by auto
    have D1: "phys s1 D = phys s D" unfolding s1_def using take_frame_other [OF d(1) p d(5)] .
    have fresh: "F \<noteq> table s D j" if "j < 768" "entry_present (phys s D j)" for j using d(6) [OF that] h(1) by auto
    have t2: "tmp_pgtab s2 = tmp_pgtab s1" unfolding s2_def using i by simp
    have fr: "free_pages s2 = free_pages s1" by (simp add: s2_def free_pages_def)
    have E: "ensure_table D i s = s2" using False by (simp add: ensure_table_def s2_def s1_def F_def)
    have D2: "phys s2 D j = (if j = i then F OR PE_P OR PE_RW OR PE_U else phys s D j)" for j
      by (simp add: s2_def phys_set_word D1)
    have tab: "table s2 D j = (if j = i then F else table s D j)" for j
      using h(2) by (simp add: D2 entry_page_or)
    have pool2: "pool_ok s2" using e(1) i t2 by (simp add: pool_ok_def s2_def)
    have c2: "cr3 s2 = cr3 s1" by (simp add: s2_def)
    have ok2: "dir_ok D s2"
      unfolding dir_ok_def fr t2 c2 tab unfolding D2
      using pool2 e(3,4,5) F fresh e(6,7,8,9,10) i unfolding D1 by auto
    have z: "phys s2 F = (\<lambda>_. 0)" using F(2) by (simp add: s2_def set_word_def s1_def phys_take_frame F_def)
    have oth: "phys s2 a = phys s a" if "a \<noteq> D" "a \<notin> free_pages s" for a
      using that take_frame_other [OF d(1) p that(2)] by (simp add: s2_def set_word_def s1_def)
    have "mapped s2 D v = mapped s D v" if "v < 768 * 1024"
    proof (cases "v div 1024 = i")
      case True
      then show ?thesis using False z unfolding mapped_def Let_def tab unfolding D2 by simp
    next
      case False
      have "v div 1024 < 768" using that by auto
      then show ?thesis using False oth d(6,8) unfolding mapped_def Let_def tab unfolding D2 by auto
    qed
    then show ?thesis
      unfolding E using ok2 oth t2 tmp_pgtab_take [OF d(1) p] by (simp add: D2) (simp add: s2_def s1_def)
  qed
  then show "entry_present (phys (ensure_table D i s) D i)" "faddr (ensure_table D i s) = faddr s"
    "cr3 (ensure_table D i s) = cr3 s" "tmp_pgtab (ensure_table D i s) = tmp_pgtab s"
    "dir_ok D (ensure_table D i s)"
    "v < 768 * 1024 \<Longrightarrow> mapped (ensure_table D i s) D v = mapped s D v"
    "a \<noteq> D \<Longrightarrow> a \<notin> free_pages s \<Longrightarrow> phys (ensure_table D i s) a = phys s a" by simp_all
qed

text \<open>\<^verbatim>\<open>umap_page_table\<close> through a pointer to the directory.\<close>

lemma umap_with:
  assumes ok: "dir_ok D s" and i: "addr_to_pdi addr = i" "i < 768"
    and ne: "entry_present (phys s D i) \<or> frame_pool s \<noteq> []"
    and p: "entry_present (T (addr_to_pti p))" "entry_page (T (addr_to_pti p)) = D" and sl: "slots T \<noteq> {}"
  obtains q T' where "addr_to_pti q \<in> slots T" "same_tmp T T'"
    "umap_page_table p addr (with_tmp T s) =
       Some (q, with_tmp (T'(addr_to_pti q := table (ensure_table D i s) D i OR PE_P OR PE_RW)) (ensure_table D i s))"
proof -
  note d = dir_okD [OF ok]
  let ?e = "ensure_table D i s"
  note e = ensure_facts [OF ok ne i(2)]
  have ld: "load (with_tmp T s) p i = phys s D i" using load_with [of s T p i] d(2,4) p(2) by simp
  obtain T' where T': "same_tmp T T'"
    "(if entry_present (load (with_tmp T s) p i) then Some (with_tmp T s)
      else kalloc_frame VM_ZERO (with_tmp T s) \<bind> (\<lambda>(frame, s).
             Some (store p i (faddr s frame OR PE_P OR PE_RW OR PE_U) s))) = Some (with_tmp T' ?e)"
  proof (cases "entry_present (phys s D i)")
    case True
    then show thesis using that [OF same_tmp_refl] ld by (simp add: ensure_table_def)
  next
    case False
    then have pool: "frame_pool s \<noteq> []" using ne by simp
    obtain T' where T': "kalloc_frame VM_ZERO (with_tmp T s) = Some (hd (frame_pool s), with_tmp T' (take_frame VM_ZERO s))"
      "same_tmp T T'" using kalloc_with [OF d(1) pool sl] by blast
    have p': "T' (addr_to_pti p) = T (addr_to_pti p)" using T'(2) p(1) by (simp add: same_tmp_def)
    have d1: "tmp_sep (take_frame VM_ZERO s)" "D \<noteq> tmp_pgtab (take_frame VM_ZERO s)"
      using dir_okD(2,4) [OF dir_ok_take(1) [OF ok pool]] .
    have "store p i w (with_tmp T' (take_frame VM_ZERO s)) = with_tmp T' (set_word D i w (take_frame VM_ZERO s))" for w
      using store_with [OF d1(1), of T' p D] p p' d1(2) i(2) by simp
    then show thesis using that [OF T'(2)] T'(1) False ld by (simp add: ensure_table_def)
  qed
  have sl': "slots T' \<noteq> {}" using slots_same [OF T'(1)] sl by simp
  obtain q where q: "addr_to_pti q \<in> slots T'"
    "kmap_tmp_page (table ?e D i) (with_tmp T' ?e) = Some (q, with_tmp (T'(addr_to_pti q := table ?e D i OR PE_P OR PE_RW)) ?e)"
    using kmap_with [OF dir_okD(2) [OF e(5)] entry_page_idem sl'] by blast
  have "T' (addr_to_pti p) = T (addr_to_pti p)" using T'(1) p(1) by (simp add: same_tmp_def)
  then have "load (with_tmp T' ?e) p i = phys ?e D i"
    using load_with [of ?e T' p i] dir_okD(2,4) [OF e(5)] p(2) by simp
  then have "umap_page_table p addr (with_tmp T s) =
      Some (q, with_tmp (T'(addr_to_pti q := table ?e D i OR PE_P OR PE_RW)) ?e)"
    using T'(2) q(2) i(1) by (simp add: umap_page_table_def)
  then show thesis using that [OF _ T'(1)] q(1) slots_same [OF T'(1)] by simp
qed

text \<open>A new entry.\<close>

lemma enter_facts:
  assumes ok: "dir_ok D s" and v: "v < 768 * 1024" "entry_present (phys s D (v div 1024))" and w: "entry_present w"
  defines "s' \<equiv> set_word (table s D (v div 1024)) (v mod 1024) w s"
  shows "dir_ok D s'" "u < 768 * 1024 \<Longrightarrow> mapped s' D u = (if u = v then Some w else mapped s D u)"
    "phys s' D = phys s D" "tmp_pgtab s' = tmp_pgtab s"
proof -
  note d = dir_okD [OF ok]
  have i: "v div 1024 < 768" using v(1) by auto
  let ?t = "table s D (v div 1024)"
  have t: "?t \<noteq> D" "?t \<noteq> cr3 s" "?t \<noteq> tmp_pgtab s" using d(7,8,9) [OF i v(2)] by simp_all
  show D: "phys s' D = phys s D" using t(1) by (simp add: s'_def set_word_def)
  show tp: "tmp_pgtab s' = tmp_pgtab s" unfolding s'_def using t(2) by simp
  have fr: "free_pages s' = free_pages s" "cr3 s' = cr3 s" by (simp_all add: s'_def free_pages_def)
  have "pool_ok s'" using d(1) tp by (simp add: pool_ok_def tmp_sep_def s'_def)
  then show "dir_ok D s'" unfolding dir_ok_def D tp fr using ok by (simp add: dir_ok_def)
  show "mapped s' D u = (if u = v then Some w else mapped s D u)" if "u < 768 * 1024"
  proof (cases "entry_present (phys s D (u div 1024))")
    case True
    have "u div 1024 < 768" using that by auto
    then have "table s D (u div 1024) = ?t \<longleftrightarrow> u div 1024 = v div 1024" using d(10) [OF _ i True v(2)] by auto
    moreover have "u = v \<longleftrightarrow> u div 1024 = v div 1024 \<and> u mod 1024 = v mod 1024" by (metis div_mult_mod_eq)
    ultimately have "phys s' (table s D (u div 1024)) (u mod 1024) =
        (if u = v then w else phys s (table s D (u div 1024)) (u mod 1024))"
      unfolding s'_def phys_set_word by presburger
    then show ?thesis unfolding mapped_def Let_def D using w True by (cases "u = v") simp_all
  next
    case False
    then have "u \<noteq> v" using v(2) by auto
    then show ?thesis using False by (simp add: mapped_def Let_def D)
  qed
qed

section \<open>Mapping a range of pages\<close>

text \<open>\<open>held B T q a\<close>: beside the mappings of \<open>B\<close>, the table \<open>T\<close> has one of the page \<open>a\<close>, reached through \<open>q\<close>.\<close>

definition held :: "(nat \<Rightarrow> u32) \<Rightarrow> (nat \<Rightarrow> u32) \<Rightarrow> u32 \<Rightarrow> u32 \<Rightarrow> bool" where
  "held B T q a \<longleftrightarrow> addr_to_pti q \<in> slots B \<and> T (addr_to_pti q) = a OR PE_P OR PE_RW \<and>
     same_tmp B (T(addr_to_pti q := 0))"

lemma held_new: "addr_to_pti q \<in> slots B \<Longrightarrow> same_tmp B T \<Longrightarrow> held B (T(addr_to_pti q := a OR PE_P OR PE_RW)) q a"
  by (simp add: held_def same_tmp_def slots_def)

lemma same_tmp_upd: "same_tmp T T' \<Longrightarrow> same_tmp (T(i := w)) (T'(i := w))"
  by (simp add: same_tmp_def)

lemma held_same:
  assumes "held B T q a" "same_tmp T T'"
  shows "held B T' q a"
proof -
  have "T' (addr_to_pti q) = T (addr_to_pti q)" using assms by (simp add: held_def same_tmp_def)
  then show ?thesis
    using assms same_tmp_trans [OF _ same_tmp_upd [OF assms(2)]] by (simp add: held_def)
qed

lemma held_page: "held B T q a \<Longrightarrow> entry_page a = a \<Longrightarrow> entry_page (T (addr_to_pti q)) = a"
  by (simp add: held_def entry_page_or)

lemma same_tmpD: "same_tmp T T' \<Longrightarrow> entry_present (T i) \<Longrightarrow> T' i = T i"
  by (simp add: same_tmp_def)

lemma held_other:
  assumes "held B T q a" "entry_present (B i)"
  shows "T i = B i"
proof -
  have "i \<noteq> addr_to_pti q" using assms by (auto simp: held_def slots_def)
  then show ?thesis using assms same_tmpD [of B "T(addr_to_pti q := 0)" i] by (simp add: held_def)
qed

lemma held_unmap: "held B T q a \<Longrightarrow> same_tmp B (T(addr_to_pti q := 0))"
  by (simp add: held_def)

lemma held_slots:
  assumes "held B T q a" "2 \<le> card (slots B)"
  shows "slots T \<noteq> {}"
proof
  assume e: "slots T = {}"
  have "slots B = slots (T(addr_to_pti q := 0))" using slots_same [OF held_unmap [OF assms(1)]] by simp
  also have "\<dots> \<subseteq> {addr_to_pti q}" using e by (auto simp: slots_upd)
  finally have "card (slots B) \<le> 1" using card_mono [of "{addr_to_pti q}"] by simp
  then show False using assms(2) by simp
qed

definition map_step :: "nat \<Rightarrow> u32 \<Rightarrow> u32 \<Rightarrow> paging \<Rightarrow> paging" where
  "map_step v fl D s =
     (let s' = set_word (table s D (v div 1024)) (v mod 1024)
                 (faddr s (hd (frame_pool s)) OR PE_P OR vma_to_page_flags fl) (take_frame fl s)
      in if (v + 1) mod 1024 = 0 then ensure_table D ((v + 1) div 1024) s' else s')"

primrec map_run :: "nat \<Rightarrow> nat \<Rightarrow> u32 \<Rightarrow> u32 \<Rightarrow> paging \<Rightarrow> paging" where
  "map_run 0 v fl D s = s"
| "map_run (Suc n) v fl D s = map_run n (v + 1) fl D (map_step v fl D s)"

text \<open>The number of page tables that a run may have to add.\<close>

definition crossings :: "nat \<Rightarrow> nat \<Rightarrow> nat" where
  "crossings v n = (v + n) div 1024 - v div 1024"

lemma crossings_Suc: "crossings v (Suc n) = crossings v 1 + crossings (v + 1) n"
proof -
  have "v div 1024 \<le> (v + 1) div 1024" "(v + 1) div 1024 \<le> (v + Suc n) div 1024" by (intro div_le_mono; simp)+
  then show ?thesis by (simp add: crossings_def)
qed

lemma crossings_1: "crossings v 1 = (if (v + 1) mod 1024 = 0 then 1 else 0)"
  "(v + 1) mod 1024 \<noteq> 0 \<Longrightarrow> (v + 1) div 1024 = v div 1024"
  by (auto simp: crossings_def div_Suc)

lemma step_facts:
  fixes fl :: u32
  assumes ok: "dir_ok D s" and v: "v + 1 < 768 * 1024" "entry_present (phys s D (v div 1024))"
    and pool: "1 + crossings v 1 \<le> length (frame_pool s)"
  defines "s1 \<equiv> set_word (table s D (v div 1024)) (v mod 1024)
      (faddr s (hd (frame_pool s)) OR PE_P OR vma_to_page_flags fl) (take_frame fl s)"
  shows "dir_ok D s1" "entry_present (phys s1 D (v div 1024))" "table s1 D (v div 1024) = table s D (v div 1024)"
    "entry_present (phys s1 D ((v + 1) div 1024)) \<or> frame_pool s1 \<noteq> []"
    "u < 768 * 1024 \<Longrightarrow> mapped s1 D u =
      (if u = v then Some (faddr s (hd (frame_pool s)) OR PE_P OR vma_to_page_flags fl) else mapped s D u)"
    "phys s1 D = phys s D" "faddr s1 = faddr s" "frame_pool s1 = tl (frame_pool s)"
proof -
  have ne: "frame_pool s \<noteq> []" using pool by auto
  let ?s = "take_frame fl s" and ?w = "faddr s (hd (frame_pool s)) OR PE_P OR vma_to_page_flags fl"
  have D: "phys ?s D = phys s D" using take_frame_other [OF dir_okD(1) [OF ok] ne dir_okD(5) [OF ok]] .
  have v': "v < 768 * 1024" "entry_present (phys ?s D (v div 1024))" using v D by simp_all
  have s1: "s1 = set_word (table ?s D (v div 1024)) (v mod 1024) ?w ?s" by (simp add: s1_def D)
  have w: "entry_present ?w" by simp
  note e = enter_facts [OF dir_ok_take(1) [OF ok ne] v' w, folded s1]
  show "dir_ok D s1" by (rule e(1))
  show D1: "phys s1 D = phys s D" using e(3) D by simp
  show "entry_present (phys s1 D (v div 1024))" "table s1 D (v div 1024) = table s D (v div 1024)" using v(2) D1 by simp_all
  show "mapped s1 D u = (if u = v then Some ?w else mapped s D u)" if "u < 768 * 1024"
    using e(2) [OF that] dir_ok_take(2) [OF ok ne that] by simp
  show "faddr s1 = faddr s" and p1: "frame_pool s1 = tl (frame_pool s)" by (simp_all add: s1_def)
  show "entry_present (phys s1 D ((v + 1) div 1024)) \<or> frame_pool s1 \<noteq> []"
  proof (cases "(v + 1) mod 1024 = 0")
    case True
    then have "2 \<le> length (frame_pool s)" using pool crossings_1(1) [of v] by simp
    then show ?thesis by (cases "frame_pool s") (auto simp: p1)
  next
    case False
    then show ?thesis using v(2) D1 crossings_1(2) [OF False] by simp
  qed
qed

lemma map_loop_with:
  assumes "dir_ok D s" "v + n < 768 * 1024" "entry_present (phys s D (v div 1024))"
    "n + crossings v n \<le> length (frame_pool s)" "held B T q (table s D (v div 1024))"
    and p: "entry_present (B (addr_to_pti p))" "entry_page (B (addr_to_pti p)) = D" "2 \<le> card (slots B)"
  shows "\<exists>q' T'. map_pages_loop n (of_nat v) fl p q (with_tmp T s) = Some (q', with_tmp T' (map_run n v fl D s)) \<and>
    held B T' q' (table (map_run n v fl D s) D ((v + n) div 1024))"
  using assms(1-5)
proof (induction n arbitrary: v s T q)
  case 0
  then show ?case by auto
next
  case (Suc n)
  let ?w = "faddr s (hd (frame_pool s)) OR PE_P OR vma_to_page_flags fl" and ?t = "table s D (v div 1024)"
  have pool1: "1 + crossings v 1 \<le> length (frame_pool s)" and v1: "v + 1 < 768 * 1024"
    using Suc.prems(2,4) crossings_Suc [of v n] by simp_all
  then have ne: "frame_pool s \<noteq> []" by auto
  define s1 where "s1 = set_word ?t (v mod 1024) ?w (take_frame fl s)"
  note f = step_facts [OF Suc.prems(1) v1 Suc.prems(3) pool1, where fl = fl, folded s1_def]
  have f9: "(v + 1) div 1024 < 768" using v1 by (simp add: less_mult_imp_div_less)
  obtain T1 where T1: "kalloc_frame fl (with_tmp T s) = Some (hd (frame_pool s), with_tmp T1 (take_frame fl s))" "same_tmp T T1"
    using kalloc_with [OF dir_okD(1) [OF Suc.prems(1)] ne held_slots [OF Suc.prems(5) p(3)]] by blast
  have h1: "held B T1 q ?t" using held_same [OF Suc.prems(5) T1(2)] .
  note d1 = dir_okD [OF dir_ok_take(1) [OF Suc.prems(1) ne, of fl]]
  have D: "phys (take_frame fl s) D = phys s D"
    using take_frame_other [OF dir_okD(1) [OF Suc.prems(1)] ne dir_okD(5) [OF Suc.prems(1)]] .
  have i: "v div 1024 < 768" using Suc.prems(2) by (simp add: less_mult_imp_div_less)
  have t: "?t \<noteq> tmp_pgtab (take_frame fl s)" "?t \<noteq> cr3 (take_frame fl s)"
    using d1(7,9) [OF i] Suc.prems(3) D by simp_all
  have idx: "unat (of_nat v mod 1024 :: u32) = v mod 1024" using Suc.prems(2) by (simp add: unat_mod_distrib unat_of_nat)
  have st: "store q (v mod 1024) ?w (with_tmp T1 (take_frame fl s)) = with_tmp T1 s1"
    using store_with [OF d1(2), of T1 q ?t] held_page [OF h1 entry_page_idem] t by (simp add: s1_def)
  have step: "map_step v fl D s = (if (v + 1) mod 1024 = 0 then ensure_table D ((v + 1) div 1024) s1 else s1)"
    by (simp add: map_step_def Let_def s1_def)
  have tab1: "table s1 D ((v + 1) div 1024) = ?t" if "(v + 1) mod 1024 \<noteq> 0"
    using f(6) crossings_1(2) [OF that] by simp
  have i1: "(of_nat v + 1 :: u32) mod 1024 = 0 \<longleftrightarrow> (v + 1) mod 1024 = 0"
  proof -
    have "unat ((of_nat v + 1 :: u32) mod 1024) = (v + 1) mod 1024"
      using Suc.prems(2) by (simp add: unat_mod_distrib unat_word_ariths unat_of_nat)
    then show ?thesis by (metis unat_eq_0)
  qed
  obtain q2 T2 where q2: "unext_page_table (of_nat v + 1) p q (with_tmp T1 s1) = Some (q2, with_tmp T2 (map_step v fl D s))"
    "held B T2 q2 (table (map_step v fl D s) D ((v + 1) div 1024))"
  proof (cases "(v + 1) mod 1024 = 0")
    case False
    then show thesis using that h1 tab1 i1 by (simp add: unext_page_table_def step)
  next
    case True
    let ?T = "T1(addr_to_pti q := 0)"
    have B: "same_tmp B ?T" by (rule held_unmap [OF h1])
    have e1: "of_nat (v + 1) = (of_nat v + 1 :: u32)" by simp
    have "v + 1 < 2 ^ 20" using v1 by simp
    then have pdi: "addr_to_pdi ((of_nat v + 1) * FRAME_SIZE) = (v + 1) div 1024"
      using page_index(1) [of "v + 1", unfolded e1] by blast
    have pT: "?T (addr_to_pti p) = B (addr_to_pti p)" using same_tmpD [OF B p(1)] .
    then have "entry_present (?T (addr_to_pti p))" "entry_page (?T (addr_to_pti p)) = D" using p(1,2) by simp_all
    moreover have "slots ?T \<noteq> {}" using slots_same [OF B] p(3) by auto
    ultimately obtain q2 T2 where q2: "addr_to_pti q2 \<in> slots ?T" "same_tmp ?T T2"
      "umap_page_table p ((of_nat v + 1) * FRAME_SIZE) (with_tmp ?T s1) =
        Some (q2, with_tmp (T2(addr_to_pti q2 := table (map_step v fl D s) D ((v + 1) div 1024) OR PE_P OR PE_RW)) (map_step v fl D s))"
      using umap_with [OF f(1) pdi f9 f(4), of ?T p] True by (auto simp: step)
    have "held B (T2(addr_to_pti q2 := table (map_step v fl D s) D ((v + 1) div 1024) OR PE_P OR PE_RW)) q2
        (table (map_step v fl D s) D ((v + 1) div 1024))"
      using q2(1) slots_same [OF B] by (intro held_new same_tmp_trans [OF B q2(2)]) simp
    moreover have "kunmap_tmp_page q (with_tmp T1 s1) = with_tmp ?T s1" using dir_okD(2) [OF f(1)] by simp
    ultimately show thesis using that q2(3) True i1 by (simp add: unext_page_table_def)
  qed
  have "\<exists>q' T'. map_pages_loop n (of_nat (v + 1)) fl p q2 (with_tmp T2 (map_step v fl D s)) =
      Some (q', with_tmp T' (map_run n (v + 1) fl D (map_step v fl D s))) \<and>
    held B T' q' (table (map_run n (v + 1) fl D (map_step v fl D s)) D ((v + 1 + n) div 1024))"
  proof (rule Suc.IH [OF _ _ _ _ q2(2)])
    show "dir_ok D (map_step v fl D s)" unfolding step using f(1) ensure_facts(5) [OF f(1) f(4) f9] by simp
    show "entry_present (phys (map_step v fl D s) D ((v + 1) div 1024))"
      unfolding step using ensure_facts(1) [OF f(1) f(4) f9] f(2) crossings_1(2) [of v] by simp
    show "n + crossings (v + 1) n \<le> length (frame_pool (map_step v fl D s))"
      using Suc.prems(4) crossings_Suc [of v n] crossings_1(1) [of v] f(8)
      by (cases "(v + 1) mod 1024 = 0") (auto simp: step ensure_table_def)
  qed (use Suc.prems(2) in simp)
  then show ?case using T1(1) st idx q2(1) by (simp add: Let_def add.commute)
qed

text \<open>Pages that are neither free nor part of the directory.\<close>

definition tables :: "paging \<Rightarrow> u32 \<Rightarrow> u32 set" where
  "tables s D = {table s D i |i. i < 768 \<and> entry_present (phys s D i)}"

lemma ensure_pool:
  "frame_pool (ensure_table D i s) = (if entry_present (phys s D i) then frame_pool s else tl (frame_pool s))"
  "ref (ensure_table D i s) f = (if f = hd (frame_pool s) \<and> \<not> entry_present (phys s D i) then 1 else ref s f)"
  by (simp_all add: ensure_table_def)

lemma tables_ensure:
  assumes "dir_ok D s" "entry_present (phys s D i) \<or> frame_pool s \<noteq> []" "i < 768"
  shows "tables (ensure_table D i s) D \<subseteq> tables s D \<union> free_pages s"
proof (cases "entry_present (phys s D i)")
  case True
  then show ?thesis by (auto simp: ensure_table_def)
next
  case False
  then have ne: "frame_pool s \<noteq> []" using assms(2) by simp
  note h = head_frame [OF dir_okD(1) [OF assms(1)] ne]
  have "phys (ensure_table D i s) D j =
      (if j = i then faddr s (hd (frame_pool s)) OR PE_P OR PE_RW OR PE_U else phys s D j)" for j
    using False take_frame_other [OF dir_okD(1) [OF assms(1)] ne dir_okD(5) [OF assms(1)]]
    by (simp add: ensure_table_def phys_set_word)
  then show ?thesis using h(1,2) by (auto simp: tables_def entry_page_or split: if_splits)
qed

text \<open>Only free pages, the directory and its tables change.\<close>

definition grows :: "u32 \<Rightarrow> paging \<Rightarrow> paging \<Rightarrow> bool" where
  "grows D s s' \<longleftrightarrow> set (frame_pool s') \<subseteq> set (frame_pool s) \<and> faddr s' = faddr s \<and> cr3 s' = cr3 s \<and> tmp_pgtab s' = tmp_pgtab s \<and>
     tables s' D \<subseteq> tables s D \<union> free_pages s \<and>
     (\<forall>a. a \<notin> free_pages s \<longrightarrow> a \<noteq> D \<longrightarrow> a \<notin> tables s D \<longrightarrow> phys s' a = phys s a) \<and>
     (\<forall>k. k \<notin> set (frame_pool s) \<longrightarrow> ref s' k = ref s k)"

lemma grows_refl: "grows D s s"
  by (simp add: grows_def)

lemma grows_free: "grows D s s' \<Longrightarrow> free_pages s' \<subseteq> free_pages s"
  by (auto simp: grows_def free_pages_def)

lemma grows_trans:
  assumes "grows D s s'" "grows D s' s''"
  shows "grows D s s''"
  using assms grows_free [OF assms(1)] unfolding grows_def by (auto 0 3)

lemma grows_ensure:
  assumes "dir_ok D s" "entry_present (phys s D i) \<or> frame_pool s \<noteq> []" "i < 768"
  shows "grows D s (ensure_table D i s)"
  unfolding grows_def
  using tables_ensure [OF assms] ensure_facts(2,3,4,7) [OF assms] assms(2)
  by (cases "frame_pool s") (auto simp: ensure_pool)

lemma grows_step:
  assumes ok: "dir_ok D s" and v: "v + 1 < 768 * 1024" "entry_present (phys s D (v div 1024))"
    and ne: "frame_pool s \<noteq> []"
  shows "grows D s (set_word (table s D (v div 1024)) (v mod 1024) w (take_frame fl s))"
    (is "grows D s ?s1")
proof -
  have i: "v div 1024 < 768" using v(1) by (simp add: less_mult_imp_div_less)
  then have t: "table s D (v div 1024) \<in> tables s D" using v(2) by (auto simp: tables_def)
  have "table s D (v div 1024) \<noteq> D" using dir_okD(8) [OF ok i v(2)] .
  then have D: "phys ?s1 D = phys s D"
    using take_frame_other [OF dir_okD(1) [OF ok] ne dir_okD(5) [OF ok]] by (simp add: set_word_def)
  have "phys ?s1 a = phys s a" if "a \<notin> free_pages s" "a \<notin> tables s D" for a
    using that t take_frame_other [OF dir_okD(1) [OF ok] ne that(1)] by (auto simp: set_word_def)
  moreover have "tables ?s1 D = tables s D" by (simp add: tables_def D)
  moreover have "tmp_pgtab ?s1 = tmp_pgtab s"
    using dir_okD(9) [OF ok i v(2)] tmp_pgtab_take [OF dir_okD(1) [OF ok] ne, of fl] by simp
  ultimately show ?thesis using ne by (cases "frame_pool s") (auto simp: grows_def)
qed

lemma map_run_facts:
  assumes "dir_ok D s" "v + n < 768 * 1024" "entry_present (phys s D (v div 1024))"
    "n + crossings v n \<le> length (frame_pool s)"
  shows "dir_ok D (map_run n v fl D s) \<and> grows D s (map_run n v fl D s) \<and>
    (\<exists>fs. length fs = n \<and> distinct fs \<and> set fs \<subseteq> set (frame_pool s) - set (frame_pool (map_run n v fl D s)) \<and>
      (\<forall>f \<in> set fs. ref (map_run n v fl D s) f = 1 \<and>
         (fl AND VM_ZERO \<noteq> 0 \<longrightarrow> phys (map_run n v fl D s) (faddr s f) = (\<lambda>_. 0))) \<and>
      (\<forall>u < 768 * 1024. mapped (map_run n v fl D s) D u =
         (if v \<le> u \<and> u < v + n then Some (faddr s (fs ! (u - v)) OR PE_P OR vma_to_page_flags fl) else mapped s D u)))"
  using assms
proof (induction n arbitrary: v s)
  case 0
  then show ?case by (auto simp: grows_refl)
next
  case (Suc n)
  have pool1: "1 + crossings v 1 \<le> length (frame_pool s)" and v1: "v + 1 < 768 * 1024"
    using Suc.prems(2,4) crossings_Suc [of v n] by simp_all
  then have ne: "frame_pool s \<noteq> []" by auto
  define F where "F = hd (frame_pool s)"
  define w where "w = faddr s F OR PE_P OR vma_to_page_flags fl"
  define s1 where "s1 = set_word (table s D (v div 1024)) (v mod 1024) w (take_frame fl s)"
  define s2 where "s2 = map_step v fl D s"
  define s3 where "s3 = map_run n (v + 1) fl D s2"
  note f = step_facts [OF Suc.prems(1) v1 Suc.prems(3) pool1, where fl = fl, folded F_def, folded w_def, folded s1_def]
  have f9: "(v + 1) div 1024 < 768" using v1 by (simp add: less_mult_imp_div_less)
  have step: "s2 = (if (v + 1) mod 1024 = 0 then ensure_table D ((v + 1) div 1024) s1 else s1)"
    by (simp add: s2_def map_step_def Let_def s1_def w_def F_def)
  note e = ensure_facts [OF f(1) f(4) f9]
  have ok2: "dir_ok D s2" and pr2: "entry_present (phys s2 D ((v + 1) div 1024))"
    using f(1,2) e(1,5) crossings_1(2) [of v] by (simp_all add: step)
  have g1: "grows D s s1" unfolding s1_def using grows_step [OF Suc.prems(1) v1 Suc.prems(3) ne] .
  have g2: "grows D s1 s2" using grows_ensure [OF f(1) f(4) f9] by (simp add: step grows_refl)
  have pool2: "n + crossings (v + 1) n \<le> length (frame_pool s2)"
    using Suc.prems(4) crossings_Suc [of v n] crossings_1(1) [of v] f(8) by (auto simp: step ensure_pool)
  obtain fs where ok3: "dir_ok D s3" "grows D s2 s3" and fs: "length fs = n" "distinct fs"
    "set fs \<subseteq> set (frame_pool s2) - set (frame_pool s3)"
    "\<forall>f \<in> set fs. ref s3 f = 1 \<and> (fl AND VM_ZERO \<noteq> 0 \<longrightarrow> phys s3 (faddr s2 f) = (\<lambda>_. 0))"
    "\<forall>u < 768 * 1024. mapped s3 D u =
       (if v + 1 \<le> u \<and> u < v + 1 + n then Some (faddr s2 (fs ! (u - (v + 1))) OR PE_P OR vma_to_page_flags fl) else mapped s2 D u)"
    using Suc.IH [OF ok2 _ pr2 pool2] Suc.prems(2) unfolding s3_def by auto
  have g13: "grows D s1 s3" using grows_trans [OF g2 ok3(2)] .
  have F: "F \<in> set (frame_pool s)" "F \<notin> set (frame_pool s1)"
    using ne dir_okD(1) [OF Suc.prems(1)] f(8) by (cases "frame_pool s"; auto simp: F_def pool_ok_def)+
  have fa: "faddr s1 = faddr s" "faddr s2 = faddr s" using g1 g2 by (simp_all add: grows_def)
  note h = head_frame [OF dir_okD(1) [OF Suc.prems(1)] ne, folded F_def]
  have t1: "tables s1 D = tables s D" by (simp add: tables_def f(6))
  have "free_pages s1 = free_pages (take_frame fl s)" by (simp add: s1_def free_pages_def)
  then have FP: "faddr s F \<notin> free_pages s1" "faddr s F \<noteq> D" "faddr s F \<notin> tables s1 D"
    using h(1,5) dir_okD(5,6) [OF Suc.prems(1)] unfolding t1 by (auto simp: tables_def)
  have "ref s1 F = 1" by (simp add: s1_def F_def)
  then have r: "ref s3 F = 1" using g13 F(2) by (simp add: grows_def)
  have "table s D (v div 1024) \<in> tables s1 D" 
    using Suc.prems(3) v1 less_mult_imp_div_less [of v 768 1024] unfolding t1 unfolding tables_def by auto
  then have "faddr s F \<noteq> table s D (v div 1024)" using FP(3) by auto
  then have z: "phys s3 (faddr s F) = (\<lambda>_. 0)" if "fl AND VM_ZERO \<noteq> 0"
    using g13 FP that by (simp add: grows_def s1_def set_word_def phys_take_frame F_def)
  have m2: "mapped s2 D u = (if u = v then Some w else mapped s D u)" if "u < 768 * 1024" for u
    using e(6) f(5) that by (simp add: step)
  have run: "map_run (Suc n) v fl D s = s3" by (simp add: s3_def s2_def)
  have "set (frame_pool s2) \<subseteq> set (frame_pool s1)" "set (frame_pool s3) \<subseteq> set (frame_pool s1)" "set (frame_pool s1) \<subseteq> set (frame_pool s)"
    using g1 g2 g13 by (simp_all add: grows_def)
  then have fs': "length (F # fs) = Suc n" "distinct (F # fs)" "set (F # fs) \<subseteq> set (frame_pool s) - set (frame_pool s3)"
    using fs(1,2,3) F by auto
  have "mapped s3 D u = (if v \<le> u \<and> u < v + Suc n then Some (faddr s ((F # fs) ! (u - v)) OR PE_P OR vma_to_page_flags fl) else mapped s D u)"
    if "u < 768 * 1024" for u
    using fs(5) m2 [OF that] that by (cases "u = v") (auto simp: w_def fa nth_Cons')
  then show ?case
    unfolding run using ok3(1) grows_trans [OF g1 g13] fs' r z fs(4) fa by (intro conjI exI [of _ "F # fs"]) auto
qed

lemma dir_ok_with:
  assumes "dir_ok D s"
  shows "dir_ok D (with_tmp T s)" "u < 768 * 1024 \<Longrightarrow> mapped (with_tmp T s) D u = mapped s D u"
    "phys (with_tmp T s) D = phys s D"
proof -
  note d = dir_okD [OF assms]
  show D: "phys (with_tmp T s) D = phys s D" using d(2,4) by (simp add: phys_with_tmp)
  have p: "pool_ok (with_tmp T s)" using d(1,2) by (simp add: pool_ok_def)
  then show "dir_ok D (with_tmp T s)"
    unfolding dir_ok_def D using assms d(2) by (simp add: dir_ok_def free_pages_def)
  show "mapped (with_tmp T s) D u = mapped s D u" if "u < 768 * 1024"
    using d(7) [of "u div 1024"] d(2) that less_mult_imp_div_less [of u 768 1024]
    by (auto simp: mapped_def Let_def D phys_with_tmp)
qed

lemma map_pages_run:
  assumes ok: "dir_ok D s" and v: "unat (dst div FRAME_SIZE) = v" and n: "unat pages = n" "v + n < 768 * 1024"
    and pool: "1 + n + crossings v n \<le> length (frame_pool s)" and sl: "3 \<le> card (slots (phys s (tmp_pgtab s)))"
  obtains T where "same_tmp (phys s (tmp_pgtab s)) T"
    "map_pages D dst pages fl s = Some (with_tmp T (map_run n v fl D (ensure_table D (v div 1024) s)))"
proof -
  define T0 where "T0 = phys s (tmp_pgtab s)"
  define s1 where "s1 = ensure_table D (v div 1024) s"
  note d = dir_okD [OF ok]
  have s: "with_tmp T0 s = s" unfolding T0_def by (rule with_tmp_self)
  have sl0: "slots T0 \<noteq> {}" using sl unfolding T0_def by auto
  obtain p where p: "addr_to_pti p \<in> slots T0"
    "kmap_tmp_page D s = Some (p, with_tmp (T0(addr_to_pti p := D OR PE_P OR PE_RW)) s)"
    using kmap_with [OF d(2,3) sl0] s by metis
  define B where "B = T0(addr_to_pti p := D OR PE_P OR PE_RW)"
  have Bp: "entry_present (B (addr_to_pti p))" "entry_page (B (addr_to_pti p)) = D" using d(3) by (simp_all add: B_def entry_page_or)
  have "slots B = slots T0 - {addr_to_pti p}" by (simp add: B_def slots_upd)
  then have cB: "2 \<le> card (slots B)" using p(1) sl by (simp add: T0_def)
  have i: "v div 1024 < 768" using n(2) by (simp add: less_mult_imp_div_less)
  have dst: "unat dst div 4096 = v" using v by (simp add: unat_div_distrib)
  then have pdi: "addr_to_pdi dst = v div 1024" by (simp add: addr_to_pdi_nat div_mult2_eq [symmetric] flip: dst)
  have ne: "entry_present (phys s D (v div 1024)) \<or> frame_pool s \<noteq> []" using pool by auto
  have "slots B \<noteq> {}" using cB by auto
  then obtain q T1 where q: "addr_to_pti q \<in> slots B" "same_tmp B T1"
    "umap_page_table p dst (with_tmp B s) = Some (q, with_tmp (T1(addr_to_pti q := table s1 D (v div 1024) OR PE_P OR PE_RW)) s1)"
    using umap_with [OF ok pdi i ne, of B p] Bp unfolding s1_def by blast
  note e = ensure_facts [OF ok ne i, folded s1_def]
  have pool1: "n + crossings v n \<le> length (frame_pool s1)" using pool by (auto simp: s1_def ensure_pool)
  obtain q' T' where l: "map_pages_loop n (of_nat v) fl p q (with_tmp (T1(addr_to_pti q := table s1 D (v div 1024) OR PE_P OR PE_RW)) s1) =
      Some (q', with_tmp T' (map_run n v fl D s1))" "held B T' q' (table (map_run n v fl D s1) D ((v + n) div 1024))"
    using map_loop_with [OF e(5) n(2) e(1) pool1 held_new [OF q(1,2)], of p fl] Bp cB by blast
  have ok2: "dir_ok D (map_run n v fl D s1)" using map_run_facts [OF e(5) n(2) e(1) pool1] by blast
  have "unat (dst div FRAME_SIZE + pages) = v + n" using v n by (subst unat_add_no_wrap) auto
  then have tn: "turns (dst div FRAME_SIZE) pages = n" using v n(1) by (simp add: turns_def word_less_nat_alt)
  have vw: "dst div FRAME_SIZE = of_nat v" by (simp flip: v)
  define T where "T = T'(addr_to_pti q' := 0, addr_to_pti p := 0)"
  have "map_pages D dst pages fl s = Some (with_tmp T (map_run n v fl D s1))"
    using p(2) [folded B_def] q(3) l(1) tn vw dir_okD(2) [OF ok2] by (simp add: map_pages_def T_def)
  moreover have "same_tmp T0 T"
  proof -
    have "same_tmp T0 (B(addr_to_pti p := 0))" using same_tmp_clear [OF p(1)] by (simp add: B_def)
    then show ?thesis unfolding T_def using same_tmp_trans same_tmp_upd [OF held_unmap [OF l(2)]] by blast
  qed
  ultimately show thesis using that unfolding T0_def s1_def by blast
qed

text \<open>
  C4: \<^verbatim>\<open>map_pages\<close> maps a range of user pages.  Given enough free frames for the pages and their page tables, and three free
  temporary pages, it returns; every page of the range is then mapped to a frame of its own, taken from the
  pool and with the reference count 1, with the permissions asked for and filled with zeros if asked for.  No other page of the user half changes its
  mapping, nothing but the free frames, the directory, its page tables and the temporary page table is
  written, and the temporary mappings are as before.
\<close>

theorem map_pages_correct:
  assumes "dir_ok D s" "unat (dst div FRAME_SIZE) = v" "unat pages = n" "v + n < 768 * 1024"
    "1 + n + crossings v n \<le> length (frame_pool s)" "3 \<le> card (slots (phys s (tmp_pgtab s)))"
  shows "\<exists>s' fs. map_pages D dst pages fl s = Some s' \<and> dir_ok D s' \<and>
    same_tmp (phys s (tmp_pgtab s)) (phys s' (tmp_pgtab s')) \<and>
    length fs = n \<and> distinct fs \<and> set fs \<subseteq> set (frame_pool s) - set (frame_pool s') \<and>
    (\<forall>f \<in> set fs. ref s' f = 1 \<and> (fl AND VM_ZERO \<noteq> 0 \<longrightarrow> phys s' (faddr s f) = (\<lambda>_. 0))) \<and>
    (\<forall>u < 768 * 1024. mapped s' D u =
       (if v \<le> u \<and> u < v + n then Some (faddr s (fs ! (u - v)) OR PE_P OR vma_to_page_flags fl) else mapped s D u)) \<and>
    (\<forall>a. a \<notin> free_pages s \<union> tables s D \<union> {D, tmp_pgtab s} \<longrightarrow> phys s' a = phys s a)"
proof -
  define s1 where "s1 = ensure_table D (v div 1024) s"
  define s2 where "s2 = map_run n v fl D s1"
  have i: "v div 1024 < 768" using assms(4) by (simp add: less_mult_imp_div_less)
  have ne: "entry_present (phys s D (v div 1024)) \<or> frame_pool s \<noteq> []" using assms(5) by auto
  note e = ensure_facts [OF assms(1) ne i, folded s1_def]
  have pool1: "n + crossings v n \<le> length (frame_pool s1)" using assms(5) by (auto simp: s1_def ensure_pool)
  have g1: "grows D s s1" unfolding s1_def by (rule grows_ensure [OF assms(1) ne i])
  obtain T where T: "same_tmp (phys s (tmp_pgtab s)) T" "map_pages D dst pages fl s = Some (with_tmp T s2)"
    using map_pages_run [OF assms] unfolding s1_def s2_def by blast
  obtain fs where r: "dir_ok D s2" "grows D s1 s2" and fs: "length fs = n" "distinct fs"
    "set fs \<subseteq> set (frame_pool s1) - set (frame_pool s2)"
    "\<forall>f \<in> set fs. ref s2 f = 1 \<and> (fl AND VM_ZERO \<noteq> 0 \<longrightarrow> phys s2 (faddr s1 f) = (\<lambda>_. 0))"
    "\<forall>u < 768 * 1024. mapped s2 D u =
       (if v \<le> u \<and> u < v + n then Some (faddr s1 (fs ! (u - v)) OR PE_P OR vma_to_page_flags fl) else mapped s1 D u)"
    using map_run_facts [OF e(5) assms(4) e(1) pool1] unfolding s2_def by blast
  note g = grows_trans [OF g1 r(2)]
  have tp: "tmp_pgtab s2 = tmp_pgtab s" "tmp_sep s2" using g r(1) by (simp_all add: grows_def dir_okD)
  have fa: "faddr s f \<noteq> tmp_pgtab s" if "f \<in> set fs" for f
    using that fs(3) g1 dir_okD(1) [OF assms(1)] by (auto simp: grows_def pool_ok_def)
  have ph: "phys (with_tmp T s2) a = (if a = tmp_pgtab s then T else phys s2 a)" for a
    using phys_with_tmp [OF tp(2), of T a] tp(1) by simp
  have m: "mapped (with_tmp T s2) D u = mapped s2 D u" if "u < 768 * 1024" for u using dir_ok_with(2) [OF r(1) that] .
  have "set fs \<subseteq> set (frame_pool s) - set (frame_pool (with_tmp T s2))" using fs(3) g1 by (auto simp: grows_def)
  moreover have "tmp_pgtab (with_tmp T s2) = tmp_pgtab s" using tp by simp
  moreover have "\<forall>f \<in> set fs. ref (with_tmp T s2) f = 1 \<and> (fl AND VM_ZERO \<noteq> 0 \<longrightarrow> phys (with_tmp T s2) (faddr s f) = (\<lambda>_. 0))"
    using fs(4) fa e(2) by (simp add: ph)
  moreover have "\<forall>u < 768 * 1024. mapped (with_tmp T s2) D u =
       (if v \<le> u \<and> u < v + n then Some (faddr s (fs ! (u - v)) OR PE_P OR vma_to_page_flags fl) else mapped s D u)"
    using fs(5) e(2,6) m by simp
  moreover have "\<forall>a. a \<notin> free_pages s \<union> tables s D \<union> {D, tmp_pgtab s} \<longrightarrow> phys (with_tmp T s2) a = phys s a"
    using g by (simp add: ph grows_def)
  ultimately show ?thesis
    using T fs(1,2) dir_ok_with(1) [OF r(1), of T] by (intro exI [of _ "with_tmp T s2"] exI [of _ fs]) (simp add: ph)
qed

definition pg_example :: paging where
  "pg_example = \<lparr>phys = (\<lambda>_ _. 0)(0x1000 := (\<lambda>_. 0)(1023 := 0x2003), 0x2000 := (\<lambda>_. 0)(1022 := 0x2003, 1023 := 0x1003)),
     faddr = (\<lambda>k. 0x400000 + k * FRAME_SIZE), ref = (\<lambda>_. 0), frame_pool = [0, 1, 2, 3, 4, 5, 6, 7], fp_start = 0x400000,
     first_free = 0xC0400, kernel_pgdir = 0x3000, cr3 = 0x1000, husk_list = [], husks = 0, pgdirs = [(True, 0x1000)]\<rparr>"

lemma pg_example_tmp: "tmp_pgtab pg_example = 0x2000" "phys pg_example 0x1000 i = (if i = 1023 then 0x2003 else 0)"
  by (simp_all add: pg_example_def tmp_pgtab_def entry_page_def)

lemma pg_example_ok: "dir_ok 0x1000 pg_example"
  by (auto simp: dir_ok_def pool_ok_def tmp_sep_def free_pages_def pg_example_tmp) (auto simp: pg_example_def entry_page_def)

lemma pg_example_slots: "slots (phys pg_example 0x2000) = {4..<1018}"
  by (auto simp: slots_def pg_example_def)

theorem map_pages_correct_witness:
  "\<exists>s'. map_pages 0x1000 0x3FF000 2 (VM_READ OR VM_WRITE) pg_example = Some s' \<and>
     mapped s' 0x1000 1023 \<noteq> None \<and> mapped s' 0x1000 1024 \<noteq> None \<and> mapped s' 0x1000 1025 = None"
proof -
  have "mapped pg_example 0x1000 1025 = None" by (simp add: mapped_def pg_example_tmp)
  moreover have "card (slots (phys pg_example (tmp_pgtab pg_example))) = 1014" by (simp add: pg_example_tmp pg_example_slots)
  moreover have "length (frame_pool pg_example) = 8" by (simp add: pg_example_def)
  ultimately show ?thesis
    using map_pages_correct [OF pg_example_ok, of "0x3FF000" 1023 2 2 "VM_READ OR VM_WRITE"]
    by (auto simp: crossings_def)
qed

section \<open>Copying a page on a write\<close>

text \<open>The current page directory is mapped by the last entry of the temporary page table.\<close>

definition self_mapped :: "paging \<Rightarrow> bool" where
  "self_mapped s \<longleftrightarrow> entry_present (phys s (tmp_pgtab s) 1023) \<and> entry_page (phys s (tmp_pgtab s) 1023) = cr3 s"

lemma mappedD:
  "mapped s D v = Some pte \<Longrightarrow>
     entry_present (phys s D (v div 1024)) \<and> phys s (table s D (v div 1024)) (v mod 1024) = pte \<and> entry_present pte"
  by (simp add: mapped_def Let_def split: if_splits)

lemma page_number:
  assumes "unat addr div 4096 = v"
  shows "addr_to_pdi addr = v div 1024" "addr_to_pti addr = v mod 1024"
  by (simp_all add: addr_to_pdi_nat addr_to_pti_nat div_mult2_eq [symmetric] flip: assms)

text \<open>The page table of a mapped page, opened through the current page directory.\<close>

lemma open_table:
  assumes ok: "dir_ok (cr3 s) s" and cur: "self_mapped s" and sl: "slots (phys s (tmp_pgtab s)) \<noteq> {}"
    and v: "unat addr div 4096 = v" "v < 768 * 1024" and m: "mapped s (cr3 s) v = Some pte"
  obtains q T where "held (phys s (tmp_pgtab s)) T q (table s (cr3 s) (v div 1024))"
    "umap_page_table current_pgdir addr s = Some (q, with_tmp T s)" "load (with_tmp T s) q (v mod 1024) = pte"
proof -
  define T0 where "T0 = phys s (tmp_pgtab s)"
  define t where "t = table s (cr3 s) (v div 1024)"
  have s: "with_tmp T0 s = s" unfolding T0_def by (rule with_tmp_self)
  have i: "v div 1024 < 768" using v(2) by (simp add: less_mult_imp_div_less)
  note md = mappedD [OF m]
  have en: "ensure_table (cr3 s) (v div 1024) s = s" using md by (simp add: ensure_table_def)
  have c: "entry_present (T0 (addr_to_pti current_pgdir))" "entry_page (T0 (addr_to_pti current_pgdir)) = cr3 s"
    using cur unfolding self_mapped_def T0_def high_index by simp_all
  obtain q T' where q: "addr_to_pti q \<in> slots T0" "same_tmp T0 T'"
    "umap_page_table current_pgdir addr (with_tmp T0 s) = Some (q, with_tmp (T'(addr_to_pti q := t OR PE_P OR PE_RW)) s)"
    using umap_with [OF ok page_number(1) [OF v(1)] i, of T0 current_pgdir] c sl md en
    unfolding T0_def t_def by auto
  define T where "T = T'(addr_to_pti q := t OR PE_P OR PE_RW)"
  have h: "held T0 T q t" unfolding T_def by (rule held_new [OF q(1,2)])
  have "load (with_tmp T s) q (v mod 1024) = pte"
    using load_with [OF dir_okD(2) [OF ok], of T q] held_page [OF h] dir_okD(7) [OF ok i] md
    by (simp add: t_def)
  then show thesis using that [of T q] h q(3) unfolding T_def T0_def t_def with_tmp_self by blast
qed

lemma copy_page_single:
  assumes ok: "dir_ok (cr3 s) s" and cur: "self_mapped s" and sl: "slots (phys s (tmp_pgtab s)) \<noteq> {}"
    and v: "unat addr div 4096 = v" "v < 768 * 1024" and m: "mapped s (cr3 s) v = Some pte"
    and ref: "ref s (phys_to_info s (entry_page pte)) = 1"
  obtains T where "same_tmp (phys s (tmp_pgtab s)) T"
    "copy_page addr fl s = Some (with_tmp T (set_word (table s (cr3 s) (v div 1024)) (v mod 1024) (pte OR vma_to_page_flags fl) s))"
proof -
  define t where "t = table s (cr3 s) (v div 1024)"
  define s1 where "s1 = set_word t (v mod 1024) (pte OR vma_to_page_flags fl) s"
  have i: "v div 1024 < 768" using v(2) by (simp add: less_mult_imp_div_less)
  note md = mappedD [OF m] and d = dir_okD [OF ok]
  obtain q T where q: "held (phys s (tmp_pgtab s)) T q t"
    "umap_page_table current_pgdir addr s = Some (q, with_tmp T s)" "load (with_tmp T s) q (v mod 1024) = pte"
    using open_table [OF ok cur sl v m] unfolding t_def by blast
  have t: "t \<noteq> tmp_pgtab s" "t \<noteq> cr3 s" using d(7,8) [OF i] md by (simp_all add: t_def)
  have "store q (v mod 1024) w (with_tmp T s) = with_tmp T (set_word t (v mod 1024) w s)" for w
    using store_with [OF d(2), of T q t] held_page [OF q(1)] t by (simp add: t_def)
  then have "copy_page addr fl s = Some (kunmap_tmp_page q (with_tmp T s1))"
    using q(2,3) ref page_number(2) [OF v(1)] by (simp add: copy_page_def Let_def s1_def)
  moreover have "tmp_sep s1" using d(2) t(2) by (simp add: s1_def)
  ultimately have "copy_page addr fl s = Some (with_tmp (T(addr_to_pti q := 0)) s1)" by simp
  then show thesis using that held_unmap [OF q(1)] unfolding s1_def t_def by blast
qed

lemma with_tmp_page:
  assumes "tmp_sep s" "a \<noteq> tmp_pgtab s" "a \<noteq> cr3 s"
  shows "(with_tmp T s)\<lparr>phys := (phys (with_tmp T s))(a := c)\<rparr> = with_tmp T (s\<lparr>phys := (phys s)(a := c)\<rparr>)"
    "tmp_pgtab (s\<lparr>phys := (phys s)(a := c)\<rparr>) = tmp_pgtab s"
  using assms by (simp_all add: with_tmp_def tmp_pgtab_def fun_upd_twist)

lemma with_tmp_ref: "(with_tmp T s)\<lparr>ref := r\<rparr> = with_tmp T (s\<lparr>ref := r\<rparr>)" "tmp_pgtab (s\<lparr>ref := r\<rparr>) = tmp_pgtab s"
  by (simp_all add: with_tmp_def tmp_pgtab_def)

definition copied :: "u32 \<Rightarrow> u32 \<Rightarrow> u32 \<Rightarrow> nat \<Rightarrow> paging \<Rightarrow> paging" where
  "copied fl pte t i s =
     (let f = hd (frame_pool s); k = phys_to_info s (entry_page pte); s' = take_frame fl s
      in set_word t i (faddr s f OR PE_P OR vma_to_page_flags fl)
           (s'\<lparr>phys := (phys s')(faddr s f := phys s (entry_page pte)), ref := (ref s')(k := ref s k - 1)\<rparr>))"

lemma copy_page_shared:
  assumes ok: "dir_ok (cr3 s) s" and cur: "self_mapped s" and sl: "2 \<le> card (slots (phys s (tmp_pgtab s)))"
    and v: "unat addr div 4096 = v" "v < 768 * 1024" and m: "mapped s (cr3 s) v = Some pte"
    and k: "phys_to_info s (entry_page pte) = k" "2 \<le> unat (ref s k)" "k \<notin> set (frame_pool s)"
    and src: "entry_page pte \<notin> free_pages s" "entry_page pte \<noteq> tmp_pgtab s" and ne: "frame_pool s \<noteq> []"
  obtains T where "same_tmp (phys s (tmp_pgtab s)) T"
    "copy_page addr fl s = Some (with_tmp T (copied fl pte (table s (cr3 s) (v div 1024)) (v mod 1024) s))"
proof -
  define T0 where "T0 = phys s (tmp_pgtab s)"
  define t where "t = table s (cr3 s) (v div 1024)"
  define f where "f = hd (frame_pool s)"
  define F where "F = faddr s f"
  define s2 where "s2 = take_frame fl s"
  define s3 where "s3 = s2\<lparr>phys := (phys s2)(F := phys s (entry_page pte))\<rparr>"
  define s4 where "s4 = s3\<lparr>ref := (ref s3)(k := ref s k - 1)\<rparr>"
  define s5 where "s5 = set_word t (v mod 1024) (F OR PE_P OR vma_to_page_flags fl) s4"
  have i: "v div 1024 < 768" using v(2) by (simp add: less_mult_imp_div_less)
  note md = mappedD [OF m] and d = dir_okD [OF ok]
  note h = head_frame [OF d(1) ne, folded f_def, folded F_def]
  have "slots (phys s (tmp_pgtab s)) \<noteq> {}" using sl by auto
  then obtain q T where q: "held T0 T q t" "umap_page_table current_pgdir addr s = Some (q, with_tmp T s)"
    "load (with_tmp T s) q (v mod 1024) = pte"
    using open_table [OF ok cur _ v m] unfolding t_def T0_def by blast
  have t: "t \<noteq> tmp_pgtab s" "t \<noteq> cr3 s" "t \<notin> free_pages s" using d(6,7,8) [OF i] md by (simp_all add: t_def)
  obtain T2 where T2: "kalloc_frame fl (with_tmp T s) = Some (f, with_tmp T2 s2)" "same_tmp T T2"
    using kalloc_with [OF d(1) ne held_slots [OF q(1)]] sl unfolding f_def s2_def T0_def by blast
  have h2: "held T0 T2 q t" by (rule held_same [OF q(1) T2(2)])
  have ok2: "dir_ok (cr3 s) s2" unfolding s2_def by (rule dir_ok_take(1) [OF ok ne])
  note d2 = dir_okD [OF ok2]
  have f2: "faddr s2 = faddr s" "cr3 s2 = cr3 s" "tmp_pgtab s2 = tmp_pgtab s" "phys_to_info s2 = phys_to_info s"
    unfolding s2_def using tmp_pgtab_take [OF d(1) ne] by simp_all
  obtain p where p: "addr_to_pti p \<in> slots T2" "kmap_tmp_page F (with_tmp T2 s2) = Some (p, with_tmp (T2(addr_to_pti p := F OR PE_P OR PE_RW)) s2)"
    using kmap_with [OF d2(2) h(2) held_slots [OF h2]] sl unfolding T0_def by blast
  define T3 where "T3 = T2(addr_to_pti p := F OR PE_P OR PE_RW)"
  have same: "phys s2 a = phys s a" if "a \<notin> free_pages s" for a unfolding s2_def using take_frame_other [OF d(1) ne that] .
  have ph3: "phys (with_tmp T3 s2) a = phys s a" if "a \<notin> free_pages s" "a \<noteq> tmp_pgtab s" for a
    using phys_with_tmp [OF d2(2), of T3 a] same [OF that(1)] that(2) f2(3) by simp
  have base: "unat (page_base addr) div 4096 = v" using v(1) by (simp add: unat_page_base)
  have vp: "vpage (with_tmp T3 s2) (page_base addr) = Some (entry_page pte)"
    using md ph3 [OF d(5,4)] ph3 [OF t(3,1)] by (simp add: vpage_def Let_def page_number [OF base] f2(2) t_def)
  have al: "aliased (with_tmp T3 s2) p = F" using d2(2) h(2) by (simp add: T3_def entry_page_or)
  have F2: "F \<noteq> tmp_pgtab s2" "F \<noteq> cr3 s2" using h(3,4) f2 by simp_all
  have w3: "(with_tmp T3 s2)\<lparr>phys := (phys (with_tmp T3 s2))(F := phys (with_tmp T3 s2) (entry_page pte))\<rparr> = with_tmp T3 s3"
    and t3: "tmp_pgtab s3 = tmp_pgtab s"
    using with_tmp_page [OF d2(2) F2] ph3 [OF src] f2(3) by (simp_all add: s3_def)
  have sep: "tmp_sep s3" "tmp_sep s4" using d2(2) t3 f2 by (simp_all add: tmp_sep_def s3_def s4_def with_tmp_ref)
  define T4 where "T4 = T3(addr_to_pti p := 0)"
  have h4: "held T0 T4 q t"
    using held_same [OF h2] same_tmp_clear [OF p(1)] by (simp add: T4_def T3_def)
  have pq: "T4 (addr_to_pti q) = t OR PE_P OR PE_RW" using h4 by (simp add: held_def)
  have tt: "entry_page (T4 (addr_to_pti q)) = t" using held_page [OF h4] by (simp add: t_def)
  have tF: "t \<noteq> F" using t(3) h(1) by auto
  have ld: "load (with_tmp T4 s3) q (v mod 1024) = pte"
    using load_with [OF sep(1), of T4 q] tt t(1) t3 tF same [OF t(3)] md by (simp add: s3_def t_def)
  have "k \<noteq> f" using k(3) ne unfolding f_def by auto
  then have r: "ref s3 k = ref s k" by (simp add: s3_def s2_def f_def)
  have "ref s k - 1 \<noteq> 0" "ref s k \<noteq> 1" using k(2) by auto
  then have kf: "kfree_frame k (with_tmp T4 s3) = with_tmp T4 s4"
    using r by (simp add: kfree_frame_def Let_def s4_def with_tmp_ref)
  have t4: "t \<noteq> tmp_pgtab s4" "t \<noteq> cr3 s4" using t(1,2) t3 f2(2) by (simp_all add: s4_def with_tmp_ref) (simp add: s3_def)
  have st: "store q (v mod 1024) w (with_tmp T4 s4) = with_tmp T4 (set_word t (v mod 1024) w s4)" for w
    using store_with [OF sep(2), of T4 q t] tt t4 by simp
  have sep5: "tmp_sep s5" using sep(2) t4(2) by (simp add: s5_def)
  have info: "phys_to_info (with_tmp T4 s3) (entry_page pte) = k" using k(1) by (simp add: s3_def s2_def phys_to_info_def)
  have fad: "faddr s4 f = F" "faddr s2 f = F" using f2(1) by (simp_all add: s4_def s3_def F_def)
  have un: "kunmap_tmp_page p (with_tmp T3 s3) = with_tmp T4 s3" using sep(1) by (simp add: T4_def)
  have "copy_page addr fl s =
      (let s = kunmap_tmp_page p ((with_tmp T3 s2)\<lparr>phys := (phys (with_tmp T3 s2))(F := phys (with_tmp T3 s2) (entry_page pte))\<rparr>);
           s = kfree_frame (phys_to_info s (entry_page (load s q (v mod 1024)))) s;
           s = store q (v mod 1024) (faddr s f OR PE_P OR vma_to_page_flags fl) s
       in Some (kunmap_tmp_page q s))"
    using q(2,3) k(1) \<open>ref s k \<noteq> 1\<close> page_number(2) [OF v(1)] T2(1) p(2) [folded T3_def] fad(2) vp al
    by (simp add: copy_page_def Let_def)
  also have "\<dots> = Some (with_tmp (T4(addr_to_pti q := 0)) s5)"
    unfolding w3 un Let_def ld info kf using st fad(1) sep5 by (simp add: s5_def)
  finally have "copy_page addr fl s = Some (with_tmp (T4(addr_to_pti q := 0)) s5)" .
  moreover have "s5 = copied fl pte t (v mod 1024) s"
    by (simp add: copied_def Let_def s5_def s4_def s3_def s2_def F_def f_def k(1))
  ultimately show thesis using that held_unmap [OF h4] unfolding T0_def t_def by blast
qed

lemma table_in: "v < 768 * 1024 \<Longrightarrow> entry_present (phys s D (v div 1024)) \<Longrightarrow> table s D (v div 1024) \<in> tables s D"
  using less_mult_imp_div_less [of v 768 1024] by (auto simp: tables_def)

lemma dir_ok_page:
  fixes c :: "nat \<Rightarrow> u32" and r :: "u32 \<Rightarrow> u32"
  assumes ok: "dir_ok D s" and a: "a \<notin> tables s D" "a \<noteq> D" "a \<noteq> cr3 s"
  defines "s' \<equiv> s\<lparr>phys := (phys s)(a := c), ref := r\<rparr>"
  shows "dir_ok D s'" "u < 768 * 1024 \<Longrightarrow> mapped s' D u = mapped s D u" "phys s' D = phys s D"
proof -
  show D: "phys s' D = phys s D" using a(2) by (simp add: s'_def)
  have f: "free_pages s' = free_pages s" "cr3 s' = cr3 s" "tmp_pgtab s' = tmp_pgtab s" "pool_ok s' = pool_ok s"
    using a(3) by (simp_all add: s'_def free_pages_def tmp_pgtab_def pool_ok_def tmp_sep_def)
  show "dir_ok D s'" using ok unfolding dir_ok_def D f .
  show "mapped s' D u = mapped s D u" if "u < 768 * 1024"
    using a(1) less_mult_imp_div_less [of u 768 1024] that by (auto simp: mapped_def Let_def D) (auto simp: s'_def tables_def)
qed

text \<open>
  C5: \<^verbatim>\<open>copy_page\<close> on a mapped page of the running process returns, and the page is then mapped to a frame that no
  one else holds and has the contents the page had.  A frame with a single reference is kept and gets the
  permissions of the area; otherwise the first free frame gets a copy, the old frame loses one
  reference and keeps its contents, so the processes that share it see no change.  No other page of the process
  changes its mapping.
\<close>

theorem copy_page_unshares:
  assumes "dir_ok (cr3 s) s" "self_mapped s" "2 \<le> card (slots (phys s (tmp_pgtab s)))"
    and v: "unat addr div 4096 = v" "v < 768 * 1024" and m: "mapped s (cr3 s) v = Some pte"
    and k: "phys_to_info s (entry_page pte) = k" "faddr s k = entry_page pte" "0 < ref s k" "k \<notin> set (frame_pool s)"
    and src: "entry_page pte \<notin> free_pages s \<union> tables s (cr3 s) \<union> {cr3 s, tmp_pgtab s}" and ne: "frame_pool s \<noteq> []"
  shows "\<exists>s' f. copy_page addr fl s = Some s' \<and> dir_ok (cr3 s) s' \<and>
    f = (if ref s k = 1 then k else hd (frame_pool s)) \<and> ref s' f = 1 \<and> phys s' (faddr s f) = phys s (entry_page pte) \<and>
    (\<forall>u < 768 * 1024. mapped s' (cr3 s) u =
       (if u = v then Some ((if ref s k = 1 then pte else faddr s f OR PE_P) OR vma_to_page_flags fl) else mapped s (cr3 s) u)) \<and>
    phys s' (entry_page pte) = phys s (entry_page pte) \<and> (f \<noteq> k \<longrightarrow> ref s' k = ref s k - 1) \<and>
    frame_pool s' = (if f = k then frame_pool s else tl (frame_pool s))"
proof (cases "ref s k = 1")
  case True
  have sl: "slots (phys s (tmp_pgtab s)) \<noteq> {}" using assms(3) by auto
  note md = mappedD [OF m]
  define s1 where "s1 = set_word (table s (cr3 s) (v div 1024)) (v mod 1024) (pte OR vma_to_page_flags fl) s"
  obtain T where T: "copy_page addr fl s = Some (with_tmp T s1)"
    using copy_page_single [OF assms(1,2) sl v m] True k(1) unfolding s1_def by blast
  have w: "entry_present (pte OR vma_to_page_flags fl)" using md by simp
  note e = enter_facts [OF assms(1) v(2) conjunct1 [OF md] w, folded s1_def]
  have "phys s1 (entry_page pte) = phys s (entry_page pte)"
    using src table_in [OF v(2)] md by (auto simp: s1_def set_word_def)
  then have "phys (with_tmp T s1) (entry_page pte) = phys s (entry_page pte)"
    using phys_with_tmp [OF dir_okD(2) [OF e(1)]] e(4) src by simp
  then show ?thesis
    using T True dir_ok_with [OF e(1)] e(2) k(2)
    by (intro exI [of _ "with_tmp T s1"] exI [of _ k]) (simp add: s1_def)
next
  case False
  have r: "2 \<le> unat (ref s k)" using k(3) False by unat_arith
  define t where "t = table s (cr3 s) (v div 1024)"
  define f where "f = hd (frame_pool s)"
  define s2 where "s2 = take_frame fl s"
  define s4 where "s4 = s2\<lparr>phys := (phys s2)(faddr s f := phys s (entry_page pte)), ref := (ref s2)(k := ref s k - 1)\<rparr>"
  define s5 where "s5 = copied fl pte t (v mod 1024) s"
  have s5: "s5 = set_word t (v mod 1024) (faddr s f OR PE_P OR vma_to_page_flags fl) s4"
    by (simp add: s5_def copied_def Let_def f_def s4_def s2_def k(1))
  obtain T where T: "copy_page addr fl s = Some (with_tmp T s5)"
    using copy_page_shared [OF assms(1,2,3) v m k(1) r k(4) _ _ ne] src unfolding s5_def t_def by blast
  note d = dir_okD [OF assms(1)] and md = mappedD [OF m]
  note h = head_frame [OF d(1) ne, folded f_def]
  have ok2: "dir_ok (cr3 s) s2" unfolding s2_def by (rule dir_ok_take(1) [OF assms(1) ne])
  have D2: "phys s2 (cr3 s) = phys s (cr3 s)" unfolding s2_def by (rule take_frame_other [OF d(1) ne d(5)])
  have t2: "tables s2 (cr3 s) = tables s (cr3 s)" by (simp add: tables_def D2)
  have c2: "cr3 s2 = cr3 s" by (simp add: s2_def)
  have F: "faddr s f \<notin> tables s2 (cr3 s)" "faddr s f \<noteq> cr3 s" "faddr s f \<noteq> cr3 s2"
    using h(1,4) d(6) c2 unfolding t2 by (auto simp: tables_def)
  note p4 = dir_ok_page [OF ok2 F, where c = "phys s (entry_page pte)" and r = "(ref s2)(k := ref s k - 1)", folded s4_def]
  have D4: "phys s4 (cr3 s) = phys s (cr3 s)" using p4(3) D2 by simp
  have t4: "t = table s4 (cr3 s) (v div 1024)" by (simp add: t_def D4)
  have w: "entry_present (faddr s f OR PE_P OR vma_to_page_flags fl)" by simp
  have v4: "entry_present (phys s4 (cr3 s) (v div 1024))" using md D4 by simp
  note e = enter_facts [OF p4(1) v(2) v4 w, folded t4, folded s5]
  have tt: "t \<in> tables s (cr3 s)" using table_in [OF v(2)] md by (simp add: t_def)
  have kf: "k \<noteq> f" using k(4) ne unfolding f_def by auto
  have tp: "tmp_pgtab s4 = tmp_pgtab s"
    using tmp_pgtab_take [OF d(1) ne, of fl] F(2) D2 D4 by (simp add: tmp_pgtab_def s4_def s2_def)
  have ph: "phys (with_tmp T s5) a = phys s4 a" if "a \<noteq> tmp_pgtab s" "a \<noteq> t" for a
    using phys_with_tmp [OF dir_okD(2) [OF e(1)], of T a] e(4) that tp by (simp add: s5 set_word_def)
  have "phys (with_tmp T s5) (faddr s f) = phys s (entry_page pte)"
    using ph [of "faddr s f"] h(3) F(1) tt unfolding t2 by (auto simp: s4_def)
  moreover have "phys (with_tmp T s5) (entry_page pte) = phys s (entry_page pte)"
  proof -
    have "entry_page pte \<noteq> t" using src tt by auto
    then show ?thesis
      using ph [of "entry_page pte"] src take_frame_other [OF d(1) ne, of "entry_page pte" fl] by (simp add: s4_def s2_def)
  qed
  moreover have "mapped (with_tmp T s5) (cr3 s) u =
      (if u = v then Some (faddr s f OR PE_P OR vma_to_page_flags fl) else mapped s (cr3 s) u)" if "u < 768 * 1024" for u
    using dir_ok_with(2) [OF e(1) that] e(2) [OF that] p4(2) [OF that] dir_ok_take(2) [OF assms(1) ne that] by (simp add: s2_def)
  moreover have "ref (with_tmp T s5) f = 1" "ref (with_tmp T s5) k = ref s k - 1" "frame_pool (with_tmp T s5) = tl (frame_pool s)"
    using kf by (simp_all add: s5) (simp_all add: s4_def s2_def f_def)
  ultimately show ?thesis
    using T False kf dir_ok_with(1) [OF e(1), of T]
    by (intro exI [of _ "with_tmp T s5"] exI [of _ f]) (simp add: f_def or.assoc)
qed

definition pg_shared :: paging where
  "pg_shared = pg_example\<lparr>phys := (phys pg_example)(0x1000 := (\<lambda>_. 0)(0 := 0x400007, 1023 := 0x2003),
       0x400000 := (\<lambda>_. 0)(5 := 0x401005), 0x401000 := (\<lambda>_. 7)),
     ref := (\<lambda>_. 0)(0 := 1, 1 := 2), frame_pool := [2, 3, 4]\<rparr>"

lemma pg_shared_phys:
  "phys pg_shared 0x1000 i = (if i = 1023 then 0x2003 else if i = 0 then 0x400007 else 0)"
  "phys pg_shared 0x400000 i = (if i = 5 then 0x401005 else 0)" "phys pg_shared 0x401000 = (\<lambda>_. 7)"
  "phys pg_shared 0x2000 = phys pg_example 0x2000" "cr3 pg_shared = 0x1000" "tmp_pgtab pg_shared = 0x2000"
  "faddr pg_shared k = 0x400000 + k * FRAME_SIZE" "frame_pool pg_shared = [2, 3, 4]"
  by (simp_all add: pg_shared_def pg_example_def tmp_pgtab_def entry_page_def)

lemma pg_shared_ok: "dir_ok 0x1000 pg_shared" "self_mapped pg_shared" "tables pg_shared 0x1000 = {0x400000}"
  "free_pages pg_shared = {0x402000, 0x403000, 0x404000}"
proof -
  show f: "free_pages pg_shared = {0x402000, 0x403000, 0x404000}" by (simp add: free_pages_def pg_shared_phys)
  have "pool_ok pg_shared" by (auto simp: pool_ok_def tmp_sep_def pg_shared_phys inj_on_def entry_page_def)
  then show "dir_ok 0x1000 pg_shared"
    unfolding dir_ok_def f by (auto simp: pg_shared_phys entry_page_def split: if_splits)
  show "self_mapped pg_shared" by (simp add: self_mapped_def pg_shared_phys) (simp add: pg_example_def entry_page_def entry_present_def)
  show "tables pg_shared 0x1000 = {0x400000}" by (auto simp: tables_def pg_shared_phys entry_page_def entry_present_def)
qed

theorem copy_page_unshares_witness:
  "\<exists>s'. copy_page 0x5123 (VM_READ OR VM_WRITE) pg_shared = Some s' \<and> mapped s' 0x1000 5 = Some 0x402007 \<and>
     phys s' 0x402000 = (\<lambda>_. 7) \<and> ref s' 1 = 1"
proof -
  have m: "mapped pg_shared 0x1000 5 = Some 0x401005" by (simp add: mapped_def pg_shared_phys entry_page_def entry_present_def)
  have k: "phys_to_info pg_shared 0x401000 = 1" "ref pg_shared 1 = 2" by (simp_all add: phys_to_info_def pg_shared_def pg_example_def)
  have a: "vma_to_page_flags (VM_READ OR VM_WRITE) = 6" "entry_page 0x401005 = 0x401000" by code_simp+
  show ?thesis
    using copy_page_unshares [of pg_shared "0x5123" 5 "0x401005" 1 "VM_READ OR VM_WRITE"] pg_shared_ok m k a
    by (simp add: pg_shared_phys pg_example_slots) (auto simp: a pg_shared_phys)
qed

section \<open>Cloning a page table\<close>

definition centry :: "u32 \<Rightarrow> u32 \<Rightarrow> nat \<Rightarrow> paging \<Rightarrow> paging" where
  "centry g F i s =
     (let e = phys s g i; k = phys_to_info s (entry_page e)
      in if entry_present e then set_word F i e (s\<lparr>ref := (ref s)(k := ref s k + 1)\<rparr>) else s)"

text \<open>The number of entries of a page table that map the frame \<open>k\<close>.\<close>

definition entry_count :: "paging \<Rightarrow> u32 \<Rightarrow> nat \<Rightarrow> u32 \<Rightarrow> nat" where
  "entry_count s g n k = card {i. i < n \<and> entry_present (phys s g i) \<and> phys_to_info s (entry_page (phys s g i)) = k}"

lemma clone_entry_with:
  assumes "tmp_sep s" "entry_page (T (addr_to_pti p)) = g" "entry_page (T (addr_to_pti q)) = F"
    "g \<noteq> tmp_pgtab s" "F \<noteq> tmp_pgtab s" "F \<noteq> cr3 s"
  shows "clone_entry p q i (with_tmp T s) = with_tmp T (centry g F i s)"
    "tmp_sep (centry g F i s)" "tmp_pgtab (centry g F i s) = tmp_pgtab s" "cr3 (centry g F i s) = cr3 s"
proof -
  have ld: "load (with_tmp T s) p i = phys s g i" using load_with [of s T p i] assms by simp
  have sep: "tmp_sep (s\<lparr>ref := r\<rparr>)" for r using assms(1) by (simp add: tmp_sep_def with_tmp_ref)
  show "clone_entry p q i (with_tmp T s) = with_tmp T (centry g F i s)"
    using store_with [OF sep, of T q F] assms by (simp add: clone_entry_def centry_def Let_def ld with_tmp_ref)
  show "tmp_sep (centry g F i s)" "tmp_pgtab (centry g F i s) = tmp_pgtab s" "cr3 (centry g F i s) = cr3 s"
    using assms by (simp_all add: centry_def Let_def tmp_sep_def with_tmp_ref)
qed

lemma clone_entries_with:
  assumes "tmp_sep s" "entry_page (T (addr_to_pti p)) = g" "entry_page (T (addr_to_pti q)) = F"
    "g \<noteq> tmp_pgtab s" "F \<noteq> tmp_pgtab s" "F \<noteq> cr3 s"
  shows "fold (clone_entry p q) xs (with_tmp T s) = with_tmp T (fold (centry g F) xs s)"
  using assms
proof (induction xs arbitrary: s)
  case (Cons x xs)
  note c = clone_entry_with [OF Cons.prems, of x]
  have "fold (clone_entry p q) xs (with_tmp T (centry g F x s)) = with_tmp T (fold (centry g F) xs (centry g F x s))"
    using Cons.prems c(2-4) by (intro Cons.IH) simp_all
  then show ?case by (simp add: c(1))
qed simp

lemma entry_count_Suc:
  "entry_count s g (Suc n) k = entry_count s g n k +
     (if entry_present (phys s g n) \<and> phys_to_info s (entry_page (phys s g n)) = k then 1 else 0)"
proof -
  have "{i. i < Suc n \<and> entry_present (phys s g i) \<and> phys_to_info s (entry_page (phys s g i)) = k} =
      {i. i < n \<and> entry_present (phys s g i) \<and> phys_to_info s (entry_page (phys s g i)) = k} \<union>
      (if entry_present (phys s g n) \<and> phys_to_info s (entry_page (phys s g n)) = k then {n} else {})"
    by (auto simp: less_Suc_eq)
  then show ?thesis by (auto simp: entry_count_def)
qed

lemma centries:
  assumes "g \<noteq> F"
  shows "phys (fold (centry g F) [0..<n] s) =
      (phys s)(F := (\<lambda>i. if i < n \<and> entry_present (phys s g i) then phys s g i else phys s F i)) \<and>
    ref (fold (centry g F) [0..<n] s) = (\<lambda>k. ref s k + of_nat (entry_count s g n k)) \<and>
    frame_pool (fold (centry g F) [0..<n] s) = frame_pool s \<and> fp_start (fold (centry g F) [0..<n] s) = fp_start s \<and>
    faddr (fold (centry g F) [0..<n] s) = faddr s \<and> cr3 (fold (centry g F) [0..<n] s) = cr3 s"
proof (induction n)
  case 0
  then show ?case by (simp add: entry_count_def)
next
  case (Suc n)
  define s1 where "s1 = fold (centry g F) [0..<n] s"
  have i: "phys_to_info s1 = phys_to_info s" using Suc.IH by (simp add: s1_def phys_to_info_def fun_eq_iff)
  have g: "phys s1 g n = phys s g n" using Suc.IH assms by (simp add: s1_def)
  have "fold (centry g F) [0..<Suc n] s = centry g F n s1" by (simp add: s1_def)
  moreover have "phys (centry g F n s1) = (phys s)(F := (\<lambda>i. if i < Suc n \<and> entry_present (phys s g i) then phys s g i else phys s F i))"
    using Suc.IH g unfolding s1_def [symmetric] by (auto simp: centry_def Let_def set_word_def fun_eq_iff less_Suc_eq)
  moreover have "ref (centry g F n s1) = (\<lambda>k. ref s k + of_nat (entry_count s g (Suc n) k))"
    using Suc.IH g i unfolding s1_def [symmetric] by (auto simp: centry_def Let_def entry_count_Suc fun_eq_iff)
  moreover have "frame_pool (centry g F n s1) = frame_pool s" "fp_start (centry g F n s1) = fp_start s"
    "faddr (centry g F n s1) = faddr s" "cr3 (centry g F n s1) = cr3 s"
    using Suc.IH unfolding s1_def [symmetric] by (simp_all add: centry_def Let_def)
  ultimately show ?case by simp
qed

lemma kmap_none:
  assumes "tmp_sep s" "slots T = {}"
  shows "kmap_tmp_page a (with_tmp T s) = None"
proof -
  define ks where "ks = [NR_RESERVED_PAGES..<1024 - NR_HIGH_PAGES]"
  have "set ks = {4..<1018}" by (simp add: ks_def del: upt_rec_numeral)
  then have "List.find (\<lambda>i. \<not> entry_present (T i)) ks = None" using assms(2) by (auto simp: find_None_iff slots_def)
  then show ?thesis unfolding kmap_tmp_page_def ks_def [symmetric] using assms(1) by (simp add: phys_with_tmp)
qed

lemma clone_pgtab_none:
  assumes ok: "pool_ok s" and ne: "frame_pool s \<noteq> []" and g: "entry_page g = g"
    and sl: "card (slots (phys s (tmp_pgtab s))) < 2"
  shows "clone_pgtab g s = None"
proof -
  define T where "T = phys s (tmp_pgtab s)"
  have s: "s = with_tmp T s" unfolding T_def by (simp add: with_tmp_self)
  have sep: "tmp_sep s" using ok by (simp add: pool_ok_def)
  show ?thesis
  proof (cases "slots T = {}")
    case True
    define s0 where "s0 = s\<lparr>frame_pool := tl (frame_pool s), ref := (ref s)(hd (frame_pool s) := 1)\<rparr>"
    have "tmp_sep s0" "phys s0 (tmp_pgtab s0) = T" using sep by (simp_all add: s0_def tmp_sep_def tmp_pgtab_def T_def)
    then have "kmap_tmp_page a s0 = None" for a using kmap_none [of s0 T a] True by (metis with_tmp_self)
    then have "kalloc_frame VM_ZERO s = None" using ne by (cases "frame_pool s") (simp_all add: kalloc_frame_def Let_def s0_def)
    then show ?thesis by (simp add: clone_pgtab_def)
  next
    case False
    obtain T1 where T1: "kalloc_frame VM_ZERO s = Some (hd (frame_pool s), with_tmp T1 (take_frame VM_ZERO s))" "same_tmp T T1"
      using kalloc_with [OF ok ne False] s by metis
    have sep1: "tmp_sep (take_frame VM_ZERO s)" using pool_ok_take [OF ok ne] by (simp add: pool_ok_def)
    obtain p where p: "addr_to_pti p \<in> slots T1" "kmap_tmp_page g (with_tmp T1 (take_frame VM_ZERO s)) =
        Some (p, with_tmp (T1(addr_to_pti p := g OR PE_P OR PE_RW)) (take_frame VM_ZERO s))"
      using kmap_with [OF sep1 g] slots_same [OF T1(2)] False by metis
    have "card (slots T1 - {addr_to_pti p}) = 0" using p(1) sl slots_same [OF T1(2)] unfolding T_def by simp
    then have "slots (T1(addr_to_pti p := g OR PE_P OR PE_RW)) = {}" by (simp add: slots_upd)
    then show ?thesis using T1(1) p(2) kmap_none [OF sep1] by (simp add: clone_pgtab_def)
  qed
qed

text \<open>
  C6: \<^verbatim>\<open>clone_pgtab\<close> makes a copy of a page table in the first free frame and counts a reference for every entry that maps a frame.
  It never gives back the two temporary pages it maps the tables at, so every call leaves two fewer of
  them, and when fewer than two are left the kernel panics.
\<close>

theorem clone_pgtab_leaks:
  assumes "pool_ok s" "frame_pool s \<noteq> []" "entry_page g = g" "g \<notin> free_pages s" "g \<noteq> tmp_pgtab s"
  shows "if card (slots (phys s (tmp_pgtab s))) < 2 then clone_pgtab g s = None
    else \<exists>s' F. F = faddr s (hd (frame_pool s)) \<and> clone_pgtab g s = Some (F, s') \<and>
      phys s' F = (\<lambda>i. if i < 1024 \<and> entry_present (phys s g i) then phys s g i else 0) \<and> phys s' g = phys s g \<and>
      (\<forall>k. ref s' k = ((ref s)(hd (frame_pool s) := 1)) k + of_nat (entry_count s g 1024 k)) \<and>
      frame_pool s' = tl (frame_pool s) \<and>
      card (slots (phys s' (tmp_pgtab s'))) = card (slots (phys s (tmp_pgtab s))) - 2"
proof (cases "card (slots (phys s (tmp_pgtab s))) < 2")
  case True
  then show ?thesis using clone_pgtab_none [OF assms(1-3)] by simp
next
  case False
  define T where "T = phys s (tmp_pgtab s)"
  define f where "f = hd (frame_pool s)"
  define F where "F = faddr s f"
  define s1 where "s1 = take_frame VM_ZERO s"
  define ks where "ks = [0..<1024::nat]"
  have s: "s = with_tmp T s" unfolding T_def by (simp add: with_tmp_self)
  note h = head_frame [OF assms(1,2), folded f_def, folded F_def]
  have tp: "tmp_pgtab s1 = tmp_pgtab s" unfolding s1_def by (rule tmp_pgtab_take [OF assms(1,2)])
  have sep: "tmp_sep s1" using pool_ok_take [OF assms(1,2)] by (simp add: s1_def pool_ok_def)
  have sl: "2 \<le> card (slots T)" using False unfolding T_def by simp
  then have "slots T \<noteq> {}" by auto
  then obtain T1 where T1: "kalloc_frame VM_ZERO s = Some (f, with_tmp T1 s1)" "same_tmp T T1"
    using kalloc_with [OF assms(1,2)] s unfolding s1_def f_def by metis
  have "slots T1 \<noteq> {}" using slots_same [OF T1(2)] sl by auto
  then obtain p where p: "addr_to_pti p \<in> slots T1" "kmap_tmp_page g (with_tmp T1 s1) = Some (p, with_tmp (T1(addr_to_pti p := g OR PE_P OR PE_RW)) s1)"
    using kmap_with [OF sep assms(3)] by metis
  define T2 where "T2 = T1(addr_to_pti p := g OR PE_P OR PE_RW)"
  have c2: "card (slots T2) = card (slots T) - 1" using p(1) slots_same [OF T1(2)] by (simp add: T2_def slots_upd)
  then have "slots T2 \<noteq> {}" using sl by auto
  then obtain q where q: "addr_to_pti q \<in> slots T2" "kmap_tmp_page F (with_tmp T2 s1) = Some (q, with_tmp (T2(addr_to_pti q := F OR PE_P OR PE_RW)) s1)"
    using kmap_with [OF sep h(2)] by metis
  define T3 where "T3 = T2(addr_to_pti q := F OR PE_P OR PE_RW)"
  have c3: "card (slots T3) = card (slots T) - 2" using q(1) c2 by (simp add: T3_def slots_upd)
  have pq: "addr_to_pti p \<noteq> addr_to_pti q" using q(1) by (auto simp: T2_def slots_upd)
  have al: "entry_page (T3 (addr_to_pti p)) = g" "entry_page (T3 (addr_to_pti q)) = F"
    using pq assms(3) h(2) by (simp_all add: T3_def T2_def entry_page_or)
  have gF: "g \<noteq> F" using assms(4) h(1) by auto
  define s2 where "s2 = fold (centry g F) ks s1"
  have fold: "fold (clone_entry p q) ks (with_tmp T3 s1) = with_tmp T3 s2"
    unfolding s2_def using al assms(5) h(3,4) tp by (intro clone_entries_with [OF sep]) (simp_all add: s1_def)
  have cl: "clone_pgtab g s = Some (F, with_tmp T3 s2)"
    using T1(1) p(2) [folded T2_def] q(2) [folded T3_def] fold unfolding clone_pgtab_def ks_def [symmetric]
    by (simp add: s1_def F_def)
  note c = centries [OF gF, of 1024 s1, folded ks_def, folded s2_def]
  have cnt: "entry_count s1 g 1024 = entry_count s g 1024"
    using take_frame_other [OF assms(1,2,4)] by (simp add: entry_count_def s1_def fun_eq_iff)
  have gg: "phys s1 g = phys s g" unfolding s1_def by (rule take_frame_other [OF assms(1,2,4)])
  have t2: "tmp_pgtab s2 = tmp_pgtab s" using c h(4) tp by (simp add: tmp_pgtab_def s1_def)
  then have sep2: "tmp_sep s2" using c sep tp by (simp add: tmp_sep_def)
  have ph: "phys (with_tmp T3 s2) a = (if a = tmp_pgtab s then T3 else phys s2 a)" for a
    using phys_with_tmp [OF sep2] t2 by simp
  have "phys s1 F = (\<lambda>_. 0)" by (simp add: s1_def phys_take_frame F_def f_def)
  then have "phys (with_tmp T3 s2) F = (\<lambda>i. if i < 1024 \<and> entry_present (phys s g i) then phys s g i else 0)"
    using c h(3) gg by (auto simp: ph fun_eq_iff)
  moreover have "phys (with_tmp T3 s2) g = phys s g" using c gF gg assms(5) by (simp add: ph)
  moreover have "\<forall>k. ref (with_tmp T3 s2) k = ((ref s)(f := 1)) k + of_nat (entry_count s g 1024 k)"
    using c cnt by (simp add: s1_def f_def)
  moreover have "frame_pool (with_tmp T3 s2) = tl (frame_pool s)" using c by (simp add: s1_def)
  moreover have "card (slots (phys (with_tmp T3 s2) (tmp_pgtab (with_tmp T3 s2)))) = card (slots T) - 2"
    using sep2 t2 c3 by (simp add: ph)
  ultimately show ?thesis using False cl unfolding T_def f_def F_def by auto
qed

theorem clone_pgtab_leaks_witness:
  "\<exists>s'. clone_pgtab 0x400000 pg_shared = Some (0x402000, s') \<and> phys s' 0x402000 5 = 0x401005 \<and> ref s' 1 = 3 \<and>
     card (slots (phys s' (tmp_pgtab s'))) = 1012"
proof -
  have p: "pool_ok pg_shared" using pg_shared_ok(1) by (simp add: dir_ok_def)
  have "{i. i < 1024 \<and> entry_present (phys pg_shared 0x400000 i) \<and> phys_to_info pg_shared (entry_page (phys pg_shared 0x400000 i)) = 1} = {5}"
    by (auto simp: pg_shared_phys entry_page_def entry_present_def phys_to_info_def) (simp add: pg_shared_def pg_example_def)
  then have "entry_count pg_shared 0x400000 1024 1 = 1" by (simp add: entry_count_def)
  moreover have "ref pg_shared 1 = 2" by (simp add: pg_shared_def)
  ultimately show ?thesis
    using clone_pgtab_leaks [OF p, of "0x400000"] pg_shared_ok(4)
    by (auto simp: pg_shared_phys pg_example_slots entry_page_def entry_present_def)
qed

section \<open>The frame table\<close>

text \<open>The free frames are those without references, each once, and frame \<open>k\<close> is the \<open>k\<close>-th page of the pool's memory.\<close>

definition frames_ok :: "nat \<Rightarrow> paging \<Rightarrow> bool" where
  "frames_ok n s \<longleftrightarrow> page_aligned (fp_start s) \<and> unat (fp_start s) + n * 4096 \<le> 2 ^ 32 \<and>
     (\<forall>k. unat k < n \<longrightarrow> faddr s k = fp_start s + k * FRAME_SIZE) \<and> distinct (frame_pool s) \<and>
     (\<forall>k. k \<in> set (frame_pool s) \<longleftrightarrow> unat k < n \<and> ref s k = 0)"

lemma kalloc_frameD:
  assumes "kalloc_frame fl s = Some (f, s')"
  shows "frame_pool s = f # frame_pool s' \<and> ref s' = (ref s)(f := 1) \<and> faddr s' = faddr s \<and> fp_start s' = fp_start s"
proof -
  have k: "frame_pool s2 = frame_pool s1 \<and> ref s2 = ref s1 \<and> faddr s2 = faddr s1 \<and> fp_start s2 = fp_start s1"
    if "kmap_tmp_page a s1 = Some (p, s2)" for a s1 p s2
    using that by (auto simp: kmap_tmp_page_def split: bind_splits)
  show ?thesis
    using assms by (auto simp: kalloc_frame_def Let_def kunmap_tmp_page_def split: list.splits if_splits bind_splits dest!: k)
qed

lemma init_frames:
  "faddr (fold (init_frame start r) xs s) k = (if k \<in> of_nat ` set xs then start + k * FRAME_SIZE else faddr s k)"
  "ref (fold (init_frame start r) xs s) k = (if k \<in> of_nat ` set xs then r else ref s k)"
  "frame_pool (fold (init_frame start r) xs s) = frame_pool s" "fp_start (fold (init_frame start r) xs s) = fp_start s"
  by (induction xs arbitrary: s) (auto simp: init_frame_def)

lemma pool_frames:
  "faddr (fold (\<lambda>i s. add_tail_frame i (init_frame start r i s)) xs s) k =
     (if k \<in> of_nat ` set xs then start + k * FRAME_SIZE else faddr s k)"
  "ref (fold (\<lambda>i s. add_tail_frame i (init_frame start r i s)) xs s) k = (if k \<in> of_nat ` set xs then r else ref s k)"
  "frame_pool (fold (\<lambda>i s. add_tail_frame i (init_frame start r i s)) xs s) = frame_pool s @ map of_nat xs"
  "fp_start (fold (\<lambda>i s. add_tail_frame i (init_frame start r i s)) xs s) = fp_start s"
  by (induction xs arbitrary: s) (auto simp: init_frame_def add_tail_frame_def)

lemma fold_set_word: "frame_pool (fold (\<lambda>i. set_word (a i) (b i) (c i)) xs s) = frame_pool s"
  by (induction xs arbitrary: s) simp_all

lemma below_image: "m \<le> 2 ^ 32 \<Longrightarrow> k \<in> of_nat ` {l..<m} \<longleftrightarrow> l \<le> unat k \<and> unat (k :: u32) < m"
proof
  assume "l \<le> unat k \<and> unat k < m"
  then show "k \<in> of_nat ` {l..<m}" by (intro image_eqI [of _ _ "unat k"]) auto
next
  assume "m \<le> 2 ^ 32" "k \<in> of_nat ` {l..<m}"
  then show "l \<le> unat k \<and> unat k < m" by (auto simp: unat_of_nat)
qed

lemma frame_pool_init_ok:
  assumes "frame_pool_init ft start e s = Some s'" "frame_pool s = []" "page_aligned start" "page_aligned e" "start \<le> e"
    and n: "n = unat (e - start) div 4096"
  shows "frames_ok n s'"
proof -
  define nr where "nr = align_up (e - start) FRAME_SIZE div FRAME_SIZE"
  define k where "k = (nr * 16) div FRAME_SIZE + 1"
  have d: "4096 dvd unat (e - start)"
    using assms(3-5) by (simp add: page_aligned_iff unat_sub_if_size word_le_nat_alt dvd_diff_nat)
  then have "align_up (e - start) FRAME_SIZE = e - start"
    using page_aligned_iff [of "e - start"] by (simp add: align_up_def page_aligned_def)
  then have nr: "unat nr = n" by (simp add: nr_def n unat_div_distrib)
  have lt: "n < 2 ^ 20" using n u32_bound [of "e - start"] by (simp add: less_mult_imp_div_less)
  have "unat (nr * 16) = n * 16" using nr lt by (simp add: unat_word_ariths)
  then have "unat (nr * 16 div FRAME_SIZE) = n * 16 div 4096" by (simp add: unat_div_distrib)
  then have k: "unat k = n * 16 div 4096 + 1" using lt unfolding k_def by (subst unat_add_no_wrap) auto
  have kb: "unat k \<le> 2 ^ 32" "n \<le> 2 ^ 32" using u32_bound [of k] lt by simp_all
  define s1 where "s1 = fold (\<lambda>i. set_word (kernel_to_phys (ft (i div 1024))) (i mod 1024)
      ((start + of_nat i * FRAME_SIZE) OR PE_P OR PE_RW)) [0..<unat k]
    (set_word (kernel_pgdir s) (addr_to_pdi (phys_to_kernel start) + 1) (kernel_to_phys (ft 1) OR PE_P OR PE_RW)
      (set_word (kernel_pgdir s) (addr_to_pdi (phys_to_kernel start)) (kernel_to_phys (ft 0) OR PE_P OR PE_RW) s))"
  have "s' = (fold (\<lambda>i s. add_tail_frame i (init_frame start 0 i s)) [unat k..<n]
      (fold (init_frame start 1) [0..<unat k] (s1\<lparr>fp_start := start\<rparr>)))\<lparr>first_free := phys_to_kernel start div FRAME_SIZE + k\<rparr>"
    using assms(1) nr unfolding frame_pool_init_def Let_def nr_def [symmetric] k_def [symmetric] s1_def
    by (simp split: if_splits)
  moreover have "frame_pool s1 = []" using assms(2) by (simp add: s1_def fold_set_word)
  ultimately have s1: "frame_pool s1 = []" "s' = (fold (\<lambda>i s. add_tail_frame i (init_frame start 0 i s)) [unat k..<n]
      (fold (init_frame start 1) [0..<unat k] (s1\<lparr>fp_start := start\<rparr>)))\<lparr>first_free := phys_to_kernel start div FRAME_SIZE + k\<rparr>"
    by simp_all
  have "frame_pool s' = map of_nat [unat k..<n]" using s1 by (simp add: pool_frames init_frames)
  moreover have "distinct (map of_nat [unat k..<n] :: u32 list)"
    using lt by (auto simp: distinct_map inj_on_def unat_of_nat dest!: arg_cong [of _ _ unat])
  moreover have "fp_start s' = start" using s1 by (simp add: pool_frames init_frames)
  moreover have "unat start + n * 4096 \<le> 2 ^ 32"
    using d assms(5) u32_bound [of e] by (simp add: n unat_sub_if_size word_le_nat_alt)
  moreover have "faddr s' i = start + i * FRAME_SIZE" if "unat i < n" for i
    using s1(2) that kb below_image [of n i "unat k"] below_image [of "unat k" i 0]
    by (auto simp: pool_frames init_frames)
  moreover have "ref s' i = (if unat k \<le> unat i then 0 else 1)" if "unat i < n" for i
    using s1(2) that kb below_image [of n i "unat k"] below_image [of "unat k" i 0]
    by (auto simp: pool_frames init_frames)
  ultimately show ?thesis
    using assms(3) below_image [OF kb(2)] unfolding frames_ok_def by (auto split: if_splits)
qed

lemma frames_ok_kalloc:
  assumes "frames_ok n s" "kalloc_frame fl s = Some (f, s')"
  shows "frames_ok n s'" "ref s f = 0" "ref s' f = 1" "f \<notin> set (frame_pool s')"
proof -
  note d = kalloc_frameD [OF assms(2)]
  have k: "k \<in> set (f # frame_pool s') \<longleftrightarrow> unat k < n \<and> ref s k = 0" for k
    using assms(1) d by (simp add: frames_ok_def)
  have f: "f \<notin> set (frame_pool s')" "distinct (frame_pool s')" using assms(1) d by (auto simp: frames_ok_def)
  then show "f \<notin> set (frame_pool s')" by simp
  show "ref s f = 0" using k [of f] by simp
  show "ref s' f = 1" using d by simp
  have "k \<in> set (frame_pool s') \<longleftrightarrow> unat k < n \<and> ref s' k = 0" for k
    using k [of k] f d by (cases "k = f") auto
  then show "frames_ok n s'" using assms(1) d f(2) by (simp add: frames_ok_def)
qed

lemma frames_ok_kfree:
  assumes "frames_ok n s" "unat f < n" "0 < ref s f"
  shows "frames_ok n (kfree_frame f s)"
proof -
  have "f \<notin> set (frame_pool s)" using assms by (auto simp: frames_ok_def)
  then show ?thesis using assms by (auto simp: frames_ok_def kfree_frame_def do_kfree_frame_def Let_def)
qed

text \<open>Any sequence of allocations and releases, where only held frames are released.\<close>

inductive frame_step :: "nat \<Rightarrow> paging \<Rightarrow> paging \<Rightarrow> bool" for n where
  alloc: "kalloc_frame fl s = Some (f, s') \<Longrightarrow> frame_step n s s'"
| release: "unat f < n \<Longrightarrow> 0 < ref s f \<Longrightarrow> frame_step n s (kfree_frame f s)"

inductive_cases frame_stepE: "frame_step n s s'"

lemma frames_ok_step: "frame_step n s s' \<Longrightarrow> frames_ok n s \<Longrightarrow> frames_ok n s'"
  by (erule frame_stepE) (auto intro: frames_ok_kalloc(1) frames_ok_kfree)

text \<open>
  C7: the frame table is well-formed after its initialisation and stays so under every sequence of frame allocations and
  releases of held frames: each frame has the address of its place, and the pool holds every frame without references once and no other.
  So an allocation never hands out a frame that is in use.
\<close>

theorem frame_table_well_formed:
  assumes "frame_pool_init ft start e s = Some s0" "frame_pool s = []" "page_aligned start" "page_aligned e" "start \<le> e"
    and steps: "(frame_step (unat (e - start) div 4096))\<^sup>*\<^sup>* s0 s1"
  shows "frames_ok (unat (e - start) div 4096) s1 \<and>
    (\<forall>fl f s2. kalloc_frame fl s1 = Some (f, s2) \<longrightarrow> ref s1 f = 0 \<and> ref s2 f = 1 \<and> f \<notin> set (frame_pool s2))"
proof -
  have "frames_ok (unat (e - start) div 4096) s1"
    using steps by induction (auto intro: frame_pool_init_ok [OF assms(1-5) refl] frames_ok_step)
  then show ?thesis using frames_ok_kalloc by blast
qed

theorem frame_table_well_formed_witness:
  "\<exists>s0. frame_pool_init (\<lambda>_. 0xC0005000) 0x400000 0x410000 (pg_example\<lparr>frame_pool := []\<rparr>) = Some s0 \<and> frames_ok 16 s0"
proof -
  have "\<exists>s0. frame_pool_init (\<lambda>_. 0xC0005000) 0x400000 0x410000 (pg_example\<lparr>frame_pool := []\<rparr>) = Some s0"
    by (simp add: frame_pool_init_def Let_def align_up_def)
  then obtain s0 where "frame_pool_init (\<lambda>_. 0xC0005000) 0x400000 0x410000 (pg_example\<lparr>frame_pool := []\<rparr>) = Some s0" by blast
  then show ?thesis using frame_table_well_formed [of _ "0x400000" "0x410000" _ s0 s0] by (simp add: page_aligned_def)
qed

text \<open>
  Without memory limits from the boot loader the kernel assumes 8 MB, but writes bytes into a field that counts
  kilobytes: the end of memory becomes 1 MB, below the heap, and the pool cannot be set up.
\<close>

lemma undetected_memory_panics:
  assumes "page_aligned h" "0x100000 < h" "h \<le> 0x40000000"
  shows "MULTIBOOT_MEM_MAX (info\<lparr>mem_upper := 0x800000\<rparr>) = 0x100000" "frame_pool_init ft h 0x100000 s = None"
proof -
  show "MULTIBOOT_MEM_MAX (info\<lparr>mem_upper := 0x800000\<rparr>) = 0x100000" by (simp add: MULTIBOOT_MEM_MAX_def)
  have h: "4096 dvd unat h" "1048576 < unat h" "unat h \<le> 1073741824"
    using assms by (simp_all add: page_aligned_iff word_less_nat_alt word_le_nat_alt)
  have d: "unat (0x100000 - h) = 4296015872 - unat h" using h(2,3) by (simp add: unat_sub_if_size word_size)
  have "4096 dvd (4296015872 - unat h)" using h(1) by (intro dvd_diff_nat) simp_all
  then have al: "align_up (0x100000 - h) FRAME_SIZE = 0x100000 - h"
    using page_aligned_iff [of "0x100000 - h"] d by (simp add: align_up_def page_aligned_def)
  define nr where "nr = (0x100000 - h) div FRAME_SIZE"
  have nr: "unat nr = (4296015872 - unat h) div 4096" by (simp add: nr_def unat_div_distrib d)
  have b: "3222274048 div 4096 \<le> unat nr" "unat nr \<le> 4294967296 div 4096"
    unfolding nr using h(2,3) by (intro div_le_mono; simp)+
  then have "unat (nr * 16) = unat nr * 16" by (simp add: unat_word_ariths)
  then have "unat (nr * 16 div FRAME_SIZE) = unat nr * 16 div 4096" by (simp add: unat_div_distrib)
  moreover have "786688 * 16 div 4096 \<le> unat nr * 16 div 4096" "unat nr * 16 div 4096 \<le> 1048576 * 16 div 4096"
    using b by (intro div_le_mono; simp)+
  ultimately have "2048 < nr * 16 div FRAME_SIZE + 1" by (simp add: word_less_nat_alt unat_word_ariths)
  then show "frame_pool_init ft h 0x100000 s = None"
    unfolding frame_pool_init_def Let_def al nr_def [symmetric] by simp
qed

end
