(* ===== verification/Proc.thy ===== *)
theory Proc
  imports Bitops Vma
begin

text \<open>
  The data of processes: \<^verbatim>\<open>src/include/kernel/process.h\<close>, \<^verbatim>\<open>src/include/kernel/signal.h\<close> and
  \<^verbatim>\<open>src/include/kernel/timer.h\<close>, and the kernel's global variables that the scheduler, the signal,
  timer and process code share.  A \<^verbatim>\<open>struct pcb *\<close> is an index into the process table; a
  \<^verbatim>\<open>struct timer *\<close> says which timer it is.  The lists linked through \<^verbatim>\<open>struct pcb\<close> are lists of
  indices; \<open>chain_bad\<close> records that the \<^verbatim>\<open>chain\<close> node of a process or a timer was put on a list while
  it was on one already, or taken off a list while it was on none, after which the C lists are
  corrupted.
\<close>

section \<open>Signals\<close>

datatype handler = SIG_DFL | SIG_ERR | SIG_HOLD | SIG_IGN | Sig_terminate | Sig_stop | User_handler u32

record siginfo =
  si_signo :: int
  si_code :: int
  si_errno :: int
  si_pid :: int
  si_uid :: int
  si_addr :: u32
  si_status :: int
  si_band :: int
  si_value :: u32

record sigaction =
  sa_handler :: handler
  sa_mask :: u32
  sa_flags :: u32

record sig_struct =
  pending :: u32
  mask :: u32
  restore :: u32
  actions :: "sigaction list"
  infos :: "siginfo list"

section \<open>Timers\<close>

abbreviation (input) TF_ALWAYS :: u32 where "TF_ALWAYS \<equiv> 1"
abbreviation (input) TF_STATIC :: u32 where "TF_STATIC \<equiv> 2"
abbreviation (input) TF_ARMED :: u32 where "TF_ARMED \<equiv> 4"

text \<open>The timers embedded in a process control block, in a POSIX timer, and those from the slab.\<close>

datatype tref = T_alarm nat | T_sleep nat | T_posix nat | T_slab nat

text \<open>The callbacks, with the pointer they are called with.\<close>

datatype taction = Wake_action nat | Alrm_action nat | Posix_timer_action nat

record timer =
  taction :: taction
  expires :: u32
  tflags :: u32

record sigevent =
  sigev_notify :: int
  sigev_signo :: int
  sigev_value :: u32

record timespec =
  tv_sec :: u32
  tv_nsec :: int

record itimerspec =
  it_interval :: timespec
  it_value :: timespec

record posix_timer =
  sev :: sigevent
  spec :: itimerspec
  pt_pid :: int
  timerid :: u32

section \<open>Processes\<close>

datatype pstate =
    PROC_DEAD | PROC_NASCENT | PROC_READY | PROC_RUNNING | PROC_STOPPED | PROC_ZOMBIE
  | PROC_SIGWAIT | PROC_WAITING | PROC_INTERRUPTIBLE

abbreviation (input) PFLAG_SUPER :: u32 where "PFLAG_SUPER \<equiv> 1"
abbreviation (input) PT_SIZE :: int where "PT_SIZE \<equiv> 256"

record proc_status =
  st_pid :: int
  st_status :: int

text \<open>\<open>words\<close> are the words of memory the process sees, by address; \<open>filp\<close> holds file numbers.\<close>

record pcb =
  rc :: int
  esp :: u32
  ifp :: u32
  pmm :: mm_struct
  pid :: int
  parent_pid :: int
  pflags :: u32
  state :: pstate
  child_stats :: "proc_status list"
  children :: "nat list"
  timestamp :: u32
  posix_timers_of :: "nat list"
  posix_timer_id :: u32
  sig :: sig_struct
  filp :: "nat option list"
  pwd :: nat
  root :: nat
  words :: "u32 \<Rightarrow> u32"

record kernel =
  proctab :: "pcb list"
  current :: nat
  idle_pid :: int
  ready_queue :: "nat list"
  zombies :: "nat list"
  chain_bad :: bool
  timers :: "tref list"
  tmr :: "tref \<Rightarrow> timer"
  tick_count :: u32
  system_clock :: u32
  ptimer :: "nat \<Rightarrow> posix_timer"
  ptimers :: "nat \<Rightarrow> nat list"
  next_ptimer :: nat

definition pcb_at :: "kernel \<Rightarrow> nat \<Rightarrow> pcb" where
  "pcb_at k p = proctab k ! p"

definition upd_pcb :: "nat \<Rightarrow> (pcb \<Rightarrow> pcb) \<Rightarrow> kernel \<Rightarrow> kernel" where
  "upd_pcb p f k = k\<lparr>proctab := (proctab k)[p := f (proctab k ! p)]\<rparr>"

definition set_state :: "pstate \<Rightarrow> nat \<Rightarrow> kernel \<Rightarrow> kernel" where
  "set_state s p k = upd_pcb p (\<lambda>c. c\<lparr>state := s\<rparr>) k"

text \<open>\<^verbatim>\<open>pid & PID_MASK\<close> is the residue of the pid modulo the size of the table.\<close>

definition get_pcb :: "int \<Rightarrow> kernel \<Rightarrow> nat option" where
  "get_pcb pd k =
     (let p = nat (pd mod PT_SIZE)
      in if state (pcb_at k p) \<noteq> PROC_DEAD \<and> pid (pcb_at k p) = pd then Some p else None)"

section \<open>File descriptors\<close>

abbreviation (input) NR_FILES :: int where "NR_FILES \<equiv> 8"

definition fd_file :: "pcb \<Rightarrow> int \<Rightarrow> nat option" where
  "fd_file c fd = (if fd \<ge> 0 \<and> fd < NR_FILES then filp c ! nat fd else None)"

text \<open>\<^verbatim>\<open>fd_ok\<close> indexes the table with a negative descriptor, too, which is outside of it.\<close>

definition fd_ok :: "pcb \<Rightarrow> int \<Rightarrow> bool outcome" where
  "fd_ok c fd =
     (if fd < NR_FILES then if fd < 0 then Stuck else Ret (filp c ! nat fd \<noteq> None) else Ret False)"

fun get_fd_from :: "pcb \<Rightarrow> nat \<Rightarrow> nat \<Rightarrow> errno + nat" where
  "get_fd_from c 0 start = Inl EMFILE"
| "get_fd_from c (Suc n) start =
     (if filp c ! start = None then Inr start else get_fd_from c n (Suc start))"

definition get_fd :: "pcb \<Rightarrow> nat \<Rightarrow> errno + nat" where
  "get_fd c start = (if start \<ge> 8 then Inl EINVAL else get_fd_from c (8 - start) start)"

section \<open>Lemmas\<close>

lemma upd_pcb_simps [simp]:
  "length (proctab (upd_pcb p f k)) = length (proctab k)"
  "current (upd_pcb p f k) = current k"
  "idle_pid (upd_pcb p f k) = idle_pid k"
  "ready_queue (upd_pcb p f k) = ready_queue k"
  "zombies (upd_pcb p f k) = zombies k"
  "chain_bad (upd_pcb p f k) = chain_bad k"
  "timers (upd_pcb p f k) = timers k"
  "tmr (upd_pcb p f k) = tmr k"
  "tick_count (upd_pcb p f k) = tick_count k" "system_clock (upd_pcb p f k) = system_clock k"
  "ptimer (upd_pcb p f k) = ptimer k" "ptimers (upd_pcb p f k) = ptimers k"
  "next_ptimer (upd_pcb p f k) = next_ptimer k"
  by (simp_all add: upd_pcb_def)

lemma pcb_at_upd:
  "pcb_at (upd_pcb p f k) q = (if p = q \<and> p < length (proctab k) then f (pcb_at k p) else pcb_at k q)"
  by (cases "p < length (proctab k)") (auto simp: upd_pcb_def pcb_at_def list_update_beyond not_less)

lemma pcb_at_update [simp]:
  "pcb_at (k\<lparr>ready_queue := a\<rparr>) = pcb_at k" "pcb_at (k\<lparr>zombies := a\<rparr>) = pcb_at k"
  "pcb_at (k\<lparr>chain_bad := b\<rparr>) = pcb_at k" "pcb_at (k\<lparr>current := p\<rparr>) = pcb_at k"
  "pcb_at (k\<lparr>timers := t\<rparr>) = pcb_at k" "pcb_at (k\<lparr>tmr := u\<rparr>) = pcb_at k"
  "pcb_at (k\<lparr>ptimer := pt\<rparr>) = pcb_at k" "pcb_at (k\<lparr>ptimers := pts\<rparr>) = pcb_at k"
  "pcb_at (k\<lparr>next_ptimer := i\<rparr>) = pcb_at k" "pcb_at (k\<lparr>idle_pid := pd\<rparr>) = pcb_at k"
  "pcb_at (k\<lparr>tick_count := n\<rparr>) = pcb_at k" "pcb_at (k\<lparr>system_clock := n\<rparr>) = pcb_at k"
  by (simp_all add: pcb_at_def fun_eq_iff)

lemma all_from:
  "(\<forall>i. s \<le> i \<and> i < t \<longrightarrow> P i) \<longleftrightarrow> (s < t \<longrightarrow> P s) \<and> (\<forall>i. Suc s \<le> i \<and> i < t \<longrightarrow> P i)"
  by (metis Suc_leD Suc_leI le_neq_implies_less le_refl)

lemma get_fd_from_Inr:
  "get_fd_from c n start = Inr fd \<longleftrightarrow>
     start \<le> fd \<and> fd < start + n \<and> filp c ! fd = None \<and> (\<forall>i. start \<le> i \<and> i < fd \<longrightarrow> filp c ! i \<noteq> None)"
proof (induction n arbitrary: start)
  case (Suc n)
  show ?case
    unfolding all_from [of start fd] get_fd_from.simps using Suc.IH [of "Suc start"]
    by (cases "start = fd") auto
qed simp

lemma get_fd_from_Inl:
  "get_fd_from c n start = Inl e \<longleftrightarrow> e = EMFILE \<and> (\<forall>i. start \<le> i \<and> i < start + n \<longrightarrow> filp c ! i \<noteq> None)"
proof (induction n arbitrary: start)
  case (Suc n)
  show ?case
    unfolding all_from [of start "start + Suc n"] get_fd_from.simps using Suc.IH [of "Suc start"]
    by simp
qed auto

text \<open>\<^verbatim>\<open>get_fd\<close> finds the lowest free descriptor from the given one on.\<close>

lemma get_fd_Inr:
  "get_fd c start = Inr fd \<longleftrightarrow>
     start \<le> fd \<and> fd < 8 \<and> filp c ! fd = None \<and> (\<forall>i. start \<le> i \<and> i < fd \<longrightarrow> filp c ! i \<noteq> None)"
  by (auto simp: get_fd_def get_fd_from_Inr)

end
