(* ===== verification/Sched.thy ===== *)
theory Sched
  imports Proc
begin

text \<open>
  The scheduler, \<^verbatim>\<open>src/kernel/schedule.c\<close>, and the wait queues of \<^verbatim>\<open>src/include/kernel/wait.h\<close>.
  \<^verbatim>\<open>schedule()\<close> saves the context of the caller and runs \<^verbatim>\<open>_schedule\<close>; the caller continues behind
  it once it is chosen again.  A function with a call of \<^verbatim>\<open>schedule()\<close> in the middle is therefore two
  definitions, what it does before it blocks and what it does after it is resumed with the \<^verbatim>\<open>rc\<close> it
  was woken with.  The theory shows that the queues stay well formed as long as a process is not
  readied while it is queued, that a ready process is not starved, and that \<^verbatim>\<open>wake_all\<close> may ready a
  process twice.
\<close>

section \<open>Definitions\<close>

definition ready :: "nat \<Rightarrow> kernel \<Rightarrow> kernel" where
  "ready p k =
     (set_state PROC_READY p k)
       \<lparr>ready_queue := ready_queue k @ [p],
        chain_bad := chain_bad k \<or> p \<in> set (ready_queue k) \<union> set (zombies k)\<rparr>"

definition reap :: "nat \<Rightarrow> kernel \<Rightarrow> kernel" where
  "reap p k =
     (set_state PROC_DEAD p k)
       \<lparr>ready_queue := remove1 p (ready_queue k), zombies := remove1 p (zombies k),
        chain_bad := chain_bad k \<or> p \<notin> set (ready_queue k) \<union> set (zombies k)\<rparr>"

definition wake :: "nat \<Rightarrow> int \<Rightarrow> kernel \<Rightarrow> kernel" where
  "wake p r k = ready p (upd_pcb p (\<lambda>c. c\<lparr>rc := r\<rparr>) k)"

definition zombie :: "nat \<Rightarrow> kernel \<Rightarrow> kernel" where
  "zombie p k =
     (set_state PROC_ZOMBIE p k)
       \<lparr>zombies := zombies k @ [p],
        chain_bad := chain_bad k \<or> p \<in> set (ready_queue k) \<union> set (zombies k)\<rparr>"

text \<open>\<^verbatim>\<open>next()\<close> of an empty queue is a null pointer, which its callers dereference.\<close>

definition next_ready :: "kernel \<Rightarrow> (nat \<times> kernel) outcome" where
  "next_ready k =
     (case ready_queue k of [] \<Rightarrow> Stuck | p # ps \<Rightarrow> Ret (p, k\<lparr>ready_queue := ps\<rparr>))"

definition next_process :: "kernel \<Rightarrow> (nat \<times> kernel) outcome" where
  "next_process k =
     bind_outcome (next_ready k) (\<lambda>(p, k).
       if pid (pcb_at k p) = idle_pid k \<and> ready_queue k \<noteq> [] then next_ready (ready p k)
       else Ret (p, k))"

definition schedule :: "kernel \<Rightarrow> kernel outcome" where
  "schedule k = bind_outcome (next_process k) (\<lambda>(p, k). Ret (k\<lparr>current := p\<rparr>))"

definition wait_queue_empty :: "nat list \<Rightarrow> bool" where
  "wait_queue_empty q \<longleftrightarrow> q = []"

definition wake_first :: "nat list \<Rightarrow> int \<Rightarrow> kernel \<Rightarrow> kernel" where
  "wake_first q r k = (if \<not> wait_queue_empty q then wake (hd q) r k else k)"

fun wake_all :: "nat list \<Rightarrow> int \<Rightarrow> kernel \<Rightarrow> kernel" where
  "wake_all [] r k = k"
| "wake_all (p # q) r k = wake_all q r (wake p r k)"

text \<open>\<^verbatim>\<open>wait_interruptible\<close> up to \<^verbatim>\<open>schedule()\<close> and after it; the queue is the first component.\<close>

definition wait_interruptible :: "nat list \<Rightarrow> kernel \<Rightarrow> nat list \<times> kernel" where
  "wait_interruptible q k = (q @ [current k], set_state PROC_INTERRUPTIBLE (current k) k)"

definition wait_interruptible_resume :: "nat list \<Rightarrow> kernel \<Rightarrow> int \<times> nat list" where
  "wait_interruptible_resume q k = (rc (pcb_at k (current k)), remove1 (current k) q)"

text \<open>\<^verbatim>\<open>sys_yield\<close> of \<^verbatim>\<open>src/dispatch/process.c\<close>.\<close>

definition sys_yield :: "kernel \<Rightarrow> kernel outcome" where
  "sys_yield k = schedule (ready (current k) k)"

section \<open>The queues\<close>

text \<open>
  The queues are well formed: they hold different processes of the table, the ready queue those in
  state \<^verbatim>\<open>PROC_READY\<close> and the zombie list those in state \<^verbatim>\<open>PROC_ZOMBIE\<close>, and no list operation was
  applied to a node in the wrong place.
\<close>

definition queues_ok :: "kernel \<Rightarrow> bool" where
  "queues_ok k \<longleftrightarrow>
     \<not> chain_bad k \<and> distinct (ready_queue k) \<and> distinct (zombies k) \<and>
     (\<forall>p \<in> set (ready_queue k). p < length (proctab k) \<and> state (pcb_at k p) = PROC_READY) \<and>
     (\<forall>p \<in> set (zombies k). p < length (proctab k) \<and> state (pcb_at k p) = PROC_ZOMBIE)"

text \<open>In addition the running process is in the table, in state \<^verbatim>\<open>PROC_READY\<close>, and on neither list.\<close>

definition sched_ok :: "kernel \<Rightarrow> bool" where
  "sched_ok k \<longleftrightarrow> queues_ok k \<and> current k < length (proctab k) \<and>
     state (pcb_at k (current k)) = PROC_READY \<and>
     current k \<notin> set (ready_queue k) \<and> current k \<notin> set (zombies k)"

lemma sched_okD:
  assumes "sched_ok k"
  shows "queues_ok k" "current k < length (proctab k)" "current k \<notin> set (ready_queue k)"
    "current k \<notin> set (zombies k)" "state (pcb_at k (current k)) = PROC_READY"
  using assms by (simp_all add: sched_ok_def)

lemma set_state_simps [simp]:
  "length (proctab (set_state s p k)) = length (proctab k)"
  "current (set_state s p k) = current k" "idle_pid (set_state s p k) = idle_pid k"
  "ready_queue (set_state s p k) = ready_queue k" "zombies (set_state s p k) = zombies k"
  "chain_bad (set_state s p k) = chain_bad k"
  by (simp_all add: set_state_def)

lemma state_set_state [simp]:
  "state (pcb_at (set_state s p k) q) =
     (if p = q \<and> p < length (proctab k) then s else state (pcb_at k q))"
  "pid (pcb_at (set_state s p k) q) = pid (pcb_at k q)"
  "rc (pcb_at (set_state s p k) q) = rc (pcb_at k q)"
  by (auto simp: set_state_def pcb_at_upd)

lemma ready_simps [simp]:
  "length (proctab (ready p k)) = length (proctab k)"
  "current (ready p k) = current k" "idle_pid (ready p k) = idle_pid k"
  "ready_queue (ready p k) = ready_queue k @ [p]" "zombies (ready p k) = zombies k"
  "chain_bad (ready p k) \<longleftrightarrow> chain_bad k \<or> p \<in> set (ready_queue k) \<or> p \<in> set (zombies k)"
  "state (pcb_at (ready p k) q) =
     (if p = q \<and> p < length (proctab k) then PROC_READY else state (pcb_at k q))"
  "pid (pcb_at (ready p k) q) = pid (pcb_at k q)"
  by (simp_all add: ready_def)

lemma wake_simps [simp]:
  "length (proctab (wake p r k)) = length (proctab k)"
  "current (wake p r k) = current k" "idle_pid (wake p r k) = idle_pid k"
  "ready_queue (wake p r k) = ready_queue k @ [p]" "zombies (wake p r k) = zombies k"
  "chain_bad (wake p r k) \<longleftrightarrow> chain_bad k \<or> p \<in> set (ready_queue k) \<or> p \<in> set (zombies k)"
  "state (pcb_at (wake p r k) q) =
     (if p = q \<and> p < length (proctab k) then PROC_READY else state (pcb_at k q))"
  "pid (pcb_at (wake p r k) q) = pid (pcb_at k q)"
  by (simp_all add: wake_def pcb_at_upd)

lemma wake_pcb:
  "pcb_at (wake p r k) q =
     (if p = q \<and> p < length (proctab k) then (pcb_at k p)\<lparr>rc := r, state := PROC_READY\<rparr> else pcb_at k q)"
  by (auto simp: wake_def ready_def set_state_def pcb_at_upd)

lemma queues_ok_ready:
  assumes "queues_ok k" "p < length (proctab k)" "p \<notin> set (ready_queue k)" "p \<notin> set (zombies k)"
  shows "queues_ok (ready p k)" "queues_ok (wake p r k)"
  using assms unfolding queues_ok_def by auto

text \<open>A process in any other state is on neither list.\<close>

lemma not_queued:
  assumes "queues_ok k" "state (pcb_at k p) \<noteq> PROC_READY" "state (pcb_at k p) \<noteq> PROC_ZOMBIE"
  shows "p \<notin> set (ready_queue k)" "p \<notin> set (zombies k)"
  using assms by (auto simp: queues_ok_def)

lemma queues_ok_set_state:
  assumes "queues_ok k" "p \<notin> set (ready_queue k)" "p \<notin> set (zombies k)"
  shows "queues_ok (set_state s p k)"
  using assms unfolding queues_ok_def by auto

lemma queues_ok_zombie:
  assumes "queues_ok k" "p < length (proctab k)" "p \<notin> set (ready_queue k)" "p \<notin> set (zombies k)"
  shows "queues_ok (zombie p k)"
  using assms unfolding queues_ok_def zombie_def by auto

lemma queues_ok_reap:
  assumes "queues_ok k" "p \<in> set (zombies k)"
  shows "queues_ok (reap p k)" "p \<notin> set (zombies (reap p k))" "p \<notin> set (ready_queue (reap p k))"
proof -
  have "p \<notin> set (ready_queue k)" using assms by (auto simp: queues_ok_def)
  then show "queues_ok (reap p k)" "p \<notin> set (zombies (reap p k))" "p \<notin> set (ready_queue (reap p k))"
    using assms by (auto simp: queues_ok_def reap_def remove1_idem dest: notin_set_remove1)
qed

section \<open>Choosing the next process\<close>

lemma next_process_cases:
  assumes "ready_queue k = p # ps"
  shows "next_process k =
    (if pid (pcb_at k p) = idle_pid k \<and> ps \<noteq> []
     then Ret (hd ps, (ready p (k\<lparr>ready_queue := ps\<rparr>))\<lparr>ready_queue := tl ps @ [p]\<rparr>)
     else Ret (p, k\<lparr>ready_queue := ps\<rparr>))"
  using assms by (cases ps) (auto simp: next_process_def next_ready_def)

lemma queues_ok_tl:
  "queues_ok k \<Longrightarrow> ready_queue k = p # ps \<Longrightarrow> queues_ok (k\<lparr>ready_queue := ps\<rparr>)"
  by (simp add: queues_ok_def)

lemma next_process_ok:
  assumes ok: "queues_ok k" and q: "ready_queue k \<noteq> []"
  shows "\<exists>p k'. next_process k = Ret (p, k') \<and> queues_ok k' \<and> p < length (proctab k') \<and>
    state (pcb_at k' p) = PROC_READY \<and> p \<notin> set (ready_queue k') \<and> p \<notin> set (zombies k') \<and> p \<in> set (ready_queue k) \<and>
    insert p (set (ready_queue k')) = set (ready_queue k)"
proof -
  obtain p ps where pq: "ready_queue k = p # ps" using q by (cases "ready_queue k") auto
  let ?k1 = "k\<lparr>ready_queue := ps\<rparr>"
  have ok1: "queues_ok ?k1" by (rule queues_ok_tl [OF ok pq])
  have p: "p < length (proctab k)" "p \<notin> set ps" "p \<notin> set (zombies k)" "state (pcb_at k p) = PROC_READY"
    using ok pq by (auto simp: queues_ok_def)
  show ?thesis
  proof (cases "pid (pcb_at k p) = idle_pid k \<and> ps \<noteq> []")
    case False
    then show ?thesis using next_process_cases [OF pq] ok1 p pq by auto
  next
    case True
    obtain q qs where ps: "ps = q # qs" using True by (cases ps) auto
    have ok2: "queues_ok (ready p ?k1)" using queues_ok_ready(1) [OF ok1] p by simp
    have "queues_ok ((ready p ?k1)\<lparr>ready_queue := qs @ [p]\<rparr>)"
      by (rule queues_ok_tl [OF ok2]) (simp add: ps)
    moreover have "q < length (proctab k)" "state (pcb_at k q) = PROC_READY" "q \<notin> set (zombies k)" "q \<notin> set qs" "q \<noteq> p"
      using ok pq ps by (auto simp: queues_ok_def)
    ultimately show ?thesis using next_process_cases [OF pq] True ps pq by auto
  qed
qed

lemma schedule_ok:
  assumes "queues_ok k" "ready_queue k \<noteq> []"
  shows "\<exists>k'. schedule k = Ret k' \<and> sched_ok k'"
  using next_process_ok [OF assms] by (fastforce simp: schedule_def sched_ok_def queues_ok_def)

section \<open>Taking turns\<close>

fun yields :: "nat \<Rightarrow> kernel \<Rightarrow> kernel outcome" where
  "yields 0 k = Ret k"
| "yields (Suc n) k = bind_outcome (sys_yield k) (yields n)"

lemma sys_yield_ok:
  assumes "sched_ok k"
  shows "\<exists>k'. sys_yield k = Ret k' \<and> sched_ok k'"
  unfolding sys_yield_def
  using schedule_ok [OF queues_ok_ready(1) [OF sched_okD(1-4) [OF assms]]] by simp

lemma sys_yield_cases:
  assumes "ready_queue k @ [current k] = p # ps"
  obtains k' where "sys_yield k = Ret k'" "idle_pid k' = idle_pid k"
    "\<And>q. pid (pcb_at k' q) = pid (pcb_at k q)"
    "if pid (pcb_at k p) = idle_pid k \<and> ps \<noteq> [] then current k' = hd ps \<and> ready_queue k' = tl ps @ [p]
     else current k' = p \<and> ready_queue k' = ps"
  using next_process_cases [of "ready (current k) k" p ps] assms
  by (auto simp: sys_yield_def schedule_def split: if_splits)

lemma sys_yield_advances:
  assumes q: "ready_queue k = xs @ t # ys" and t: "pid (pcb_at k t) \<noteq> idle_pid k"
  shows "\<exists>k'. sys_yield k = Ret k' \<and> idle_pid k' = idle_pid k \<and>
    (\<forall>q. pid (pcb_at k' q) = pid (pcb_at k q)) \<and>
    (current k' = t \<or> (\<exists>xs' ys'. ready_queue k' = xs' @ t # ys' \<and> length xs' < length xs))"
proof (cases xs)
  case Nil
  then have "ready_queue k @ [current k] = t # ys @ [current k]" using q by simp
  from sys_yield_cases [OF this] t show ?thesis by metis
next
  case (Cons a xs1)
  then have e: "ready_queue k @ [current k] = a # xs1 @ t # ys @ [current k]" using q by simp
  obtain k' where k': "sys_yield k = Ret k'" "idle_pid k' = idle_pid k"
    "\<And>q. pid (pcb_at k' q) = pid (pcb_at k q)"
    "if pid (pcb_at k a) = idle_pid k \<and> xs1 @ t # ys @ [current k] \<noteq> []
     then current k' = hd (xs1 @ t # ys @ [current k]) \<and>
       ready_queue k' = tl (xs1 @ t # ys @ [current k]) @ [a]
     else current k' = a \<and> ready_queue k' = xs1 @ t # ys @ [current k]"
    by (rule sys_yield_cases [OF e]) blast
  have "current k' = t \<or> (\<exists>xs' ys'. ready_queue k' = xs' @ t # ys' \<and> length xs' < length xs)"
  proof (cases "pid (pcb_at k a) = idle_pid k")
    case True
    then show ?thesis
    proof (cases xs1)
      case (Cons b xs2)
      then have "ready_queue k' = xs2 @ t # (ys @ [current k, a])" using k'(4) True by simp
      then show ?thesis using Cons \<open>xs = a # xs1\<close> by (metis length_Cons lessI less_SucI)
    qed (use k'(4) True in simp)
  next
    case False
    then have "ready_queue k' = xs1 @ t # (ys @ [current k])" using k'(4) by simp
    then show ?thesis using Cons by (metis length_Cons lessI)
  qed
  then show ?thesis using k'(1,2,3) by blast
qed

lemma yields_reach:
  assumes "ready_queue k = xs @ t # ys" "pid (pcb_at k t) \<noteq> idle_pid k"
  shows "\<exists>n k'. n \<le> Suc (length xs) \<and> yields n k = Ret k' \<and> current k' = t"
  using assms
proof (induction "length xs" arbitrary: xs ys k rule: less_induct)
  case less
  obtain k1 where k1: "sys_yield k = Ret k1" "idle_pid k1 = idle_pid k"
    "pid (pcb_at k1 t) = pid (pcb_at k t)"
    "current k1 = t \<or> (\<exists>xs' ys'. ready_queue k1 = xs' @ t # ys' \<and> length xs' < length xs)"
    using sys_yield_advances [OF less.prems] by blast
  show ?case
  proof (cases "current k1 = t")
    case True
    then show ?thesis using k1(1) by (intro exI [of _ 1] exI [of _ k1]) simp
  next
    case False
    then obtain xs' ys' where x: "ready_queue k1 = xs' @ t # ys'" "length xs' < length xs"
      using k1(4) by blast
    obtain n k' where "n \<le> Suc (length xs')" "yields n k1 = Ret k'" "current k' = t"
      using less.hyps [OF x(2,1)] k1(2,3) less.prems(2) by auto
    then show ?thesis using k1(1) x(2) by (intro exI [of _ "Suc n"] exI [of _ k']) simp
  qed
qed

lemma wake_all_queue:
  "ready_queue (wake_all q r k) = ready_queue k @ q"
  "chain_bad (wake_all q r k) \<longleftrightarrow>
     chain_bad k \<or> \<not> distinct q \<or> (\<exists>p \<in> set q. p \<in> set (ready_queue k) \<or> p \<in> set (zombies k))"
  by (induction q arbitrary: k) auto

section \<open>Properties\<close>

text \<open>A table with init, the idle process and one more.\<close>

definition sig0 :: sig_struct where
  "sig0 = \<lparr>pending = 0, mask = -1, restore = 0,
     actions = replicate 29 \<lparr>sa_handler = Sig_terminate, sa_mask = 0, sa_flags = 0\<rparr>,
     infos = replicate 29 \<lparr>si_signo = 0, si_code = 0, si_errno = 0, si_pid = 0, si_uid = 0, si_addr = 0,
       si_status = 0, si_band = 0, si_value = 0\<rparr>\<rparr>"

text \<open>An address space with one area of two pages, readable and writable.\<close>

definition mm0 :: mm_struct where
  "mm0 = \<lparr>mmap = [\<lparr>vstart = 0x1000, vend = 0x3000, vflags = 7, vprivate = 0, vop = No_ops\<rparr>], brk = 0x3000\<rparr>"

definition pcb0 :: "int \<Rightarrow> pstate \<Rightarrow> pcb" where
  "pcb0 pd s = \<lparr>rc = 0, esp = 0, ifp = 0, pmm = mm0, pid = pd, parent_pid = 1, pflags = 0,
     state = s, child_stats = [], children = [], timestamp = 0, posix_timers_of = [],
     posix_timer_id = 0, sig = sig0, filp = replicate 8 None, pwd = 0, root = 0, words = (\<lambda>_. 0)\<rparr>"

definition kernel0 :: kernel where
  "kernel0 = \<lparr>proctab = [pcb0 256 PROC_READY, pcb0 1 PROC_READY, pcb0 2 PROC_INTERRUPTIBLE, pcb0 3 PROC_READY],
     current = 1, idle_pid = 256, ready_queue = [0, 3], zombies = [], chain_bad = False, timers = [],
     tmr = (\<lambda>_. \<lparr>taction = Wake_action 0, expires = 0, tflags = 0\<rparr>), tick_count = 0, system_clock = 0,
     ptimer = (\<lambda>_. \<lparr>sev = \<lparr>sigev_notify = 0, sigev_signo = 0, sigev_value = 0\<rparr>,
       spec = \<lparr>it_interval = \<lparr>tv_sec = 0, tv_nsec = 0\<rparr>, it_value = \<lparr>tv_sec = 0, tv_nsec = 0\<rparr>\<rparr>,
       pt_pid = 0, timerid = 0\<rparr>), ptimers = (\<lambda>_. []), next_ptimer = 0\<rparr>"

lemma kernel0_simps [simp]:
  "ready_queue kernel0 = [0, 3]" "zombies kernel0 = []" "current kernel0 = 1" "idle_pid kernel0 = 256"
  "chain_bad kernel0 = False" "length (proctab kernel0) = 4" "timers kernel0 = []" "tick_count kernel0 = 0"
  "pcb_at kernel0 0 = pcb0 256 PROC_READY" "pcb_at kernel0 1 = pcb0 1 PROC_READY"
  "pcb_at kernel0 (Suc 0) = pcb0 1 PROC_READY"
  "pcb_at kernel0 2 = pcb0 2 PROC_INTERRUPTIBLE" "pcb_at kernel0 3 = pcb0 3 PROC_READY"
  by (simp_all add: kernel0_def pcb_at_def)

lemma pcb0_simps [simp]:
  "pid (pcb0 i s) = i" "state (pcb0 i s) = s" "sig (pcb0 i s) = sig0" "filp (pcb0 i s) = replicate 8 None"
  "pflags (pcb0 i s) = 0" "pmm (pcb0 i s) = mm0" "esp (pcb0 i s) = 0" "words (pcb0 i s) = (\<lambda>_. 0)"
  by (simp_all add: pcb0_def)

lemma sched_ok_kernel0: "sched_ok kernel0"
  by (simp add: sched_ok_def queues_ok_def)

text \<open>
  C11: a ready process is not starved.  When the running process and every process chosen after it
  gives up the processor, every process of the ready queue other than the idle process runs after
  at most as many turns as the queue is long.
\<close>

theorem ready_process_runs:
  assumes "t \<in> set (ready_queue k)" "pid (pcb_at k t) \<noteq> idle_pid k"
  shows "\<exists>n k'. n \<le> length (ready_queue k) \<and> yields n k = Ret k' \<and> current k' = t"
proof -
  obtain xs ys where q: "ready_queue k = xs @ t # ys" using assms(1) by (meson split_list)
  obtain n k' where "n \<le> Suc (length xs)" "yields n k = Ret k'" "current k' = t"
    using yields_reach [OF q assms(2)] by blast
  then show ?thesis using q by (intro exI [of _ n] exI [of _ k']) simp
qed

theorem ready_process_runs_witness:
  "\<exists>n k'. n \<le> 2 \<and> yields n kernel0 = Ret k' \<and> current k' = 3"
  using ready_process_runs [of 3 kernel0] by (simp add: numeral_2_eq_2)

text \<open>
  C10: giving up the processor keeps the queues well formed, always finds a process to run, and
  chooses the idle process only when no other process is ready.
\<close>

theorem yield_keeps_queues:
  assumes ok: "sched_ok k"
    and inj: "inj_on (\<lambda>p. pid (pcb_at k p)) (insert (current k) (set (ready_queue k)))"
  shows "\<exists>k'. sys_yield k = Ret k' \<and> sched_ok k' \<and>
    insert (current k') (set (ready_queue k')) = insert (current k) (set (ready_queue k)) \<and>
    (pid (pcb_at k' (current k')) = idle_pid k' \<longrightarrow> ready_queue k' = [])"
proof -
  obtain p ps where q: "ready_queue k @ [current k] = p # ps" by (cases "ready_queue k") auto
  obtain k' where k': "sys_yield k = Ret k'" "idle_pid k' = idle_pid k"
    "\<And>q. pid (pcb_at k' q) = pid (pcb_at k q)"
    "if pid (pcb_at k p) = idle_pid k \<and> ps \<noteq> [] then current k' = hd ps \<and> ready_queue k' = tl ps @ [p]
     else current k' = p \<and> ready_queue k' = ps"
    by (rule sys_yield_cases [OF q]) blast
  have ok': "sched_ok k'" using sys_yield_ok [OF ok] k'(1) by auto
  have set: "insert (current k) (set (ready_queue k)) = insert p (set ps)"
    using arg_cong [OF q, of set] by simp
  have all: "insert (current k') (set (ready_queue k')) = insert p (set ps)"
    using k'(4) by (cases ps) (auto split: if_splits)
  moreover have "ready_queue k' = []" if idle: "pid (pcb_at k' (current k')) = idle_pid k'"
  proof (cases "pid (pcb_at k p) = idle_pid k \<and> ps \<noteq> []")
    case True
    then have c: "current k' = hd ps" "p \<in> set (ready_queue k')" using k'(4) by auto
    have "pid (pcb_at k (hd ps)) = pid (pcb_at k p)" using idle k'(2,3) True c(1) by simp
    then have "hd ps = p" using inj_onD [OF inj [unfolded set], of "hd ps" p] True by simp
    then show ?thesis using sched_okD(3) [OF ok'] c by simp
  next
    case False
    then show ?thesis using k' idle by (auto split: if_splits)
  qed
  ultimately show ?thesis using k'(1) ok' set by blast
qed

theorem yield_keeps_queues_witness:
  "\<exists>k'. sys_yield kernel0 = Ret k' \<and> sched_ok k' \<and>
    insert (current k') (set (ready_queue k')) = {0, 1, 3} \<and>
    (pid (pcb_at k' (current k')) = idle_pid k' \<longrightarrow> ready_queue k' = [])"
  using yield_keeps_queues [OF sched_ok_kernel0] by (simp add: insert_commute)



end
