(* ===== verification/Signal.thy ===== *)
theory Signal
  imports Sched
begin

text \<open>
  Signals: \<^verbatim>\<open>src/dispatch/signal.c\<close>, \<^verbatim>\<open>src/include/kernel/signal.h\<close> and the signal frame of
  \<^verbatim>\<open>src/include/kernel/i386.h\<close>.  A signal set has bit \<^verbatim>\<open>signo - 1\<close> for signal \<^verbatim>\<open>signo\<close>; the mask of
  a process holds the signals it accepts.  The addresses of kernel functions that end up on a user
  stack are a parameter.  The theory shows that delivering a signal and returning from its handler
  restores the interrupted context, that signals never ready a process twice, and which signals a
  process can block.
\<close>

section \<open>Signal sets and actions\<close>

definition signo_valid :: "int \<Rightarrow> bool" where
  "signo_valid signo \<longleftrightarrow> signo > 0 \<and> signo < 29"

text \<open>\<^verbatim>\<open>1 << (signo - 1)\<close>, for a positive signal number.\<close>

definition sig_bit :: "int \<Rightarrow> u32" where
  "sig_bit signo = push_bit (nat (signo - 1)) 1"

definition sigfillset :: "u32" where
  "sigfillset = NOT 0"

definition sigemptyset :: "u32" where
  "sigemptyset = 0"

definition sigaddset :: "u32 \<Rightarrow> int \<Rightarrow> u32" where
  "sigaddset st signo = st OR sig_bit signo"

definition sigdelset :: "u32 \<Rightarrow> int \<Rightarrow> u32" where
  "sigdelset st signo = st AND NOT (sig_bit signo)"

definition sigismember :: "u32 \<Rightarrow> int \<Rightarrow> bool" where
  "sigismember st signo \<longleftrightarrow> st AND sig_bit signo \<noteq> 0"

definition signal_pending :: "sig_struct \<Rightarrow> bool" where
  "signal_pending s \<longleftrightarrow> pending s AND mask s \<noteq> 0"

definition pending_signal :: "sig_struct \<Rightarrow> int" where
  "pending_signal s = fls (pending s AND mask s)"

definition signal_ignored :: "sig_struct \<Rightarrow> int \<Rightarrow> bool" where
  "signal_ignored s sig_no \<longleftrightarrow> sa_handler (actions s ! nat sig_no) = SIG_IGN"

definition signal_blocked :: "sig_struct \<Rightarrow> int \<Rightarrow> bool" where
  "signal_blocked s sig_no \<longleftrightarrow> \<not> sigismember (mask s) sig_no"

definition signal_accepted :: "sig_struct \<Rightarrow> int \<Rightarrow> bool" where
  "signal_accepted s sig_no \<longleftrightarrow> \<not> signal_ignored s sig_no \<and> \<not> signal_blocked s sig_no"

definition signal_from_user :: "int \<Rightarrow> bool" where
  "signal_from_user code \<longleftrightarrow> code = 1 \<or> code = 2 \<or> code = 3 \<or> code = 4 \<or> code = 5"

text \<open>The operations of \<^verbatim>\<open>bitops.h\<close> on a single word, with the bit number in a register.\<close>

definition set_word_bit :: "int \<Rightarrow> u32 \<Rightarrow> u32" where
  "set_word_bit nr w = hd (Bitops.set_bit False (nat nr) [w])"

definition clear_word_bit :: "int \<Rightarrow> u32 \<Rightarrow> u32" where
  "clear_word_bit nr w = hd (Bitops.clear_bit False (nat nr) [w])"

abbreviation (input) SIGALRM :: int where "SIGALRM \<equiv> 2"
abbreviation (input) SIGCHLD :: int where "SIGCHLD \<equiv> 4"
abbreviation (input) SIGSTOP :: int where "SIGSTOP \<equiv> 27"
abbreviation (input) SIGKILL :: int where "SIGKILL \<equiv> 28"
abbreviation (input) SA_SIGINFO :: u32 where "SA_SIGINFO \<equiv> 16"

text \<open>\<^verbatim>\<open>BIT(SIGKILL) | BIT(SIGSTOP)\<close>.\<close>

definition SIG_NOIGNORE :: u32 where
  "SIG_NOIGNORE = push_bit 28 1 OR push_bit 27 1"

definition sig_unblockable :: "int \<Rightarrow> bool" where
  "sig_unblockable signo \<longleftrightarrow> signo = SIGKILL \<or> signo = SIGSTOP"

text \<open>By signal number; the element 0, which no initialiser names, is a null pointer.\<close>

definition sig_default :: "handler list" where
  "sig_default =
     [User_handler 0, Sig_terminate, Sig_terminate, Sig_terminate, SIG_IGN, SIG_IGN, Sig_terminate,
      Sig_terminate, Sig_terminate, Sig_terminate, Sig_terminate, Sig_terminate, Sig_terminate,
      Sig_terminate, Sig_stop, Sig_stop, Sig_stop, Sig_terminate, Sig_terminate, Sig_terminate,
      Sig_terminate, Sig_terminate, Sig_terminate, SIG_IGN, Sig_terminate, Sig_terminate,
      Sig_terminate, Sig_stop, Sig_terminate]"

definition sig_set_default :: "sigaction \<Rightarrow> nat \<Rightarrow> sigaction" where
  "sig_set_default act sig_no = act\<lparr>sa_handler := sig_default ! sig_no\<rparr>"

definition sig_init :: "sig_struct \<Rightarrow> sig_struct" where
  "sig_init s = s\<lparr>pending := 0, mask := NOT 0, restore := 0,
     actions := map (\<lambda>i. sig_set_default (actions s ! i) i) [0..<29]\<rparr>"

definition sig_clone :: "sig_struct \<Rightarrow> sig_struct \<Rightarrow> sig_struct" where
  "sig_clone dst src = dst\<lparr>pending := 0, mask := mask src, restore := restore src,
     actions := map (\<lambda>i. actions src ! i) [0..<29]\<rparr>"

definition sig_exec :: "sig_struct \<Rightarrow> sig_struct" where
  "sig_exec s = s\<lparr>actions := map (\<lambda>i.
     if sa_handler (actions s ! i) \<noteq> SIG_IGN then sig_set_default (actions s ! i) i
     else actions s ! i) [0..<29]\<rparr>"

section \<open>Delivery\<close>

text \<open>Where the kernel's text has the functions whose addresses are put on a user stack.\<close>

record text_addrs =
  sigtramp1 :: u32
  sig_err :: u32
  sig_terminate :: u32
  sig_stop :: u32

definition handler_addr :: "text_addrs \<Rightarrow> handler \<Rightarrow> u32" where
  "handler_addr T h =
     (case h of
        SIG_DFL \<Rightarrow> 1 | SIG_ERR \<Rightarrow> 2 | SIG_HOLD \<Rightarrow> 3 | SIG_IGN \<Rightarrow> 4
      | Sig_terminate \<Rightarrow> sig_terminate T | Sig_stop \<Rightarrow> sig_stop T | User_handler a \<Rightarrow> a)"

text \<open>
  The fields of a \<^verbatim>\<open>struct ucontext\<close> at \<open>cx\<close>: twelve words of registers, then the words popped by
  \<^verbatim>\<open>iret\<close>, then the stack.
\<close>

definition cx_eip :: "u32 \<Rightarrow> u32" where "cx_eip cx = cx + 48"
definition cx_esp :: "u32 \<Rightarrow> u32" where "cx_esp cx = cx + 60"
definition cx_stack :: "u32 \<Rightarrow> nat \<Rightarrow> u32" where "cx_stack cx i = cx + 68 + 4 * of_nat i"

definition put_iret_uframe :: "u32 \<Rightarrow> u32 \<Rightarrow> u32 \<Rightarrow> (u32 \<Rightarrow> u32) \<Rightarrow> u32 \<Rightarrow> u32" where
  "put_iret_uframe f eip sp m =
     m(f + 52 := 0x1B, f + 48 := eip, f + 56 := 0x200, f + 60 := sp, f + 64 := 0x23,
       f + 32 := 0x23, f + 36 := 0x23, f + 40 := 0x23, f + 44 := 0x23)"

definition place_sig_frame :: "text_addrs \<Rightarrow> u32 \<Rightarrow> nat \<Rightarrow> pcb \<Rightarrow> pcb" where
  "place_sig_frame T cx sig_no c =
     (let act = actions (sig c) ! sig_no;
          m = put_iret_uframe cx (sigtramp1 T) (cx_stack cx 0) (words c);
          m = m(cx_stack cx 0 := sig_err T, cx_stack cx 1 := handler_addr T (sa_handler act),
                cx_stack cx 2 := esp c, cx_stack cx 3 := of_nat sig_no);
          i = infos (sig c) ! sig_no;
          m = (if sa_flags act AND SA_SIGINFO \<noteq> 0 then
                 m(cx_stack cx 4 := of_int (si_errno i), cx_stack cx 5 := of_int (si_code i),
                   cx_stack cx 6 := of_int (si_pid i), cx_stack cx 7 := si_addr i,
                   cx_stack cx 8 := of_int (si_status i), cx_stack cx 9 := of_int (si_band i),
                   cx_stack cx 10 := si_value i)
               else m)
      in if restore (sig c) \<noteq> 0 then
           c\<lparr>words := m(cx_stack cx 11 := restore (sig c)), sig := (sig c)\<lparr>restore := 0\<rparr>\<rparr>
         else c\<lparr>words := m(cx_stack cx 11 := mask (sig c))\<rparr>)"

definition frame_pos :: "u32 \<Rightarrow> u32" where
  "frame_pos old_esp = old_esp - 4 * 30"

text \<open>\<^verbatim>\<open>send_signal_user\<close> on the control block of the current process.\<close>

definition send_signal_user :: "text_addrs \<Rightarrow> nat \<Rightarrow> pcb \<Rightarrow> pcb" where
  "send_signal_user T sig_no c =
     (let act = actions (sig c) ! sig_no;
          sig_frame = frame_pos (words c (cx_esp (esp c)));
          c = (if sa_handler act = SIG_IGN then c
               else let c = place_sig_frame T sig_frame sig_no c
                    in c\<lparr>ifp := esp c, esp := sig_frame,
                         sig := (sig c)\<lparr>mask := mask (sig c) AND NOT (sa_mask act)\<rparr>\<rparr>)
      in c\<lparr>sig := (sig c)\<lparr>pending := clear_word_bit (int sig_no - 1) (pending (sig c))\<rparr>\<rparr>)"

definition send_signal :: "text_addrs \<Rightarrow> nat \<Rightarrow> int \<Rightarrow> kernel \<Rightarrow> (errno + unit) \<times> kernel" where
  "send_signal T p sig_no k =
     (if \<not> signo_valid sig_no then (Inl EINVAL, k)
      else if pflags (pcb_at k p) AND PFLAG_SUPER \<noteq> 0 then (Inl ENOTSUP, k)
      else (Inr (), upd_pcb (current k) (send_signal_user T (nat sig_no)) k))"

definition handle_signal :: "text_addrs \<Rightarrow> kernel \<Rightarrow> kernel" where
  "handle_signal T k =
     (let s = sig (pcb_at k (current k))
      in if signal_pending s then snd (send_signal T (current k) (pending_signal s) k) else k)"

text \<open>\<^verbatim>\<open>sig_restore\<close>, the system call made by the trampoline; a \<^verbatim>\<open>struct ucontext\<close> has 68 bytes.\<close>

definition sig_restore :: "u32 \<Rightarrow> kernel \<Rightarrow> kernel" where
  "sig_restore old_cx k =
     upd_pcb (current k) (\<lambda>c. c\<lparr>esp := old_cx, ifp := old_cx + 68,
       sig := (sig c)\<lparr>mask := words c (cx_stack (frame_pos (words c (cx_esp old_cx))) 11)\<rparr>\<rparr>) k"

section \<open>System calls\<close>

text \<open>
  The memory map of the current process, against which its pointers are checked.  A pointer to user
  memory is the address with the value it has there; \<^verbatim>\<open>NULL\<close> is \<open>None\<close>.
\<close>

definition cur :: "kernel \<Rightarrow> pcb" where
  "cur k = pcb_at k (current k)"

definition cur_verify :: "kernel \<Rightarrow> u32 \<Rightarrow> u32 \<Rightarrow> u32 \<Rightarrow> bool" where
  "cur_verify k a len flags = vm_verify (mmap (pmm (cur k))) a len flags"

definition upd_sig :: "(sig_struct \<Rightarrow> sig_struct) \<Rightarrow> nat \<Rightarrow> kernel \<Rightarrow> kernel" where
  "upd_sig f p k = upd_pcb p (\<lambda>c. c\<lparr>sig := f (sig c)\<rparr>) k"

text \<open>\<^verbatim>\<open>sizeof(struct sigaction)\<close> is 12, and a function has size 1.\<close>

definition verify_sigaction :: "text_addrs \<Rightarrow> u32 \<Rightarrow> sigaction \<Rightarrow> kernel \<Rightarrow> bool" where
  "verify_sigaction T a act k =
     (if \<not> cur_verify k a 12 VM_READ then False
      else if sa_handler act = SIG_DFL \<or> sa_handler act = SIG_IGN then True
      else cur_verify k (handler_addr T (sa_handler act)) 1 VM_READ)"

text \<open>
  \<^verbatim>\<open>sys_sigaction\<close>; on success the result is what was stored through \<^verbatim>\<open>oact\<close>.  When both pointers are
  the same, the old action is stored before the new one is read.
\<close>

definition sys_sigaction ::
    "text_addrs \<Rightarrow> int \<Rightarrow> (u32 \<times> sigaction) option \<Rightarrow> u32 option \<Rightarrow> kernel \<Rightarrow> (errno + sigaction option) \<times> kernel" where
  "sys_sigaction T sg act oact k =
     (let sap = actions (sig (cur k)) ! nat sg
      in if (case act of None \<Rightarrow> False | Some (a, v) \<Rightarrow> \<not> verify_sigaction T a v k) then (Inl EFAULT, k)
         else if (case oact of None \<Rightarrow> False | Some a \<Rightarrow> \<not> cur_verify k a 12 VM_WRITE) then (Inl EFAULT, k)
         else if \<not> signo_valid sg \<or> sig_unblockable sg then (Inl EINVAL, k)
         else
           (Inr (map_option (\<lambda>_. sap) oact),
            case act of
              None \<Rightarrow> k
            | Some (a, v) \<Rightarrow>
                let v = (if oact = Some a then sap else v);
                    v = (if sa_handler v = SIG_DFL then sig_set_default v (nat sg) else v)
                in upd_sig (\<lambda>s. s\<lparr>actions := (actions s)[nat sg := v],
                     mask := set_word_bit (sg - 1) (mask s)\<rparr>) (current k) k))"

text \<open>\<^verbatim>\<open>sys_sigprocmask\<close>; on success the result is what was stored through \<^verbatim>\<open>oset\<close>.\<close>

definition new_mask :: "int \<Rightarrow> u32 \<Rightarrow> u32 \<Rightarrow> errno + u32" where
  "new_mask how st m =
     (if how = 0 then Inr ((m AND NOT st) OR SIG_NOIGNORE)
      else if how = 1 then Inr (NOT st OR SIG_NOIGNORE)
      else if how = 2 then Inr (m OR st)
      else Inl EINVAL)"

definition sys_sigprocmask ::
    "int \<Rightarrow> (u32 \<times> u32) option \<Rightarrow> u32 option \<Rightarrow> kernel \<Rightarrow> (errno + u32 option) \<times> kernel" where
  "sys_sigprocmask how st ost k =
     (if (case st of None \<Rightarrow> False | Some (a, v) \<Rightarrow> \<not> cur_verify k a 4 VM_READ) then (Inl EFAULT, k)
      else if (case ost of None \<Rightarrow> False | Some a \<Rightarrow> \<not> cur_verify k a 4 VM_WRITE) then (Inl EFAULT, k)
      else
        let m = mask (sig (cur k)); old = map_option (\<lambda>_. NOT m) ost
        in case st of
             None \<Rightarrow> (Inr old, k)
           | Some (a, v) \<Rightarrow>
               case new_mask how (if ost = Some a then NOT m else v) m of
                 Inl e \<Rightarrow> (Inl e, k)
               | Inr m \<Rightarrow> (Inr old, upd_sig (\<lambda>s. s\<lparr>mask := m\<rparr>) (current k) k))"

text \<open>
  A system call that may sleep either is done, or has set the state of the process and is about to
  call \<^verbatim>\<open>schedule()\<close>; it goes on with the function for its resumption, given the value with which
  the process was woken.
\<close>

datatype 'a call = Done 'a | Blocked

definition sys_sigwait_take :: "int \<Rightarrow> kernel \<Rightarrow> (errno + int) call \<times> kernel" where
  "sys_sigwait_take signo k =
     (Done (Inr signo), upd_sig (\<lambda>s. s\<lparr>pending := clear_word_bit (signo - 1) (pending s)\<rparr>) (current k) k)"

definition sys_sigwait :: "u32 \<Rightarrow> u32 \<Rightarrow> kernel \<Rightarrow> (errno + int) call \<times> kernel" where
  "sys_sigwait st sig_ptr k =
     (if \<not> cur_verify k sig_ptr 4 VM_WRITE then (Done (Inl EFAULT), k)
      else
        let st = st AND NOT SIG_NOIGNORE; ps = pending (sig (cur k)) AND st
        in if ps \<noteq> 0 then sys_sigwait_take (fls ps) k
           else (Blocked, set_state PROC_SIGWAIT (current k) k))"

definition sys_sigwait_resume :: "u32 \<Rightarrow> int \<Rightarrow> kernel \<Rightarrow> (errno + int) call \<times> kernel" where
  "sys_sigwait_resume st signo k =
     (let st = st AND NOT SIG_NOIGNORE
      in if sigismember st signo then sys_sigwait_take signo k
         else if signal_accepted (sig (cur k)) signo then (Done (Inl EINTR), k)
         else (Blocked, set_state PROC_SIGWAIT (current k) k))"

definition sys_sigsuspend :: "u32 \<Rightarrow> kernel \<Rightarrow> kernel" where
  "sys_sigsuspend m k =
     set_state PROC_INTERRUPTIBLE (current k)
       (upd_sig (\<lambda>s. s\<lparr>restore := mask s, mask := NOT m OR SIG_NOIGNORE\<rparr>) (current k) k)"

definition sys_sigsuspend_resume :: "errno + int" where
  "sys_sigsuspend_resume = Inl EINTR"

definition needs_wake :: "pcb \<Rightarrow> int \<Rightarrow> bool" where
  "needs_wake c sig_no \<longleftrightarrow>
     state c = PROC_SIGWAIT \<or>
     state c = PROC_INTERRUPTIBLE \<and> signal_accepted (sig c) sig_no \<or>
     state c = PROC_WAITING \<and> (sig_no = SIGCHLD \<or> signal_accepted (sig c) sig_no)"

text \<open>
  \<^verbatim>\<open>__kill\<close>.  The saved context of the process is read at its address in the address space of the
  current process.
\<close>

definition kill_info :: "int \<Rightarrow> int \<Rightarrow> u32 \<Rightarrow> siginfo \<Rightarrow> siginfo" where
  "kill_info code sender eip i = i\<lparr>si_code := code, si_errno := 0, si_pid := sender, si_addr := eip\<rparr>"

definition do_kill :: "nat \<Rightarrow> int \<Rightarrow> int \<Rightarrow> kernel \<Rightarrow> kernel" where
  "do_kill p sig_no code k =
     (let k = upd_sig (\<lambda>s. s\<lparr>pending := set_word_bit (sig_no - 1) (pending s)\<rparr>) p k;
          k = (if sa_flags (actions (sig (pcb_at k p)) ! nat sig_no) AND SA_SIGINFO \<noteq> 0 then
                 upd_sig (\<lambda>s. s\<lparr>infos := (infos s)[nat sig_no :=
                   kill_info code (pid (cur k)) (words (cur k) (cx_eip (esp (pcb_at k p)))) (infos s ! nat sig_no)]\<rparr>) p k
               else k)
      in if needs_wake (pcb_at k p) sig_no then wake p sig_no k else k)"

definition sys_kill :: "int \<Rightarrow> int \<Rightarrow> kernel \<Rightarrow> (errno + unit) \<times> kernel" where
  "sys_kill pd sg k =
     (case get_pcb pd k of
        None \<Rightarrow> (Inl ESRCH, k)
      | Some p \<Rightarrow>
          if sg = 0 then (Inr (), k)
          else if \<not> signo_valid sg then (Inl EINVAL, k)
          else (Inr (), do_kill p sg 1 k))"

definition sys_sigqueue :: "int \<Rightarrow> int \<Rightarrow> u32 \<Rightarrow> kernel \<Rightarrow> (errno + unit) \<times> kernel" where
  "sys_sigqueue pd sg v k =
     (case get_pcb pd k of
        None \<Rightarrow> (Inl ESRCH, k)
      | Some p \<Rightarrow>
          if sg = 0 then (Inr (), k)
          else if \<not> signo_valid sg then (Inl EINVAL, k)
          else (Inr (), do_kill p sg 2 (upd_sig (\<lambda>s. s\<lparr>infos :=
            (infos s)[nat sg := (infos s ! nat sg)\<lparr>si_value := v\<rparr>]\<rparr>) p k)))"

section \<open>Lemmas on bits\<close>

lemma bit_sig_bit: "signo_valid n \<Longrightarrow> bit (sig_bit n) i \<longleftrightarrow> i = nat (n - 1)"
  by (auto simp: sig_bit_def signo_valid_def bit_push_bit_iff)

lemma sigismember_iff: "signo_valid n \<Longrightarrow> sigismember w n \<longleftrightarrow> bit w (nat (n - 1))"
  by (simp add: sigismember_def sig_bit_def bit_iff_and_push_bit_not_eq_0)

lemma set_word_bit_eq:
  "0 \<le> nr \<Longrightarrow> nr < 32 \<Longrightarrow> set_word_bit nr w = w OR push_bit (nat nr) 1"
  by (simp add: set_word_bit_def Bitops.set_bit_def bts_def nat_less_iff)

lemma clear_word_bit_eq:
  "0 \<le> nr \<Longrightarrow> nr < 32 \<Longrightarrow> clear_word_bit nr w = w AND NOT (push_bit (nat nr) 1)"
  by (simp add: clear_word_bit_def Bitops.clear_bit_def btr_def nat_less_iff)

lemma bit_set_word_bit:
  "signo_valid n \<Longrightarrow> bit (set_word_bit (n - 1) w) i \<longleftrightarrow> bit w i \<or> i = nat (n - 1)"
  using bit_sig_bit [of n i] by (simp add: signo_valid_def set_word_bit_eq bit_or_iff sig_bit_def)

lemma bit_clear_word_bit:
  "signo_valid n \<Longrightarrow> bit (clear_word_bit (n - 1) w) i \<longleftrightarrow> bit w i \<and> i \<noteq> nat (n - 1)"
  using bit_sig_bit [of n i] bit_imp_le_length [of w i]
  by (auto simp: signo_valid_def clear_word_bit_eq bit_and_iff bit_not_iff sig_bit_def)

section \<open>Frames\<close>

definition frame_words :: "u32 \<Rightarrow> u32 set" where
  "frame_words f = (\<lambda>i. f + 4 * of_nat i) ` {..<29}"

lemma not_frame_word: "a \<notin> frame_words f \<Longrightarrow> i < 29 \<Longrightarrow> a \<noteq> f + 4 * of_nat i"
  by (auto simp: frame_words_def)

lemma stack_in_frame: "i < 12 \<Longrightarrow> cx_stack f i \<in> frame_words f"
  unfolding frame_words_def cx_stack_def
  by (rule image_eqI [of _ _ "17 + i"]) (simp_all add: algebra_simps)

lemma place_sig_frame_other:
  assumes "a \<notin> frame_words f"
  shows "words (place_sig_frame T f n c) a = words c a"
proof -
  note n = not_frame_word [OF assms]
  have "a \<noteq> f + 32" "a \<noteq> f + 36" "a \<noteq> f + 40" "a \<noteq> f + 44" "a \<noteq> f + 48" "a \<noteq> f + 52"
    "a \<noteq> f + 56" "a \<noteq> f + 60" "a \<noteq> f + 64"
    using n [of 8] n [of 9] n [of 10] n [of 11] n [of 12] n [of 13] n [of 14] n [of 15] n [of 16]
    by simp_all
  moreover have "a \<noteq> f + 68" "a \<noteq> 72 + f" "a \<noteq> 76 + f" "a \<noteq> 80 + f" "a \<noteq> 84 + f" "a \<noteq> 88 + f"
    "a \<noteq> 92 + f" "a \<noteq> 96 + f" "a \<noteq> 100 + f" "a \<noteq> 104 + f" "a \<noteq> 108 + f" "a \<noteq> 112 + f"
    using n [of 17] n [of 18] n [of 19] n [of 20] n [of 21] n [of 22] n [of 23] n [of 24] n [of 25]
      n [of 26] n [of 27] n [of 28]
    by (simp_all add: add.commute)
  ultimately show ?thesis
    by (simp add: place_sig_frame_def put_iret_uframe_def cx_stack_def Let_def)
qed

lemma place_sig_frame_fields:
  "words (place_sig_frame T f n c) (cx_eip f) = sigtramp1 T"
  "words (place_sig_frame T f n c) (cx_esp f) = cx_stack f 0"
  "words (place_sig_frame T f n c) (cx_stack f 1) = handler_addr T (sa_handler (actions (sig c) ! n))"
  "words (place_sig_frame T f n c) (cx_stack f 2) = esp c"
  "words (place_sig_frame T f n c) (cx_stack f 3) = of_nat n"
  "words (place_sig_frame T f n c) (cx_stack f 11) = (if restore (sig c) \<noteq> 0 then restore (sig c) else mask (sig c))"
  by (simp_all add: place_sig_frame_def put_iret_uframe_def cx_stack_def cx_eip_def cx_esp_def Let_def)

lemma place_sig_frame_simps [simp]:
  "esp (place_sig_frame T f n c) = esp c" "mask (sig (place_sig_frame T f n c)) = mask (sig c)"
  "pending (sig (place_sig_frame T f n c)) = pending (sig c)"
  "actions (sig (place_sig_frame T f n c)) = actions (sig c)"
  by (simp_all add: place_sig_frame_def Let_def)

lemma cur_upd [simp]: "current k < length (proctab k) \<Longrightarrow> cur (upd_pcb (current k) f k) = f (cur k)"
  by (simp add: cur_def pcb_at_upd)

lemma handle_signal_delivers:
  assumes "current k < length (proctab k)" "signal_pending (sig (cur k))"
    and "signo_valid (pending_signal (sig (cur k)))" "pflags (cur k) AND PFLAG_SUPER = 0"
  shows "cur (handle_signal T k) = send_signal_user T (nat (pending_signal (sig (cur k)))) (cur k)"
    "current (handle_signal T k) = current k" "length (proctab (handle_signal T k)) = length (proctab k)"
  using assms by (simp_all add: handle_signal_def send_signal_def Let_def flip: cur_def)

section \<open>Signals and the queues\<close>

lemma upd_sig_simps [simp]:
  "length (proctab (upd_sig f p k)) = length (proctab k)" "current (upd_sig f p k) = current k"
  "idle_pid (upd_sig f p k) = idle_pid k" "ready_queue (upd_sig f p k) = ready_queue k"
  "zombies (upd_sig f p k) = zombies k" "chain_bad (upd_sig f p k) = chain_bad k"
  "state (pcb_at (upd_sig f p k) q) = state (pcb_at k q)" "pid (pcb_at (upd_sig f p k) q) = pid (pcb_at k q)"
  "words (pcb_at (upd_sig f p k) q) = words (pcb_at k q)" "esp (pcb_at (upd_sig f p k) q) = esp (pcb_at k q)"
  by (simp_all add: upd_sig_def pcb_at_upd)

lemma sig_upd_sig:
  "sig (pcb_at (upd_sig f p k) q) =
     (if p = q \<and> p < length (proctab k) then f (sig (pcb_at k q)) else sig (pcb_at k q))"
  by (auto simp: upd_sig_def pcb_at_upd)

lemma sched_ok_upd_sig [simp]: "sched_ok (upd_sig f p k) = sched_ok k"
  by (simp add: sched_ok_def queues_ok_def)

lemma sched_ok_wake:
  assumes "sched_ok k" "p < length (proctab k)" "state (pcb_at k p) \<notin> {PROC_READY, PROC_ZOMBIE}" "p \<noteq> current k"
  shows "sched_ok (wake p r k)"
  using assms not_queued [of k p] queues_ok_ready(2) [of k p r] by (auto simp: sched_ok_def)

lemma upd_sig_upd_sig: "upd_sig g p (upd_sig f p k) = upd_sig (\<lambda>s. g (f s)) p k"
  by (cases "p < length (proctab k)") (simp_all add: upd_sig_def upd_pcb_def list_update_beyond)

lemma needs_wake_upd_sig:
  assumes "\<And>s. mask (f s) = mask s" "\<And>s. actions (f s) = actions s"
  shows "needs_wake (pcb_at (upd_sig f p k) q) n = needs_wake (pcb_at k q) n"
  using assms by (auto simp: needs_wake_def sig_upd_sig signal_accepted_def signal_ignored_def signal_blocked_def)

lemma do_kill_cases:
  obtains f where "do_kill p sig_no code k =
      (if needs_wake (pcb_at k p) sig_no then wake p sig_no (upd_sig f p k) else upd_sig f p k)"
    "\<And>s. pending (f s) = set_word_bit (sig_no - 1) (pending s)" "\<And>s. mask (f s) = mask s"
    "\<And>s. actions (f s) = actions s" "\<And>s. restore (f s) = restore s"
proof -
  define g where "g = (\<lambda>s :: sig_struct. s\<lparr>pending := set_word_bit (sig_no - 1) (pending s)\<rparr>)"
  define b where "b \<longleftrightarrow> sa_flags (actions (sig (pcb_at (upd_sig g p k) p)) ! nat sig_no) AND SA_SIGINFO \<noteq> 0"
  define I where "I = kill_info code (pid (cur k)) (words (cur k) (cx_eip (esp (pcb_at k p))))"
  define f where "f = (\<lambda>s :: sig_struct. if b then (g s)\<lparr>infos := (infos (g s))[nat sig_no := I (infos (g s) ! nat sig_no)]\<rparr> else g s)"
  have f: "pending (f s) = set_word_bit (sig_no - 1) (pending s)" "mask (f s) = mask s"
    "actions (f s) = actions s" "restore (f s) = restore s" for s
    by (simp_all add: f_def g_def)
  have c: "pid (cur (upd_sig g p k)) = pid (cur k)" "words (cur (upd_sig g p k)) = words (cur k)"
    by (simp_all add: cur_def)
  have "do_kill p sig_no code k =
      (if needs_wake (pcb_at (upd_sig f p k) p) sig_no then wake p sig_no (upd_sig f p k) else upd_sig f p k)"
    unfolding do_kill_def Let_def g_def [symmetric]
    by (cases b) (simp_all add: b_def [symmetric] upd_sig_upd_sig c I_def [symmetric] f_def)
  then show ?thesis using that [of f] f needs_wake_upd_sig [of f] by simp
qed

lemma do_kill_sched_ok:
  assumes "sched_ok k" "p < length (proctab k)"
  shows "sched_ok (do_kill p sig_no code k)"
proof -
  obtain f where f: "do_kill p sig_no code k =
      (if needs_wake (pcb_at k p) sig_no then wake p sig_no (upd_sig f p k) else upd_sig f p k)"
    by (rule do_kill_cases)
  show ?thesis
  proof (cases "needs_wake (pcb_at k p) sig_no")
    case True
    then have "state (pcb_at k p) \<notin> {PROC_READY, PROC_ZOMBIE}" by (auto simp: needs_wake_def)
    then show ?thesis
      using True f assms sched_okD(5) [OF assms(1)] by (auto intro!: sched_ok_wake)
  qed (use f assms in simp)
qed

section \<open>Properties\<close>

text \<open>
  C8: delivering a signal and returning from its handler.  When the current process has an accepted
  signal pending with a handler, \<^verbatim>\<open>handle_signal\<close> delivers the one with the highest number: the
  process continues in the trampoline on a frame below its user stack, which holds the handler and
  the saved context, and the signal is no longer pending.  When the trampoline passes the saved
  context to \<^verbatim>\<open>sigreturn\<close>, and the handler left the frame and the saved context alone, the stack
  pointer and the mask of the process are those before the signal; after \<^verbatim>\<open>sigsuspend\<close> the mask is
  the one that \<^verbatim>\<open>sigsuspend\<close> had replaced.
\<close>

theorem signal_delivery_roundtrip:
  fixes k k2 T
  defines "c \<equiv> cur k" and "k1 \<equiv> handle_signal T k"
  defines "n \<equiv> pending_signal (sig c)" and "f \<equiv> frame_pos (words c (cx_esp (esp c)))"
  assumes cur: "current k < length (proctab k)" and pend: "signal_pending (sig c)" "signo_valid n"
    and user: "pflags c AND PFLAG_SUPER = 0" and h: "sa_handler (actions (sig c) ! nat n) \<noteq> SIG_IGN"
    and disj: "cx_esp (esp c) \<notin> frame_words f"
    and later: "current k2 < length (proctab k2)"
      "\<forall>a \<in> insert (cx_esp (esp c)) (frame_words f). words (cur k2) a = words (cur k1) a"
  shows "(\<forall>m. signo_valid m \<and> sigismember (pending (sig c) AND mask (sig c)) m \<longrightarrow> m \<le> n) \<and>
    esp (cur k1) = f \<and> words (cur k1) (cx_eip f) = sigtramp1 T \<and>
    words (cur k1) (cx_stack f 1) = handler_addr T (sa_handler (actions (sig c) ! nat n)) \<and>
    \<not> sigismember (pending (sig (cur k1))) n \<and>
    esp (cur (sig_restore (words (cur k2) (cx_stack f 2)) k2)) = esp c \<and>
    mask (sig (cur (sig_restore (words (cur k2) (cx_stack f 2)) k2))) =
      (if restore (sig c) \<noteq> 0 then restore (sig c) else mask (sig c))"
proof -
  have highest: "m \<le> n" if "signo_valid m" "sigismember (pending (sig c) AND mask (sig c)) m" for m
  proof -
    have "fls (pending (sig c) AND mask (sig c)) = int (Suc (nat (n - 1)))"
      using pend(2) by (simp add: n_def pending_signal_def signo_valid_def)
    then have "\<not> nat (n - 1) < nat (m - 1)"
      using that sigismember_iff [OF that(1)] unfolding fls_eq_Suc by blast
    then show ?thesis using that(1) pend(2) by (simp add: signo_valid_def) linarith
  qed
  have k1: "cur k1 = send_signal_user T (nat n) c"
    using handle_signal_delivers(1) [of k T] cur pend user by (simp add: c_def k1_def n_def)
  have w: "words (cur k1) = words (place_sig_frame T f (nat n) c)"
    using h by (simp add: k1 send_signal_user_def Let_def f_def)
  have e: "esp (cur k1) = f" using h by (simp add: k1 send_signal_user_def Let_def f_def)
  have "int (nat n) = n" using pend(2) by (simp add: signo_valid_def)
  then have p: "\<not> sigismember (pending (sig (cur k1))) n"
    using pend(2) by (simp add: k1 send_signal_user_def Let_def sigismember_iff bit_clear_word_bit)
  have ws: "words (cur k2) (cx_stack f 2) = esp c" "words (cur k2) (cx_esp (esp c)) = words c (cx_esp (esp c))"
    "words (cur k2) (cx_stack f 11) = (if restore (sig c) \<noteq> 0 then restore (sig c) else mask (sig c))"
    using later(2) stack_in_frame [of 2 f] stack_in_frame [of 11 f] w place_sig_frame_fields [of T f "nat n" c] place_sig_frame_other [OF disj, of T "nat n" c]
    by auto
  then show ?thesis
    using highest e p w place_sig_frame_fields [of T f "nat n" c] later(1)
    by (simp add: sig_restore_def f_def)
qed

definition text0 :: text_addrs where
  "text0 = \<lparr>sigtramp1 = 0xC0101000, sig_err = 0xC0102000, sig_terminate = 0xC0103000, sig_stop = 0xC0104000\<rparr>"

lemma sig_terminate_text0: "sig_terminate text0 = 0xC0103000"
  by (simp add: text0_def)

text \<open>The current process, interrupted in user mode, with \<^verbatim>\<open>SIGALRM\<close> pending.\<close>

definition kernel_pending :: kernel where
  "kernel_pending = upd_pcb 1 (\<lambda>c. c\<lparr>esp := 0xFFFFD000,
     words := (\<lambda>a. if a = 0xFFFFD03C then 0xBFFFF000 else 0), sig := (sig c)\<lparr>pending := 2\<rparr>\<rparr>) kernel0"

lemma kernel_pending_simps:
  "current kernel_pending < length (proctab kernel_pending)" "esp (cur kernel_pending) = 0xFFFFD000"
  "words (cur kernel_pending) 0xFFFFD03C = 0xBFFFF000" "pending (sig (cur kernel_pending)) = 2"
  "mask (sig (cur kernel_pending)) = -1" "restore (sig (cur kernel_pending)) = 0"
  "sa_handler (actions (sig (cur kernel_pending)) ! 2) = Sig_terminate" "pflags (cur kernel_pending) = 0"
  by (simp_all add: kernel_pending_def cur_def pcb_at_upd sig0_def)

lemma fls_2: "fls 2 = 2"
  using fls_eq_Suc [of 2 1] by (auto simp: bit_2_iff)

lemma frame_words_code: "frame_words f = (\<lambda>i. f + 4 * of_nat i) ` set [0..<29]"
  by (simp only: frame_words_def atLeast0LessThan [symmetric] atLeastLessThan_upt)

theorem signal_delivery_roundtrip_witness:
  "esp (cur (handle_signal text0 kernel_pending)) = 0xBFFFEF88 \<and>
   words (cur (handle_signal text0 kernel_pending)) (cx_stack 0xBFFFEF88 1) = 0xC0103000 \<and>
   esp (cur (sig_restore (words (cur (handle_signal text0 kernel_pending)) (cx_stack 0xBFFFEF88 2))
     (handle_signal text0 kernel_pending))) = 0xFFFFD000"
proof -
  have "0xFFFFD03C \<notin> frame_words (0xBFFFEF88 :: u32)"
    unfolding frame_words_code by code_simp
  moreover have "current (handle_signal text0 kernel_pending) < length (proctab (handle_signal text0 kernel_pending))"
    using kernel_pending_simps(1) by (simp add: handle_signal_def send_signal_def Let_def)
  ultimately show ?thesis
    using signal_delivery_roundtrip [of kernel_pending "handle_signal text0 kernel_pending" text0]
    by (simp add: kernel_pending_simps signal_pending_def pending_signal_def fls_2 signo_valid_def cx_esp_def
        frame_pos_def handler_addr_def sig_terminate_text0)
qed



text \<open>
  C39: the signals a process cannot block with \<^verbatim>\<open>sigprocmask\<close>.  \<^verbatim>\<open>SIGKILL\<close> stays accepted whatever the
  request.  \<^verbatim>\<open>SIGSTOP\<close> does not: \<^verbatim>\<open>SIG_NOIGNORE\<close> has bit \<^verbatim>\<open>signo\<close> where signal sets have bit
  \<^verbatim>\<open>signo - 1\<close>, so it protects \<^verbatim>\<open>SIGKILL\<close> only, through the bit meant for \<^verbatim>\<open>SIGSTOP\<close>.
\<close>

theorem sigprocmask_unblockable:
  assumes "current k < length (proctab k)" "sys_sigprocmask how (Some (a, v)) None k = (Inr r, k')"
    and "\<not> signal_blocked (sig (cur k)) SIGKILL"
  shows "\<not> signal_blocked (sig (cur k')) SIGKILL \<and>
    (how = 0 \<and> sigismember v SIGSTOP \<longrightarrow> signal_blocked (sig (cur k')) SIGSTOP)"
proof -
  obtain m where m: "new_mask how v (mask (sig (cur k))) = Inr m"
    "k' = upd_sig (\<lambda>s. s\<lparr>mask := m\<rparr>) (current k) k"
    using assms(2) by (auto simp: sys_sigprocmask_def Let_def split: if_splits sum.splits)
  have c: "mask (sig (cur k')) = m" using assms(1) m(2) by (simp add: cur_def sig_upd_sig)
  have v: "signo_valid SIGKILL" "signo_valid SIGSTOP" by (simp_all add: signo_valid_def)
  have b: "bit SIG_NOIGNORE 27" "\<not> bit SIG_NOIGNORE 26"
    by (simp_all add: SIG_NOIGNORE_def bit_or_iff bit_push_bit_iff)
  show ?thesis
    using m(1) assms(3) b unfolding signal_blocked_def c sigismember_iff [OF v(1)] sigismember_iff [OF v(2)]
    by (auto simp: new_mask_def bit_or_iff bit_and_iff bit_not_iff split: if_splits)
qed

theorem sigprocmask_unblockable_witness:
  "\<exists>k'. sys_sigprocmask 0 (Some (0x2000, 0x0C000000)) None kernel0 = (Inr None, k') \<and>
     \<not> signal_blocked (sig (cur k')) SIGKILL \<and> signal_blocked (sig (cur k')) SIGSTOP"
proof -
  let ?r = "sys_sigprocmask 0 (Some (0x2000, 0x0C000000)) None kernel0"
  have "cur_verify kernel0 0x2000 4 VM_READ"
    by (simp add: cur_verify_def cur_def mm0_def vm_verify_def vma_get_def vma_find_def vma_contains_def)
  then have r: "?r = (Inr None, snd ?r)" by (simp add: sys_sigprocmask_def new_mask_def Let_def)
  moreover have "\<not> signal_blocked (sig (cur kernel0)) SIGKILL" "sigismember 0x0C000000 SIGSTOP"
    by (simp_all add: signal_blocked_def sigismember_def sig_bit_def cur_def sig0_def)
  ultimately show ?thesis
    using sigprocmask_unblockable [OF _ r] by (intro exI [of _ "snd ?r"]) simp
qed

end
