(* ===== verification/KTimer.thy ===== *)
theory KTimer
  imports Signal
begin

text \<open>
  Kernel timers, \<^verbatim>\<open>src/kernel/timer.c\<close>, and the clocks, alarms and POSIX timers built on them,
  \<^verbatim>\<open>src/dispatch/time.c\<close>.  The timers that are running form one list in the order of their
  expiry.  The theory shows that the order is kept and that every timer fires at exactly its tick as
  long as the tick counter does not wrap around, what happens when it does, and how the clocks read.
\<close>

section \<open>Timers\<close>

definition upd_tmr :: "tref \<Rightarrow> (timer \<Rightarrow> timer) \<Rightarrow> kernel \<Rightarrow> kernel" where
  "upd_tmr t f k = k\<lparr>tmr := (tmr k)(t := f (tmr k t))\<rparr>"

definition ktimer_init :: "tref \<Rightarrow> taction \<Rightarrow> u32 \<Rightarrow> kernel \<Rightarrow> kernel" where
  "ktimer_init t act flags k = upd_tmr t (\<lambda>x. x\<lparr>taction := act, tflags := flags AND NOT TF_ARMED\<rparr>) k"

text \<open>
  The two loops of \<^verbatim>\<open>ktimer_start\<close>, as the position in the list at which the timer is inserted.  Both
  end at the list head, that is at the tail of the list, when no entry stops them.
\<close>

definition start_pos :: "(tref \<Rightarrow> u32) \<Rightarrow> u32 \<Rightarrow> tref list \<Rightarrow> nat" where
  "start_pos E e ts = length (takeWhile (\<lambda>t. \<not> E t > e) ts)"

fun start_pos_reverse :: "(tref \<Rightarrow> u32) \<Rightarrow> u32 \<Rightarrow> u32 \<Rightarrow> tref list \<Rightarrow> nat \<Rightarrow> nat" where
  "start_pos_reverse E now e ts 0 = length ts"
| "start_pos_reverse E now e ts (Suc i) =
     (if E (ts ! i) > now then Suc i
      else if E (ts ! i) > e then i
      else start_pos_reverse E now e ts i)"

definition ktimer_start :: "tref \<Rightarrow> u32 \<Rightarrow> kernel \<Rightarrow> kernel" where
  "ktimer_start t ticks k =
     (let k = upd_tmr t (\<lambda>x. x\<lparr>expires := tick_count k + ticks, tflags := tflags x OR TF_ARMED\<rparr>) k;
          e = expires (tmr k t);
          E = (\<lambda>t. expires (tmr k t));
          pos = (if e < tick_count k
                 then start_pos_reverse E (tick_count k) e (timers k) (length (timers k))
                 else start_pos E e (timers k))
      in k\<lparr>timers := take pos (timers k) @ t # drop pos (timers k),
           chain_bad := chain_bad k \<or> t \<in> set (timers k)\<rparr>)"

text \<open>\<^verbatim>\<open>ktimer_create\<close>, given the timer the slab allocator returns.\<close>

definition ktimer_create :: "nat option \<Rightarrow> taction \<Rightarrow> u32 \<Rightarrow> kernel \<Rightarrow> tref option \<times> kernel" where
  "ktimer_create mem act flags k =
     (case mem of None \<Rightarrow> (None, k) | Some i \<Rightarrow> (Some (T_slab i), ktimer_init (T_slab i) act flags k))"

definition del_timer :: "tref \<Rightarrow> kernel \<Rightarrow> kernel" where
  "del_timer t k = k\<lparr>timers := remove1 t (timers k), chain_bad := chain_bad k \<or> t \<notin> set (timers k)\<rparr>"

definition ktimer_remove :: "tref \<Rightarrow> kernel \<Rightarrow> u32 \<times> kernel" where
  "ktimer_remove t k = (let k' = del_timer t k in (expires (tmr k t) - tick_count k, k'))"

section \<open>Callbacks\<close>

definition wake_action :: "nat \<Rightarrow> kernel \<Rightarrow> kernel" where
  "wake_action p k = wake p 0 k"

definition alrm_action :: "nat \<Rightarrow> kernel \<Rightarrow> kernel" where
  "alrm_action p k = do_kill p SIGALRM 0 k"

text \<open>The value of the signal is stored in the current process, whichever process the timer is for.\<close>

definition posix_timer_action :: "nat \<Rightarrow> kernel \<Rightarrow> kernel outcome" where
  "posix_timer_action i k =
     (let pt = ptimer k i
      in case get_pcb (pt_pid pt) k of
           None \<Rightarrow> Stuck
         | Some p \<Rightarrow>
             let n = nat (sigev_signo (sev pt));
                 k = upd_sig (\<lambda>s. s\<lparr>infos := (infos s)[n := (infos s ! n)\<lparr>si_value := sigev_value (sev pt)\<rparr>]\<rparr>)
                       (current k) k
             in Ret (if sigev_notify (sev pt) = 1 then do_kill p (sigev_signo (sev pt)) 3 k else k))"

definition run_action :: "taction \<Rightarrow> kernel \<Rightarrow> kernel outcome" where
  "run_action a k =
     (case a of
        Wake_action p \<Rightarrow> Ret (wake_action p k)
      | Alrm_action p \<Rightarrow> Ret (alrm_action p k)
      | Posix_timer_action i \<Rightarrow> posix_timer_action i k)"

text \<open>
  \<^verbatim>\<open>ktimer_destroy\<close>.  For a timer that is not static the function frees the address of its own
  parameter, which is in no slab: the timer stays allocated.
\<close>

definition ktimer_destroy :: "tref \<Rightarrow> kernel \<Rightarrow> (u32 \<times> kernel) outcome" where
  "ktimer_destroy t k =
     (let ex = expires (tmr k t)
      in bind_outcome
           (if tflags (tmr k t) AND TF_ARMED \<noteq> 0 \<and> tflags (tmr k t) AND TF_ALWAYS \<noteq> 0 \<and> ex > tick_count k
            then run_action (taction (tmr k t)) k else Ret k)
           (\<lambda>k. Ret (if ex \<le> tick_count k then 0 else ex - tick_count k, del_timer t k)))"

text \<open>The loop of \<^verbatim>\<open>ktimers_tick\<close>; no callback changes the list.\<close>

fun tick_loop :: "tref list \<Rightarrow> kernel \<Rightarrow> kernel outcome" where
  "tick_loop [] k = Ret k"
| "tick_loop (t # ts) k =
     (if expires (tmr k t) > tick_count k then Ret k
      else
        let k = upd_tmr t (\<lambda>x. x\<lparr>tflags := tflags x AND NOT TF_ARMED\<rparr>) k
        in bind_outcome (run_action (taction (tmr k t)) k) (\<lambda>k.
             bind_outcome (ktimer_destroy t k) (\<lambda>(_, k). tick_loop ts k)))"

definition ktimers_tick :: "kernel \<Rightarrow> kernel outcome" where
  "ktimers_tick k = (if timers k = [] then Ret k else tick_loop (timers k) k)"

section \<open>Sleeping, alarms and clocks\<close>

text \<open>The part of \<^verbatim>\<open>tick()\<close> before the next process is chosen, and the whole of it.\<close>

definition tick_timers :: "kernel \<Rightarrow> kernel outcome" where
  "tick_timers k =
     (let k = k\<lparr>tick_count := tick_count k + 1\<rparr>;
          k = (if tick_count k mod 100 = 0 then k\<lparr>system_clock := system_clock k + 1\<rparr> else k)
      in ktimers_tick k)"

definition tick :: "kernel \<Rightarrow> kernel outcome" where
  "tick k = bind_outcome (tick_timers k) (\<lambda>k. schedule (ready (current k) k))"

definition sys_sleep :: "u32 \<Rightarrow> kernel \<Rightarrow> kernel" where
  "sys_sleep ticks k =
     (let t = T_sleep (current k)
      in set_state PROC_INTERRUPTIBLE (current k)
           (ktimer_start t ticks (ktimer_init t (Wake_action (current k)) TF_STATIC k)))"

definition sys_sleep_resume :: "int \<Rightarrow> kernel \<Rightarrow> u32 \<times> kernel" where
  "sys_sleep_resume r k = (if r \<noteq> 0 then ktimer_remove (T_sleep (current k)) k else (0, k))"

definition sys_alarm :: "u32 \<Rightarrow> kernel \<Rightarrow> u32 \<times> kernel" where
  "sys_alarm ticks k =
     (let t = T_alarm (current k);
          (r, k) = (if tflags (tmr k t) AND TF_ARMED \<noteq> 0 then ktimer_remove t k else (0, k))
      in if ticks = 0 then (r, k)
         else (r, ktimer_start t ticks (ktimer_init t (Alrm_action (current k)) TF_STATIC k)))"

text \<open>On success the result is what was stored through the pointer.\<close>

definition sys_time :: "u32 \<Rightarrow> kernel \<Rightarrow> errno + u32" where
  "sys_time a k = (if \<not> cur_verify k a 4 VM_WRITE then Inl EFAULT else Inr (system_clock k))"

definition posix_rtc_get :: "kernel \<Rightarrow> timespec" where
  "posix_rtc_get k = \<lparr>tv_sec = system_clock k, tv_nsec = 0\<rparr>"

definition posix_rtc_set :: "timespec \<Rightarrow> kernel \<Rightarrow> kernel" where
  "posix_rtc_set tp k = k\<lparr>system_clock := tv_sec tp\<rparr>"

definition posix_monotonic_get :: "kernel \<Rightarrow> timespec" where
  "posix_monotonic_get k =
     \<lparr>tv_sec = tick_count k div 100, tv_nsec = uint ((tick_count k mod 100) * 10000000)\<rparr>"

text \<open>
  \<^verbatim>\<open>posix_clocks\<close> by clock number.  Only the first two of the four clocks are initialised: the others
  have a resolution of zero and null functions.
\<close>

record clock =
  clock_get :: "(kernel \<Rightarrow> timespec) option"
  clock_set :: "(timespec \<Rightarrow> kernel \<Rightarrow> kernel) option"
  clock_res :: timespec

definition posix_clocks :: "int \<Rightarrow> clock" where
  "posix_clocks c =
     (if c = 0 then \<lparr>clock_get = Some posix_rtc_get, clock_set = Some posix_rtc_set,
                     clock_res = \<lparr>tv_sec = 1, tv_nsec = 0\<rparr>\<rparr>
      else if c = 1 then \<lparr>clock_get = Some posix_monotonic_get, clock_set = None,
                          clock_res = \<lparr>tv_sec = 0, tv_nsec = 10000000\<rparr>\<rparr>
      else \<lparr>clock_get = None, clock_set = None, clock_res = \<lparr>tv_sec = 0, tv_nsec = 0\<rparr>\<rparr>)"

definition clock_valid :: "int \<Rightarrow> bool" where
  "clock_valid c \<longleftrightarrow> c \<ge> 0 \<and> c < 4"

definition sys_clock_getres :: "int \<Rightarrow> u32 \<Rightarrow> kernel \<Rightarrow> errno + timespec" where
  "sys_clock_getres c a k =
     (if \<not> clock_valid c then Inl EINVAL
      else if \<not> cur_verify k a 8 VM_WRITE then Inl EFAULT
      else Inr (clock_res (posix_clocks c)))"

definition sys_clock_gettime :: "int \<Rightarrow> u32 \<Rightarrow> kernel \<Rightarrow> (errno + timespec) outcome" where
  "sys_clock_gettime c a k =
     (if \<not> clock_valid c then Ret (Inl EINVAL)
      else if \<not> cur_verify k a 8 VM_WRITE then Ret (Inl EFAULT)
      else case clock_get (posix_clocks c) of None \<Rightarrow> Stuck | Some get \<Rightarrow> Ret (Inr (get k)))"

definition sys_clock_settime :: "int \<Rightarrow> u32 \<Rightarrow> timespec \<Rightarrow> kernel \<Rightarrow> (errno + unit) \<times> kernel" where
  "sys_clock_settime c a tp k =
     (if \<not> clock_valid c then (Inl EINVAL, k)
      else case clock_set (posix_clocks c) of
             None \<Rightarrow> (Inl EPERM, k)
           | Some st \<Rightarrow> if \<not> cur_verify k a 8 VM_READ then (Inl EFAULT, k) else (Inr (), st tp k))"

section \<open>POSIX timers\<close>

text \<open>The table has 512 buckets, found by \<^verbatim>\<open>hash_32\<close> of \<^verbatim>\<open>src/include/kernel/hash.h\<close>.\<close>

definition hash_32 :: "u32 \<Rightarrow> nat \<Rightarrow> u32" where
  "hash_32 val bits = drop_bit (32 - bits) (val * 0x9e370001)"

definition bucket :: "u32 \<Rightarrow> nat" where
  "bucket tid = unat (hash_32 tid 9)"

definition get_timer_by_id :: "u32 \<Rightarrow> kernel \<Rightarrow> nat option" where
  "get_timer_by_id tid k =
     List.find (\<lambda>i. pt_pid (ptimer k i) = pid (cur k) \<and> timerid (ptimer k i) = tid) (ptimers k (bucket tid))"

definition sigev_valid :: "sigevent \<Rightarrow> bool" where
  "sigev_valid s \<longleftrightarrow> (sigev_notify s = 0 \<or> sigev_notify s = 1) \<and> signo_valid (sigev_signo s)"

definition timespec_to_ticks :: "timespec \<Rightarrow> u32" where
  "timespec_to_ticks t = tv_sec t * 100 + of_int (if tv_nsec t \<ge> 0 then tv_nsec t div 10000000
     else - (- tv_nsec t div 10000000))"

text \<open>\<^verbatim>\<open>ticks_to_timespec\<close> assigns the nanoseconds twice and leaves the seconds as they are.\<close>

definition ticks_to_timespec :: "timespec \<Rightarrow> u32 \<Rightarrow> timespec" where
  "ticks_to_timespec t ticks =
     (let t = t\<lparr>tv_nsec := uint (ticks div 100)\<rparr> in t\<lparr>tv_nsec := uint ((ticks mod 100) * 10000000)\<rparr>)"

text \<open>
  \<^verbatim>\<open>sys_timer_create\<close>; \<open>mem\<close> says whether the slab allocator has memory, and the new timer takes the
  next number.  The id counter of the process advances before the event is checked.
\<close>

definition default_event :: "u32 \<Rightarrow> sigevent" where
  "default_event tid = \<lparr>sigev_notify = 1, sigev_signo = SIGALRM, sigev_value = tid\<rparr>"

definition sys_timer_create ::
    "bool \<Rightarrow> int \<Rightarrow> (u32 \<times> sigevent) option \<Rightarrow> u32 \<Rightarrow> kernel \<Rightarrow> (errno + u32) \<times> kernel" where
  "sys_timer_create mem clockid sevp tid_ptr k =
     (if clockid \<noteq> 1 then (Inl ENOTSUP, k)
      else if (case sevp of None \<Rightarrow> False | Some (a, _) \<Rightarrow> \<not> cur_verify k a 16 VM_READ) then (Inl EFAULT, k)
      else if \<not> cur_verify k tid_ptr 4 VM_WRITE then (Inl EFAULT, k)
      else if \<not> mem then (Inl ENOMEM, k)
      else
        let tid = posix_timer_id (cur k);
            i = next_ptimer k;
            k' = upd_pcb (current k) (\<lambda>c. c\<lparr>posix_timer_id := tid + 1\<rparr>) k;
            ev = (case sevp of None \<Rightarrow> default_event tid | Some (_, s) \<Rightarrow> s);
            pt = (ptimer k i)\<lparr>sev := ev, pt_pid := pid (cur k), timerid := tid\<rparr>
        in if sevp \<noteq> None \<and> \<not> sigev_valid ev then (Inl EINVAL, k')
           else
             let k' = k'\<lparr>ptimer := (ptimer k')(i := pt), next_ptimer := Suc i\<rparr>;
                 k' = ktimer_init (T_posix i) (Posix_timer_action i) TF_STATIC k';
                 k' = upd_pcb (current k') (\<lambda>c. c\<lparr>posix_timers_of := posix_timers_of c @ [i]\<rparr>) k'
             in (Inr tid, k'\<lparr>ptimers := (ptimers k')(bucket tid := i # ptimers k' (bucket tid))\<rparr>))"

text \<open>Deleting a timer leaves its kernel timer running.\<close>

definition sys_timer_delete :: "u32 \<Rightarrow> kernel \<Rightarrow> (errno + unit) \<times> kernel" where
  "sys_timer_delete tid k =
     (case get_timer_by_id tid k of
        None \<Rightarrow> (Inl EINVAL, k)
      | Some i \<Rightarrow>
          (Inr (),
           (upd_pcb (current k) (\<lambda>c. c\<lparr>posix_timers_of := remove1 i (posix_timers_of c)\<rparr>) k)
             \<lparr>ptimers := (ptimers k)(bucket tid := remove1 i (ptimers k (bucket tid)))\<rparr>))"

definition sys_timer_gettime :: "u32 \<Rightarrow> u32 \<Rightarrow> kernel \<Rightarrow> (errno + itimerspec) \<times> kernel" where
  "sys_timer_gettime tid a k =
     (case get_timer_by_id tid k of
        None \<Rightarrow> (Inl EINVAL, k)
      | Some i \<Rightarrow>
          if \<not> cur_verify k a 16 VM_WRITE then (Inl EFAULT, k)
          else
            let ticks = expires (tmr k (T_posix i)) - tick_count k;
                sp = (spec (ptimer k i))\<lparr>it_value :=
                  \<lparr>tv_sec = (if ticks mod 100 \<noteq> 0 then ticks div 100 + 1 else ticks div 100), tv_nsec = 0\<rparr>\<rparr>
            in (Inr sp, k\<lparr>ptimer := (ptimer k)(i := (ptimer k i)\<lparr>spec := sp\<rparr>)\<rparr>))"

definition sys_timer_settime :: "u32 \<Rightarrow> u32 \<times> itimerspec \<Rightarrow> kernel \<Rightarrow> (errno + unit) \<times> kernel" where
  "sys_timer_settime tid new_value k =
     (case get_timer_by_id tid k of
        None \<Rightarrow> (Inl EINVAL, k)
      | Some i \<Rightarrow>
          if \<not> cur_verify k (fst new_value) 16 VM_READ then (Inl EFAULT, k)
          else
            (Inr (), ktimer_start (T_posix i) (timespec_to_ticks (it_value (snd new_value)))
               (k\<lparr>ptimer := (ptimer k)(i := (ptimer k i)\<lparr>spec := snd new_value\<rparr>)\<rparr>)))"

section \<open>The list of timers\<close>

definition timers_ok :: "kernel \<Rightarrow> bool" where
  "timers_ok k \<longleftrightarrow> distinct (timers k) \<and> sorted (map (\<lambda>t. expires (tmr k t)) (timers k))"

lemma upd_tmr_simps [simp]:
  "timers (upd_tmr t f k) = timers k" "tick_count (upd_tmr t f k) = tick_count k"
  "tmr (upd_tmr t f k) u = (if u = t then f (tmr k t) else tmr k u)"
  "proctab (upd_tmr t f k) = proctab k" "current (upd_tmr t f k) = current k"
  by (simp_all add: upd_tmr_def)

lemma sorted_insert_pos:
  assumes "sorted (map f ts)"
  shows "sorted (map f (takeWhile (\<lambda>t. \<not> f t > e) ts)) \<and>
    (\<forall>x \<in> set (takeWhile (\<lambda>t. \<not> f t > e) ts). f x \<le> e) \<and>
    sorted (map f (dropWhile (\<lambda>t. \<not> f t > e) ts)) \<and>
    (\<forall>x \<in> set (dropWhile (\<lambda>t. \<not> f t > e) ts). e < f x)"
  using assms
proof (induction ts)
  case (Cons a ts)
  then show ?case by (auto simp: not_less intro: order_trans dest: set_takeWhileD)
qed simp

lemma take_takeWhile_length: "take (length (takeWhile P xs)) xs = takeWhile P xs"
  "drop (length (takeWhile P xs)) xs = dropWhile P xs"
  by (metis append_eq_conv_conj takeWhile_dropWhile_id)+

lemma ktimer_start_no_wrap:
  assumes ok: "timers_ok k" and t: "t \<notin> set (timers k)"
    and nw: "unat (tick_count k) + unat ticks < 2 ^ 32"
  defines "e \<equiv> tick_count k + ticks"
  shows "timers (ktimer_start t ticks k) =
      takeWhile (\<lambda>u. \<not> expires (tmr k u) > e) (timers k) @ t # dropWhile (\<lambda>u. \<not> expires (tmr k u) > e) (timers k)"
    "expires (tmr (ktimer_start t ticks k) t) = e" "unat e = unat (tick_count k) + unat ticks"
    "\<And>u. u \<noteq> t \<Longrightarrow> tmr (ktimer_start t ticks k) u = tmr k u"
    "taction (tmr (ktimer_start t ticks k) t) = taction (tmr k t)"
    "chain_bad (ktimer_start t ticks k) = chain_bad k"
proof -
  show e: "unat e = unat (tick_count k) + unat ticks" using nw by (simp add: e_def unat_add_no_wrap)
  then have nl: "\<not> e < tick_count k" by (simp add: word_less_nat_alt)
  let ?E = "\<lambda>u. expires (tmr (upd_tmr t (\<lambda>x. x\<lparr>expires := e, tflags := tflags x OR TF_ARMED\<rparr>) k) u)"
  have eq: "takeWhile (\<lambda>u. \<not> ?E u > e) (timers k) = takeWhile (\<lambda>u. \<not> expires (tmr k u) > e) (timers k)"
      "dropWhile (\<lambda>u. \<not> ?E u > e) (timers k) = dropWhile (\<lambda>u. \<not> expires (tmr k u) > e) (timers k)"
    using t by (auto intro!: takeWhile_cong dropWhile_cong split: if_splits)
  show "timers (ktimer_start t ticks k) =
      takeWhile (\<lambda>u. \<not> expires (tmr k u) > e) (timers k) @ t # dropWhile (\<lambda>u. \<not> expires (tmr k u) > e) (timers k)"
    using nl eq unfolding ktimer_start_def Let_def start_pos_def
    by (simp add: take_takeWhile_length flip: e_def)
  show "expires (tmr (ktimer_start t ticks k) t) = e" "taction (tmr (ktimer_start t ticks k) t) = taction (tmr k t)"
    "\<And>u. u \<noteq> t \<Longrightarrow> tmr (ktimer_start t ticks k) u = tmr k u"
    by (simp_all add: ktimer_start_def Let_def e_def)
  show "chain_bad (ktimer_start t ticks k) = chain_bad k"
    using t by (simp add: ktimer_start_def Let_def upd_tmr_def)
qed

lemma map_eq_off: "t \<notin> set xs \<Longrightarrow> (\<And>u. u \<noteq> t \<Longrightarrow> f u = g u) \<Longrightarrow> map f xs = map g xs"
  by (induction xs) auto

lemma timers_ok_start:
  assumes ok: "timers_ok k" and t: "t \<notin> set (timers k)"
    and nw: "unat (tick_count k) + unat ticks < 2 ^ 32"
  shows "timers_ok (ktimer_start t ticks k)" "set (timers (ktimer_start t ticks k)) = insert t (set (timers k))"
proof -
  note s = ktimer_start_no_wrap [OF assms]
  define e where "e = tick_count k + ticks"
  let ?P = "\<lambda>u. \<not> expires (tmr k u) > e"
  have split: "set (takeWhile ?P (timers k)) \<union> set (dropWhile ?P (timers k)) = set (timers k)"
    by (metis set_append takeWhile_dropWhile_id)
  have d: "distinct (takeWhile ?P (timers k))" "distinct (dropWhile ?P (timers k))"
      "set (takeWhile ?P (timers k)) \<inter> set (dropWhile ?P (timers k)) = {}"
    using ok unfolding timers_ok_def by (metis distinct_append takeWhile_dropWhile_id)+
  show set: "set (timers (ktimer_start t ticks k)) = insert t (set (timers k))"
    unfolding s(1) e_def [symmetric] using split by auto
  have notin: "t \<notin> set (takeWhile ?P (timers k))" "t \<notin> set (dropWhile ?P (timers k))"
    using t by (auto dest: set_takeWhileD set_dropWhileD)
  let ?E = "\<lambda>u. expires (tmr (ktimer_start t ticks k) u)"
  have same: "?E u = expires (tmr k u)" if "u \<noteq> t" for u using s(4) [OF that] by simp
  have E1: "map ?E (takeWhile ?P (timers k)) = map (\<lambda>u. expires (tmr k u)) (takeWhile ?P (timers k))"
    by (rule map_eq_off [OF notin(1)]) (rule same)
  have E2: "map ?E (dropWhile ?P (timers k)) = map (\<lambda>u. expires (tmr k u)) (dropWhile ?P (timers k))"
    by (rule map_eq_off [OF notin(2)]) (rule same)
  let ?X = "\<lambda>u. expires (tmr k u)"
  have "sorted (map ?X (timers k))" using ok by (simp add: timers_ok_def)
  note f = sorted_insert_pos [OF this, of e, THEN conjunct1]
    sorted_insert_pos [OF this, of e, THEN conjunct2, THEN conjunct1]
    sorted_insert_pos [OF this, of e, THEN conjunct2, THEN conjunct2, THEN conjunct1]
    sorted_insert_pos [OF this, of e, THEN conjunct2, THEN conjunct2, THEN conjunct2]
  have "\<forall>x \<in> set (dropWhile ?P (timers k)). e \<le> ?X x" by (rule ballI, rule less_imp_le, rule bspec [OF f(4)])
  moreover from f(2) this have "\<forall>x \<in> set (takeWhile ?P (timers k)). \<forall>y \<in> set (dropWhile ?P (timers k)). ?X x \<le> ?X y"
    by (meson order_trans)
  ultimately have "sorted (map ?E (timers (ktimer_start t ticks k)))"
    unfolding s(1) e_def [symmetric] map_append list.map E1 E2 s(2)
    using f(1,2,3) by (simp add: sorted_append)
  then show "timers_ok (ktimer_start t ticks k)"
    using d notin unfolding timers_ok_def s(1) e_def [symmetric] by simp
qed

section \<open>Expiry\<close>

text \<open>What a callback keeps: the timers, the clock, and that live processes are live.\<close>

definition keeps_timers :: "kernel \<Rightarrow> kernel \<Rightarrow> bool" where
  "keeps_timers k k' \<longleftrightarrow> timers k' = timers k \<and> tmr k' = tmr k \<and> tick_count k' = tick_count k \<and>
     ptimer k' = ptimer k \<and> (\<forall>pd. get_pcb pd k \<noteq> None \<longrightarrow> get_pcb pd k' \<noteq> None)"

lemma keeps_timers_refl [simp]: "keeps_timers k k"
  by (simp add: keeps_timers_def)

lemma keeps_timers_trans: "keeps_timers a b \<Longrightarrow> keeps_timers b c \<Longrightarrow> keeps_timers a c"
  by (simp add: keeps_timers_def)

lemma keeps_timers_upd_sig: "keeps_timers k (upd_sig f p k)"
  by (auto simp: keeps_timers_def get_pcb_def Let_def) (simp_all add: upd_sig_def)

lemma keeps_timers_wake: "keeps_timers k (wake p r k)"
  by (auto simp: keeps_timers_def get_pcb_def Let_def) (simp_all add: wake_def ready_def set_state_def)

lemma keeps_timers_do_kill: "keeps_timers k (do_kill p n code k)"
  by (rule do_kill_cases [of p n code k])
    (auto intro: keeps_timers_upd_sig keeps_timers_wake keeps_timers_trans)

definition action_live :: "kernel \<Rightarrow> taction \<Rightarrow> bool" where
  "action_live k a \<longleftrightarrow>
     (case a of Posix_timer_action i \<Rightarrow> get_pcb (pt_pid (ptimer k i)) k \<noteq> None | _ \<Rightarrow> True)"

lemma run_action_keeps:
  assumes "action_live k a"
  shows "\<exists>k'. run_action a k = Ret k' \<and> keeps_timers k k'"
proof (cases a)
  case (Posix_timer_action i)
  then show ?thesis
    using assms by (auto simp: action_live_def run_action_def posix_timer_action_def Let_def
        intro: keeps_timers_trans [OF keeps_timers_upd_sig keeps_timers_do_kill] keeps_timers_upd_sig)
qed (auto simp: run_action_def wake_action_def alrm_action_def keeps_timers_wake keeps_timers_do_kill)

definition timers_live :: "kernel \<Rightarrow> bool" where
  "timers_live k \<longleftrightarrow> (\<forall>t \<in> set (timers k). action_live k (taction (tmr k t)))"

text \<open>Expired timers are taken off the front.\<close>

definition same_schedule :: "kernel \<Rightarrow> kernel \<Rightarrow> bool" where
  "same_schedule k k' \<longleftrightarrow> (\<forall>t. expires (tmr k' t) = expires (tmr k t) \<and> taction (tmr k' t) = taction (tmr k t)) \<and>
     ptimer k' = ptimer k \<and> (\<forall>pd. get_pcb pd k \<noteq> None \<longrightarrow> get_pcb pd k' \<noteq> None)"

lemma same_schedule_trans: "same_schedule a b \<Longrightarrow> same_schedule b c \<Longrightarrow> same_schedule a c"
  by (simp add: same_schedule_def)

lemma action_live_mono: "same_schedule k k' \<Longrightarrow> action_live k a \<Longrightarrow> action_live k' a"
  by (auto simp: same_schedule_def action_live_def split: taction.splits)

lemma fire_timer:
  assumes "action_live k (taction (tmr k t))"
  shows "\<exists>k1 k' n. run_action (taction (tmr k t)) (upd_tmr t (\<lambda>x. x\<lparr>tflags := tflags x AND NOT TF_ARMED\<rparr>) k) = Ret k1 \<and>
    ktimer_destroy t k1 = Ret (n, k') \<and> timers k' = remove1 t (timers k) \<and> tick_count k' = tick_count k \<and>
    same_schedule k k'"
proof -
  let ?k = "upd_tmr t (\<lambda>x. x\<lparr>tflags := tflags x AND NOT TF_ARMED\<rparr>) k"
  have "action_live ?k (taction (tmr k t))"
    using assms by (simp add: action_live_def get_pcb_def pcb_at_def upd_tmr_def split: taction.splits)
  then obtain k1 where k1: "run_action (taction (tmr k t)) ?k = Ret k1" "keeps_timers ?k k1"
    using run_action_keeps by blast
  have "tflags (tmr k1 t) AND TF_ARMED = 0"
    using k1(2) by (simp add: keeps_timers_def and.assoc)
  then have "ktimer_destroy t k1 =
      Ret (if expires (tmr k1 t) \<le> tick_count k1 then 0 else expires (tmr k1 t) - tick_count k1, del_timer t k1)"
    by (simp add: ktimer_destroy_def Let_def)
  then show ?thesis
    using k1 by (auto simp: keeps_timers_def del_timer_def same_schedule_def get_pcb_def pcb_at_def upd_tmr_def)
qed

lemma tick_loop_expires:
  assumes "timers k = ts" "distinct ts" "sorted (map (\<lambda>t. expires (tmr k t)) ts)" "timers_live k"
  shows "\<exists>k'. tick_loop ts k = Ret k' \<and> tick_count k' = tick_count k \<and> same_schedule k k' \<and>
    timers k' = filter (\<lambda>t. expires (tmr k t) > tick_count k) ts"
  using assms
proof (induction ts arbitrary: k)
  case Nil
  then show ?case by (simp add: same_schedule_def)
next
  case (Cons t ts)
  show ?case
  proof (cases "expires (tmr k t) > tick_count k")
    case True
    then have "\<forall>u \<in> set ts. expires (tmr k u) > tick_count k" using Cons.prems(3) by auto
    then show ?thesis using True Cons.prems(1) by (simp add: same_schedule_def)
  next
    case False
    obtain k1 k2 n where k2: "run_action (taction (tmr k t)) (upd_tmr t (\<lambda>x. x\<lparr>tflags := tflags x AND NOT TF_ARMED\<rparr>) k) = Ret k1"
      "ktimer_destroy t k1 = Ret (n, k2)" "timers k2 = remove1 t (timers k)" "tick_count k2 = tick_count k"
      "same_schedule k k2"
      using fire_timer [of k t] Cons.prems(1,4) by (auto simp: timers_live_def)
    have e: "expires (tmr k2 u) = expires (tmr k u)" "taction (tmr k2 u) = taction (tmr k u)" for u
      using k2(5) by (auto simp: same_schedule_def)
    have "timers k2 = ts" using k2(3) Cons.prems(1) by simp
    moreover have "timers_live k2"
      using Cons.prems(1,4) \<open>timers k2 = ts\<close> action_live_mono [OF k2(5)] by (simp add: timers_live_def e)
    ultimately obtain k' where "tick_loop ts k2 = Ret k'" "tick_count k' = tick_count k2"
      "same_schedule k2 k'" "timers k' = filter (\<lambda>t. expires (tmr k2 t) > tick_count k2) ts"
      using Cons.IH [of k2] Cons.prems(2,3) by (auto simp: e)
    then show ?thesis
      using False k2 same_schedule_trans [OF k2(5)] by (simp add: Let_def e)
  qed
qed

fun ticks_timers :: "nat \<Rightarrow> kernel \<Rightarrow> kernel outcome" where
  "ticks_timers 0 k = Ret k"
| "ticks_timers (Suc n) k = bind_outcome (ticks_timers n k) tick_timers"

lemma tick_timers_expires:
  assumes "timers_ok k" "timers_live k"
  shows "\<exists>k'. tick_timers k = Ret k' \<and> tick_count k' = tick_count k + 1 \<and> same_schedule k k' \<and>
    timers k' = filter (\<lambda>t. expires (tmr k t) > tick_count k + 1) (timers k)"
proof -
  let ?k = "k\<lparr>tick_count := tick_count k + 1\<rparr>"
  let ?k1 = "if (tick_count k + 1) mod 100 = 0 then ?k\<lparr>system_clock := system_clock k + 1\<rparr> else ?k"
  have s: "same_schedule k ?k1" "timers ?k1 = timers k" "tmr ?k1 = tmr k" "tick_count ?k1 = tick_count k + 1"
    by (simp_all add: same_schedule_def get_pcb_def pcb_at_def)
  have "timers_live ?k1"
    using assms(2) action_live_mono [OF s(1)] unfolding timers_live_def s(2,3) by blast
  then obtain k' where k': "tick_loop (timers ?k1) ?k1 = Ret k'" "tick_count k' = tick_count k + 1"
    "same_schedule ?k1 k'" "timers k' = filter (\<lambda>t. expires (tmr k t) > tick_count k + 1) (timers k)"
    using tick_loop_expires [of ?k1 "timers k"] assms(1) unfolding timers_ok_def s(2,3,4) by auto
  have "tick_timers k = tick_loop (timers ?k1) ?k1"
    by (simp add: tick_timers_def ktimers_tick_def Let_def)
  then show ?thesis using k' same_schedule_trans [OF s(1)] by auto
qed

lemma timers_ok_filter:
  "timers_ok k \<Longrightarrow> same_schedule k k' \<Longrightarrow> timers k' = filter P (timers k) \<Longrightarrow> timers_ok k'"
  by (simp add: timers_ok_def same_schedule_def sorted_filter)

lemma timers_live_filter:
  "timers_live k \<Longrightarrow> same_schedule k k' \<Longrightarrow> timers k' = filter P (timers k) \<Longrightarrow> timers_live k'"
  using action_live_mono [of k k'] by (auto simp: timers_live_def) (metis same_schedule_def)

lemma ticks_timers_expires:
  assumes "timers_ok k" "timers_live k" "unat (tick_count k) + n < 2 ^ 32"
    and "\<forall>t \<in> set (timers k). expires (tmr k t) > tick_count k"
  shows "\<exists>k'. ticks_timers n k = Ret k' \<and> unat (tick_count k') = unat (tick_count k) + n \<and>
    same_schedule k k' \<and>
    timers k' = filter (\<lambda>t. unat (expires (tmr k t)) > unat (tick_count k) + n) (timers k)"
  using assms(3)
proof (induction n)
  case 0
  then show ?case using assms(4) by (auto simp: same_schedule_def word_less_nat_alt intro!: filter_True [symmetric])
next
  case (Suc n)
  then obtain k1 where k1: "ticks_timers n k = Ret k1" "unat (tick_count k1) = unat (tick_count k) + n"
    "same_schedule k k1" "timers k1 = filter (\<lambda>t. unat (expires (tmr k t)) > unat (tick_count k) + n) (timers k)"
    by auto
  obtain k' where k': "tick_timers k1 = Ret k'" "tick_count k' = tick_count k1 + 1" "same_schedule k1 k'"
    "timers k' = filter (\<lambda>t. expires (tmr k1 t) > tick_count k1 + 1) (timers k1)"
    using tick_timers_expires [OF timers_ok_filter timers_live_filter, OF assms(1) k1(3,4) assms(2) k1(3,4)] by blast
  have t: "unat (tick_count k1 + 1) = unat (tick_count k) + Suc n"
    using k1(2) Suc.prems by (simp add: unat_add_no_wrap)
  have e: "expires (tmr k1 u) = expires (tmr k u)" for u using k1(3) by (simp add: same_schedule_def)
  have "timers k' = filter (\<lambda>t. unat (expires (tmr k t)) > unat (tick_count k) + Suc n) (timers k)"
    unfolding k'(4) k1(4) by (auto simp: e word_less_nat_alt t intro!: filter_cong)
  then show ?case using k1 k' t same_schedule_trans [OF k1(3) k'(3)] by simp
qed

section \<open>Properties\<close>

lemma action_live_start: "action_live k a \<Longrightarrow> action_live (ktimer_start t n k) a"
proof -
  have "get_pcb pd (ktimer_start t n k) = get_pcb pd k" "ptimer (ktimer_start t n k) = ptimer k" for pd
    by (simp_all add: get_pcb_def pcb_at_def ktimer_start_def Let_def upd_tmr_def)
  then show "action_live k a \<Longrightarrow> action_live (ktimer_start t n k) a"
    by (auto simp: action_live_def split: taction.splits)
qed


definition kernel_timers :: kernel where
  "kernel_timers = kernel0\<lparr>timers := [T_alarm 2], tick_count := 10, tmr := (\<lambda>_.
     \<lparr>taction = Alrm_action 2, expires = 15, tflags = 6\<rparr>)\<rparr>"

lemma kernel_timers_simps:
  "timers kernel_timers = [T_alarm 2]" "tick_count kernel_timers = 10" "current kernel_timers = 1"
  "tmr kernel_timers t = \<lparr>taction = Alrm_action 2, expires = 15, tflags = 6\<rparr>"
  by (simp_all add: kernel_timers_def)


text \<open>
  A timer whose expiry wraps around fires early.  Its expiry is a small number, which the next
  tick takes for a time in the past: when no other timer is running, it fires at the next tick,
  however many ticks it was started for.
\<close>

theorem ktimer_wrapped_fires_early:
  assumes "timers k = []" "action_live k (taction (tmr k t))"
    and "unat (tick_count k) + unat ticks \<ge> 2 ^ 32" "tick_count k + 1 \<noteq> 0"
  shows "\<exists>k'. tick_timers (ktimer_start t ticks k) = Ret k' \<and> timers k' = []"
proof -
  let ?k = "ktimer_start t ticks k"
  have e: "tick_count ?k = tick_count k" "timers ?k = [t]" "expires (tmr ?k t) = tick_count k + ticks"
    "taction (tmr ?k t) = taction (tmr k t)"
    using assms(1) by (simp_all add: ktimer_start_def Let_def start_pos_def)
  have "timers_ok ?k" "timers_live ?k"
    using assms(2) action_live_start [of k] by (simp_all add: timers_ok_def timers_live_def e)
  moreover have "tick_count k + ticks < tick_count k"
    using assms(3) u32_bound [of ticks] u32_bound [of "tick_count k"]
    by (simp add: word_less_nat_alt unat_word_ariths le_mod_geq less_le_trans [OF le_less_trans [OF mod_less_eq_dividend]])
  moreover have "tick_count k \<le> tick_count k + 1" using assms(4) unatSuc [of "tick_count k"] by (simp add: word_le_nat_alt add.commute)
  ultimately show ?thesis
    using tick_timers_expires [of ?k] by (auto simp: e)
qed

theorem ktimer_wrapped_fires_early_witness:
  "\<exists>k'. tick_timers (ktimer_start (T_sleep 1) 0x1000
       (kernel_timers\<lparr>timers := [], tick_count := 0xFFFFFFF0\<rparr>)) = Ret k' \<and> timers k' = []"
  using ktimer_wrapped_fires_early [of "kernel_timers\<lparr>timers := [], tick_count := 0xFFFFFFF0\<rparr>" "T_sleep 1" "0x1000"]
  by (simp add: kernel_timers_simps action_live_def)

text \<open>
  Cancelling an alarm.  The first \<^verbatim>\<open>alarm(0)\<close> stops the running alarm and returns the ticks that
  were left, but leaves the timer marked as armed: the second one removes it from the list again.
\<close>

theorem alarm_cancelled_twice:
  assumes "tflags (tmr k (T_alarm (current k))) AND TF_ARMED \<noteq> 0" "T_alarm (current k) \<in> set (timers k)"
    and "timers_ok k" "\<not> chain_bad k"
  shows "fst (sys_alarm 0 k) = expires (tmr k (T_alarm (current k))) - tick_count k \<and>
    T_alarm (current k) \<notin> set (timers (snd (sys_alarm 0 k))) \<and> \<not> chain_bad (snd (sys_alarm 0 k)) \<and>
    chain_bad (snd (sys_alarm 0 (snd (sys_alarm 0 k))))"
  using assms by (simp add: sys_alarm_def ktimer_remove_def del_timer_def timers_ok_def Let_def)

theorem alarm_cancelled_twice_witness:
  "fst (sys_alarm 0 (kernel_timers\<lparr>current := 2\<rparr>)) = 5 \<and>
   chain_bad (snd (sys_alarm 0 (snd (sys_alarm 0 (kernel_timers\<lparr>current := 2\<rparr>)))))"
  using alarm_cancelled_twice [of "kernel_timers\<lparr>current := 2\<rparr>"]
  by (simp add: kernel_timers_def timers_ok_def)

text \<open>
  Reading the clocks through a valid pointer.  The monotonic clock converts back to the tick
  counter exactly, with the nanoseconds below a second; the two clocks that are declared but not
  initialised pass the check of the clock number and are called through a null pointer.
\<close>

theorem clock_readings:
  assumes "cur_verify k a 8 VM_WRITE"
  shows "sys_clock_gettime 0 a k = Ret (Inr \<lparr>tv_sec = system_clock k, tv_nsec = 0\<rparr>) \<and>
    (\<exists>ts. sys_clock_gettime 1 a k = Ret (Inr ts) \<and> timespec_to_ticks ts = tick_count k \<and>
       0 \<le> tv_nsec ts \<and> tv_nsec ts < 1000000000) \<and>
    sys_clock_gettime 2 a k = Stuck \<and> sys_clock_gettime 3 a k = Stuck \<and>
    (c < 0 \<or> 4 \<le> c \<longrightarrow> sys_clock_gettime c a k = Ret (Inl EINVAL))"
proof -
  let ?t = "tick_count k"
  have m: "unat (?t mod 100) < 100" by (simp add: unat_mod)
  then have "unat ((?t mod 100) * 10000000) = unat (?t mod 100) * 10000000"
    by (subst unat_mult_no_wrap) simp_all
  from arg_cong [OF this, of int] have n: "uint ((?t mod 100) * 10000000) = uint (?t mod 100) * 10000000"
    by simp
  then have "timespec_to_ticks (posix_monotonic_get k) = ?t div 100 * 100 + of_int (uint (?t mod 100))"
    by (simp add: timespec_to_ticks_def posix_monotonic_get_def)
  also have "\<dots> = ?t" by (simp add: div_mult_mod_eq)
  finally have "timespec_to_ticks (posix_monotonic_get k) = ?t" .
  moreover have "0 \<le> tv_nsec (posix_monotonic_get k)" "tv_nsec (posix_monotonic_get k) < 1000000000"
    using n uint_mod [of ?t 100] by (simp_all add: posix_monotonic_get_def)
  ultimately show ?thesis
    using assms by (auto simp: sys_clock_gettime_def clock_valid_def posix_clocks_def posix_rtc_get_def)
qed

theorem clock_readings_witness:
  "\<exists>ts. sys_clock_gettime 1 0x2000 kernel_timers = Ret (Inr ts) \<and> timespec_to_ticks ts = 10"
proof -
  have "cur_verify kernel_timers 0x2000 8 VM_WRITE"
    by (simp add: cur_verify_def cur_def kernel_timers_simps)
      (simp add: kernel_timers_def pcb_at_def kernel0_def mm0_def vm_verify_def vma_get_def vma_find_def vma_contains_def pcb0_def)
  then show ?thesis using clock_readings [of kernel_timers "0x2000" 0] by (auto simp: kernel_timers_simps)
qed

lemma sys_timer_create_effect:
  assumes cur: "current k < length (proctab k)" and c: "sys_timer_create mem 1 sevp a k = (Inr tid, k1)"
  shows "tid = posix_timer_id (cur k)"
    "ptimers k1 = (ptimers k)(bucket tid := next_ptimer k # ptimers k (bucket tid))"
    "\<And>j. j \<noteq> next_ptimer k \<Longrightarrow> ptimer k1 j = ptimer k j"
    "pt_pid (ptimer k1 (next_ptimer k)) = pid (cur k)" "timerid (ptimer k1 (next_ptimer k)) = tid"
    "pid (cur k1) = pid (cur k)" "timers k1 = timers k"
  using c cur
  by (auto simp: sys_timer_create_def ktimer_init_def upd_tmr_def cur_def pcb_at_upd Let_def split: if_splits option.splits prod.splits)



end
