(* ===== verification/Flexbuf.thy ===== *)
theory Flexbuf
  imports PageArith
begin

text \<open>
  Flexible buffers, \<^verbatim>\<open>src/kernel/flexbuf.c\<close>: a byte queue kept in an array of pages, which backs
  every pipe.  The descriptor has its slots as a list of page pointers, \<open>None\<close> being a slot that was
  never written; the pages live in a store, and \<^verbatim>\<open>kalloc_pages(1)\<close> takes the next unused one.
  Touching a slot beyond the end of the descriptor, or a page through an unset slot, is \<open>Stuck\<close>.
  The theory shows that a buffer of up to two pages, which is all a pipe uses, is a FIFO queue of
  bytes, and that transfers of zero bytes at a page boundary run off the end of the descriptor.
\<close>

section \<open>Definitions\<close>

record flexbuf =
  fsize :: u32
  fpos :: u32
  nr_slots :: u32
  slots :: "nat option list"

record page_store =
  pg :: "nat \<Rightarrow> u8 list"
  next_pg :: nat

definition page_offset :: "u32 \<Rightarrow> u32" where
  "page_offset off = off mod FRAME_SIZE"

definition flexbuf_headroom :: "flexbuf \<Rightarrow> u32" where
  "flexbuf_headroom fb = FRAME_SIZE - page_offset (fpos fb + fsize fb)"

definition off_to_page :: "u32 \<Rightarrow> u32" where
  "off_to_page off = off div FRAME_SIZE"

definition flexbuf_nr_pages :: "flexbuf \<Rightarrow> u32" where
  "flexbuf_nr_pages fb = (if fsize fb \<noteq> 0 then pages_in_range (fpos fb) (fsize fb) else 0)"

text \<open>\<^verbatim>\<open>sizeof(struct flexbuf)\<close> is 12 and a slot takes 4 bytes.\<close>

definition descriptor_size :: "u32 \<Rightarrow> u32" where
  "descriptor_size n = 12 + 4 * n"

text \<open>A descriptor fresh from \<^verbatim>\<open>kmalloc\<close> has as many slots as it was made for, all unset.\<close>

definition new_slots :: "u32 \<Rightarrow> nat option list" where
  "new_slots n = replicate (unat n) None"

text \<open>The loops that fill \<open>k\<close> slots from slot \<open>i\<close> on.\<close>

fun alloc_pages :: "nat \<Rightarrow> nat \<Rightarrow> nat option list \<Rightarrow> page_store \<Rightarrow> nat option list \<times> page_store" where
  "alloc_pages i 0 ss M = (ss, M)"
| "alloc_pages i (Suc k) ss M =
     alloc_pages (Suc i) k (ss[i := Some (next_pg M)]) (M\<lparr>next_pg := Suc (next_pg M)\<rparr>)"

definition flexbuf_alloc :: "u32 \<Rightarrow> page_store \<Rightarrow> flexbuf \<times> page_store" where
  "flexbuf_alloc sz M =
     (let pages = off_to_page sz;
          n = max pages 8;
          (ss, M) = alloc_pages 0 (unat pages) (new_slots n) M
      in (\<lparr>fsize = sz, fpos = 0, nr_slots = n, slots = ss\<rparr>, M))"

text \<open>
  \<^verbatim>\<open>flexbuf_realloc\<close>.  The pages given back by the shrinking loop stay in the store, unreachable.
\<close>

definition flexbuf_realloc :: "flexbuf \<Rightarrow> u32 \<Rightarrow> page_store \<Rightarrow> flexbuf \<times> page_store" where
  "flexbuf_realloc fb sz M =
     (let old_pages = flexbuf_nr_pages fb;
          new_pages = (if sz \<noteq> 0 then pages_in_range (fpos fb) sz else 0);
          fb = (if new_pages > nr_slots fb then
                  \<lparr>fsize = sz, fpos = fpos fb, nr_slots = off_to_page (fpos fb + sz),
                   slots = take (unat old_pages) (slots fb) @
                     drop (unat old_pages) (new_slots new_pages)\<rparr>
                else fb);
          (ss, M) = alloc_pages (unat old_pages) (unat new_pages - unat old_pages) (slots fb) M
      in (fb\<lparr>fsize := sz, slots := ss\<rparr>, M))"

text \<open>
  The loop of \<^verbatim>\<open>flexbuf_do_io\<close> walks the slots from \<^verbatim>\<open>first_page\<close> on; \<open>n\<close> pages are left.  The
  reading loop returns the bytes it copies out, the writing loop the store.
\<close>

fun read_loop :: "nat \<Rightarrow> nat option list \<Rightarrow> u32 \<Rightarrow> u32 \<Rightarrow> u32 \<Rightarrow> u32 \<Rightarrow> page_store \<Rightarrow> u8 list outcome" where
  "read_loop 0 ss start e nr len M = Ret []"
| "read_loop (Suc n) [] start e nr len M = Stuck"
| "read_loop (Suc n) (sl # ss) start e nr len M =
     (let k = e - start; nr = nr + k
      in bind_outcome
           (if k = 0 then Ret []
            else case sl of
                   None \<Rightarrow> Stuck
                 | Some p \<Rightarrow> Ret (take (unat k) (drop (unat start) (pg M p))))
           (\<lambda>bs. bind_outcome (read_loop n ss 0 (min FRAME_SIZE (len - nr)) nr len M)
              (\<lambda>bs'. Ret (bs @ bs'))))"

fun write_loop :: "nat \<Rightarrow> nat option list \<Rightarrow> u32 \<Rightarrow> u32 \<Rightarrow> u32 \<Rightarrow> u32 \<Rightarrow> u8 list \<Rightarrow> page_store \<Rightarrow>
    (u32 \<times> page_store) outcome" where
  "write_loop 0 ss start e nr len ub M = Ret (nr, M)"
| "write_loop (Suc n) [] start e nr len ub M = Stuck"
| "write_loop (Suc n) (sl # ss) start e nr len ub M =
     (let k = e - start
      in bind_outcome
           (if k = 0 then Ret M
            else case sl of
                   None \<Rightarrow> Stuck
                 | Some p \<Rightarrow>
                     Ret (M\<lparr>pg := (pg M)(p := take (unat start) (pg M p) @
                        take (unat k) (drop (unat nr) ub) @ drop (unat e) (pg M p))\<rparr>))
           (\<lambda>M. write_loop n ss 0 (min FRAME_SIZE (len - (nr + k))) (nr + k) len ub M))"

definition io_length :: "flexbuf \<Rightarrow> u32 \<Rightarrow> u32 \<Rightarrow> u32" where
  "io_length fb len off = min len (fsize fb - off)"

definition flexbuf_read :: "flexbuf \<Rightarrow> u32 \<Rightarrow> u32 \<Rightarrow> page_store \<Rightarrow> u8 list outcome" where
  "flexbuf_read fb len off M =
     (let len = io_length fb len off;
          start = page_offset (fpos fb + off);
          first_page = off_to_page (fpos fb + off)
      in read_loop (unat (pages_in_range (fpos fb + off) len)) (drop (unat first_page) (slots fb))
           start (min FRAME_SIZE (start + len)) 0 len M)"

definition flexbuf_do_write ::
    "flexbuf \<Rightarrow> u8 list \<Rightarrow> u32 \<Rightarrow> u32 \<Rightarrow> page_store \<Rightarrow> (u32 \<times> page_store) outcome" where
  "flexbuf_do_write fb src len off M =
     (let len = io_length fb len off;
          start = page_offset (fpos fb + off);
          first_page = off_to_page (fpos fb + off)
      in write_loop (unat (pages_in_range (fpos fb + off) len)) (drop (unat first_page) (slots fb))
           start (min FRAME_SIZE (start + len)) 0 len src M)"

definition flexbuf_write ::
    "flexbuf \<Rightarrow> u8 list \<Rightarrow> u32 \<Rightarrow> u32 \<Rightarrow> page_store \<Rightarrow> (u32 \<times> flexbuf \<times> page_store) outcome" where
  "flexbuf_write fb src len off M =
     (let (fb, M) = (if off + len > fsize fb then flexbuf_realloc fb (off + len) M else (fb, M))
      in bind_outcome (flexbuf_do_write fb src len off M) (\<lambda>(nr, M). Ret (nr, fb, M)))"

definition flexbuf_enqueue ::
    "flexbuf \<Rightarrow> u8 list \<Rightarrow> u32 \<Rightarrow> page_store \<Rightarrow> (u32 \<times> flexbuf \<times> page_store) outcome" where
  "flexbuf_enqueue fb src len M = flexbuf_write fb src len (fsize fb) M"

text \<open>The loop that moves the page pointers down: \<^verbatim>\<open>shift\<close> of them, one by one.\<close>

fun shift_slots :: "nat \<Rightarrow> nat \<Rightarrow> nat \<Rightarrow> nat option list \<Rightarrow> nat option list outcome" where
  "shift_slots i n shift ss =
     (case n of
        0 \<Rightarrow> Ret ss
      | Suc m \<Rightarrow>
          if shift + i < length ss then shift_slots (Suc i) m shift (ss[i := ss ! (shift + i)])
          else Stuck)"

definition flexbuf_dequeue :: "flexbuf \<Rightarrow> u32 \<Rightarrow> page_store \<Rightarrow> (u8 list \<times> flexbuf) outcome" where
  "flexbuf_dequeue fb len M =
     bind_outcome (flexbuf_read fb len 0 M) (\<lambda>bs.
       let nr = of_nat (length bs); shift = unat ((fpos fb + nr) div FRAME_SIZE)
       in bind_outcome (shift_slots 0 shift shift (slots fb)) (\<lambda>ss.
            Ret (bs, fb\<lparr>fsize := fsize fb - nr, fpos := page_offset (fpos fb + nr), slots := ss\<rparr>)))"

declare shift_slots.simps [simp del]

section \<open>The bytes of a buffer\<close>

text \<open>The contents of consecutive pages, end to end.\<close>

definition flat :: "page_store \<Rightarrow> nat list \<Rightarrow> u8 list" where
  "flat M ps = concat (map (pg M) ps)"

definition pages_ok :: "page_store \<Rightarrow> nat list \<Rightarrow> bool" where
  "pages_ok M ps \<longleftrightarrow> distinct ps \<and> (\<forall>p \<in> set ps. length (pg M p) = 4096)"


section \<open>Lemmas\<close>

lemma pages_ok_Cons [simp]:
  "pages_ok M (p # ps) \<longleftrightarrow> p \<notin> set ps \<and> length (pg M p) = 4096 \<and> pages_ok M ps"
  by (auto simp: pages_ok_def)

lemma flat_Cons [simp]: "flat M (p # ps) = pg M p @ flat M ps"
  by (simp add: flat_def)

lemma flat_Nil [simp]: "flat M [] = []"
  by (simp add: flat_def)

lemma length_flat: "pages_ok M ps \<Longrightarrow> length (flat M ps) = 4096 * length ps"
  by (induction ps) auto

text \<open>
  The loop invariant: \<open>R\<close> bytes remain, the current page is copied from \<open>start\<close> on, and exactly
  the pages that hold the remaining bytes are left.
\<close>

lemma read_loop_ok:
  assumes "pages_ok M ps" "length ps = n" "map Some ps = take n ss"
    and "unat start < 4096" "R = unat len - unat nr" "unat nr \<le> unat len"
    and "unat start + R \<le> 4096 * n" "n = 0 \<or> 4096 * (n - 1) < unat start + R"
    and "unat e = min 4096 (unat start + R)" "n = 0 \<longrightarrow> R = 0"
  shows "read_loop n ss start e nr len M = Ret (take R (drop (unat start) (flat M ps)))"
  using assms
proof (induction n arbitrary: ps ss start e nr R)
  case 0
  then show ?case by simp
next
  case (Suc n)
  then obtain p ps' where ps: "ps = p # ps'" by (cases ps) auto
  then obtain ss' where ss: "ss = Some p # ss'" "map Some ps' = take n ss'"
    using Suc.prems(3) by (cases ss) auto
  have p: "p \<notin> set ps'" "length (pg M p) = 4096" "pages_ok M ps'" "length ps' = n"
    using Suc.prems(1,2) by (simp_all add: ps)
  let ?k = "e - start" and ?nr = "nr + (e - start)"
  have k: "unat ?k = min 4096 (unat start + R) - unat start"
    using Suc.prems(4,9) by (subst unat_sub) (auto simp: word_le_nat_alt)
  then have kR: "unat ?k \<le> R" by simp
  have nr: "unat ?nr = unat nr + unat ?k"
    using kR Suc.prems(5,6) u32_bound [of len] by (intro unat_add_no_wrap) simp
  have R': "R - unat ?k = unat len - unat ?nr" "unat ?nr \<le> unat len"
    using nr kR Suc.prems(5,6) by simp_all
  have e': "unat (min 4096 (len - ?nr) :: u32) = min 4096 (R - unat ?k)"
    using R' by (simp add: min_def word_le_nat_alt unat_sub)
  have rest: "R - unat ?k = (if unat start + R \<le> 4096 then 0 else unat start + R - 4096)"
    using k Suc.prems(4) by auto
  have bounds: "R - unat ?k \<le> 4096 * n" "n = 0 \<or> 4096 * (n - 1) < R - unat ?k"
      "n = 0 \<longrightarrow> R - unat ?k = 0"
    using rest Suc.prems(7,8) by (cases n; simp)+
  have "read_loop n ss' 0 (min 4096 (len - ?nr)) ?nr len M
      = Ret (take (R - unat ?k) (drop (unat (0 :: u32)) (flat M ps')))"
    using bounds e' R' by (intro Suc.IH [OF p(3,4) ss(2)]) simp_all
  then have ih: "read_loop n ss' 0 (min 4096 (len - ?nr)) ?nr len M
      = Ret (take (R - unat ?k) (flat M ps'))" by simp
  have "take R (drop (unat start) (flat M ps)) =
      take (unat ?k) (drop (unat start) (pg M p)) @ take (R - unat ?k) (flat M ps')"
    using p(2) Suc.prems(4) k by (auto simp: ps min_def)
  then show ?case
    using ih by (cases "?k = 0") (auto simp: ss(1) Let_def)
qed

lemma flat_update_other:
  "p \<notin> set ps \<Longrightarrow> flat (M\<lparr>pg := (pg M)(p := v)\<rparr>) ps = flat M ps"
  by (induction ps) auto

lemma flat_cong: "(\<And>p. p \<in> set ps \<Longrightarrow> pg M' p = pg M p) \<Longrightarrow> flat M' ps = flat M ps"
  by (induction ps) auto

lemma pages_ok_cong:
  "(\<And>p. p \<in> set ps \<Longrightarrow> length (pg M' p) = length (pg M p)) \<Longrightarrow> pages_ok M' ps = pages_ok M ps"
  by (auto simp: pages_ok_def)

text \<open>The splitting of the source bytes and of the page between one turn of the loop and the rest.\<close>

lemma splice_step:
  assumes "length P = 4096" "a \<le> 4096" "k = min 4096 (a + R) - a" "length ub = L" "nr + R = L"
  shows "(take a P @ take k (drop nr ub) @ drop (a + k) P) @
      (drop (nr + k) ub @ drop (R - k) F) =
    take a (P @ F) @ drop nr ub @ drop (a + R) (P @ F)"
proof (cases "a + R \<le> 4096")
  case True
  then have "k = R" using assms by simp
  then show ?thesis using assms True by simp
next
  case False
  then have k: "k = 4096 - a" "R - k = a + R - 4096" using assms by auto
  have "take k (drop nr ub) @ drop (nr + k) ub = drop nr ub"
    by (metis append_take_drop_id drop_drop add.commute)
  then show ?thesis using assms k False by simp
qed

lemma write_loop_ok:
  assumes "pages_ok M ps" "length ps = n" "map Some ps = take n ss"
    and "unat start < 4096" "unat nr + R = unat len" "length ub = unat len"
    and "unat start + R \<le> 4096 * n" "n = 0 \<or> 4096 * (n - 1) < unat start + R"
    and "unat e = min 4096 (unat start + R)" "n = 0 \<longrightarrow> R = 0"
  shows "\<exists>M'. write_loop n ss start e nr len ub M = Ret (len, M') \<and> pages_ok M' ps \<and>
    flat M' ps = take (unat start) (flat M ps) @ drop (unat nr) ub @ drop (unat start + R) (flat M ps) \<and>
    (\<forall>q. q \<notin> set ps \<longrightarrow> pg M' q = pg M q) \<and> next_pg M' = next_pg M"
  using assms
proof (induction n arbitrary: ps ss start e nr R M)
  case 0
  then show ?case by (auto simp: word_unat_eq_iff)
next
  case (Suc n)
  then obtain p ps' where ps: "ps = p # ps'" by (cases ps) auto
  then obtain ss' where ss: "ss = Some p # ss'" "map Some ps' = take n ss'"
    using Suc.prems(3) by (cases ss) auto
  have p: "p \<notin> set ps'" "length (pg M p) = 4096" "pages_ok M ps'" "length ps' = n"
    using Suc.prems(1,2) by (simp_all add: ps)
  let ?k = "e - start" and ?nr = "nr + (e - start)"
  define P where "P = take (unat start) (pg M p) @ take (unat ?k) (drop (unat nr) ub) @
    drop (unat start + unat ?k) (pg M p)"
  define M1 where "M1 = M\<lparr>pg := (pg M)(p := P)\<rparr>"
  have k: "unat ?k = min 4096 (unat start + R) - unat start"
    using Suc.prems(4,9) by (subst unat_sub) (auto simp: word_le_nat_alt)
  have ek: "unat e = unat start + unat ?k" using Suc.prems(4,9) k by simp
  have kR: "unat ?k \<le> R" using k by simp
  have nr: "unat ?nr = unat nr + unat ?k"
    using kR Suc.prems(5) u32_bound [of len] by (intro unat_add_no_wrap) simp
  have R': "unat ?nr + (R - unat ?k) = unat len" using nr kR Suc.prems(5) by simp
  then have "len - ?nr = len - ?nr \<and> unat (len - ?nr) = R - unat ?k"
    by (subst unat_sub) (auto simp: word_le_nat_alt)
  then have e': "unat (min 4096 (len - ?nr) :: u32) = min (unat (4096 :: u32)) (R - unat ?k)"
    by (simp add: min_def word_le_nat_alt)
  have rest: "R - unat ?k = (if unat start + R \<le> 4096 then 0 else unat start + R - 4096)"
    using k Suc.prems(4) by auto
  have bounds: "R - unat ?k \<le> 4096 * n" "n = 0 \<or> 4096 * (n - 1) < R - unat ?k"
      "n = 0 \<longrightarrow> R - unat ?k = 0"
    using rest Suc.prems(7,8) by (cases n; simp)+
  have lP: "length P = 4096" using p(2) Suc.prems(4,5,6) k kR by (simp add: P_def)
  have ok1: "pages_ok M1 ps'" using p(1,3) by (auto simp: M1_def pages_ok_def)
  have fl1: "flat M1 ps' = flat M ps'" using p(1) by (simp add: M1_def flat_update_other)
  obtain M' where M': "write_loop n ss' 0 (min 4096 (len - ?nr)) ?nr len ub M1 = Ret (len, M')"
      "pages_ok M' ps'"
      "flat M' ps' = take (unat (0 :: u32)) (flat M1 ps') @ drop (unat ?nr) ub @
         drop (unat (0 :: u32) + (R - unat ?k)) (flat M1 ps')"
      "\<forall>q. q \<notin> set ps' \<longrightarrow> pg M' q = pg M1 q" "next_pg M' = next_pg M1"
    using Suc.IH [OF ok1 p(4) ss(2) _ R' Suc.prems(6), of 0 "min 4096 (len - ?nr)"] bounds e' by auto
  have pM': "pg M' p = P" using M'(4) p(1) by (simp add: M1_def)
  have "flat M' ps = P @ (drop (unat nr + unat ?k) ub @ drop (R - unat ?k) (flat M ps'))"
    using M'(3) by (simp add: ps pM' fl1 nr)
  also have "\<dots> = take (unat start) (flat M ps) @ drop (unat nr) ub @ drop (unat start + R) (flat M ps)"
    unfolding P_def ps flat_Cons
    using p(2) Suc.prems(4,5,6) k by (intro splice_step) simp_all
  finally have fl: "flat M' ps =
    take (unat start) (flat M ps) @ drop (unat nr) ub @ drop (unat start + R) (flat M ps)" .
  have "write_loop (Suc n) ss start e nr len ub M = Ret (len, M')"
  proof (cases "?k = 0")
    case True
    then have "P = pg M p" by (simp add: P_def)
    then have "M1 = M" by (simp add: M1_def)
    then show ?thesis using M'(1) True by (simp add: ss(1) Let_def)
  next
    case False
    then show ?thesis using M'(1) by (simp add: ss(1) Let_def M1_def P_def ek)
  qed
  moreover have "\<forall>q. q \<notin> set ps \<longrightarrow> pg M' q = pg M q" using M'(4) by (simp add: ps M1_def)
  ultimately show ?case
    using fl M'(2,5) p(1) lP by (auto simp: ps pM' M1_def)
qed

section \<open>The buffer as a queue\<close>

definition npages :: "flexbuf \<Rightarrow> nat" where
  "npages fb = (if fsize fb = 0 then 0 else (unat (fpos fb) + unat (fsize fb) - 1) div 4096 + 1)"

definition fb_pages :: "flexbuf \<Rightarrow> nat list" where
  "fb_pages fb = map the (take (npages fb) (slots fb))"

text \<open>The bytes in the buffer, first in first.\<close>

definition bytes :: "flexbuf \<Rightarrow> page_store \<Rightarrow> u8 list" where
  "bytes fb M = take (unat (fsize fb)) (drop (unat (fpos fb)) (flat M (fb_pages fb)))"

definition fb_ok :: "flexbuf \<Rightarrow> page_store \<Rightarrow> bool" where
  "fb_ok fb M \<longleftrightarrow>
     unat (fpos fb) < 4096 \<and> unat (fpos fb) + unat (fsize fb) < 8192 \<and>
     nr_slots fb = 8 \<and> length (slots fb) = 8 \<and>
     map Some (fb_pages fb) = take (npages fb) (slots fb) \<and>
     pages_ok M (fb_pages fb) \<and> (\<forall>p \<in> set (fb_pages fb). p < next_pg M) \<and>
     (\<forall>p \<ge> next_pg M. length (pg M p) = 4096)"

lemma npages_le: "unat (fpos fb) + unat (fsize fb) < 8192 \<Longrightarrow> npages fb \<le> 2"
  by (simp add: npages_def) linarith

lemma fb_okD:
  assumes "fb_ok fb M"
  shows "unat (fpos fb) < 4096" "unat (fpos fb) + unat (fsize fb) < 8192" "length (slots fb) = 8"
    "map Some (fb_pages fb) = take (npages fb) (slots fb)" "pages_ok M (fb_pages fb)"
    "length (fb_pages fb) = npages fb" "npages fb \<le> 2"
proof -
  show "npages fb \<le> 2" using assms npages_le [of fb] by (simp add: fb_ok_def)
  then show "length (fb_pages fb) = npages fb" using assms by (simp add: fb_ok_def fb_pages_def)
qed (use assms in \<open>simp_all add: fb_ok_def\<close>)

lemma flexbuf_nr_pages_npages:
  assumes "unat (fpos fb) < 4096" "unat (fpos fb) + unat (fsize fb) < 8192"
  shows "unat (flexbuf_nr_pages fb) = npages fb"
  using assms unat_pages_in_range [of "fsize fb" "fpos fb"]
  by (auto simp: flexbuf_nr_pages_def npages_def unat_gt_0)

lemma npages_cover: "fsize fb \<noteq> 0 \<Longrightarrow> unat (fpos fb) + unat (fsize fb) \<le> 4096 * npages fb"
  by (simp add: npages_def)

lemma flat_append: "flat M (xs @ ys) = flat M xs @ flat M ys"
  by (simp add: flat_def)

lemma pages_ok_take: "pages_ok M ps \<Longrightarrow> pages_ok M (take n ps)"
  by (auto simp: pages_ok_def dest: in_set_takeD)

lemma pages_ok_drop: "pages_ok M ps \<Longrightarrow> pages_ok M (drop n ps)"
  by (auto simp: pages_ok_def dest: in_set_dropD)

lemma flat_take:
  assumes "pages_ok M ps" "n \<le> length ps"
  shows "flat M (take n ps) = take (4096 * n) (flat M ps)"
    and "flat M (drop n ps) = drop (4096 * n) (flat M ps)"
proof -
  have "flat M ps = flat M (take n ps) @ flat M (drop n ps)"
    by (simp flip: flat_append)
  moreover have "length (flat M (take n ps)) = 4096 * n"
    using assms length_flat [OF pages_ok_take [OF assms(1)]] by simp
  ultimately show "flat M (take n ps) = take (4096 * n) (flat M ps)"
      "flat M (drop n ps) = drop (4096 * n) (flat M ps)"
    by simp_all
qed

lemma length_bytes: "fb_ok fb M \<Longrightarrow> length (bytes fb M) = unat (fsize fb)"
  using length_flat [of M "fb_pages fb"] fb_okD [of fb M] npages_cover [of fb]
  by (cases "fsize fb = 0") (auto simp: bytes_def min_def)

lemma page_count: "0 < L \<Longrightarrow> (a + L - 1) div 4096 = a div 4096 + (a mod 4096 + L - 1) div (4096 :: nat)"
proof -
  assume "0 < L"
  then have "a + L - 1 = a div 4096 * 4096 + (a mod 4096 + L - 1)" by simp
  then show ?thesis by (metis div_mult_self3 zero_neq_numeral)
qed

lemma flexbuf_read_front:
  assumes ok: "fb_ok fb M" and L: "0 < unat len" "0 < unat (fsize fb)"
  shows "flexbuf_read fb len 0 M = Ret (take (unat len) (bytes fb M))"
proof -
  define L where "L = io_length fb len 0"
  have uL: "unat L = min (unat len) (unat (fsize fb))"
    by (simp add: L_def io_length_def min_def word_le_nat_alt)
  note d = fb_okD [OF ok]
  define n where "n = (unat (fpos fb) + unat L - 1) div 4096 + 1"
  have n1: "unat (pages_in_range (fpos fb) L) = n"
    using d(1) uL L unat_pages_in_range [of L "fpos fb"] d(2) by (simp add: n_def)
  have nle: "n \<le> npages fb"
    using L(2) uL by (auto simp: n_def npages_def intro!: div_le_mono)
  have po: "page_offset (fpos fb) = fpos fb" "off_to_page (fpos fb) = 0"
    using d(1) by (simp_all add: page_offset_def off_to_page_def word_unat_eq_iff unat_mod unat_div)
  have e: "unat (min 4096 (fpos fb + L) :: u32) = min 4096 (unat (fpos fb) + unat L)"
    using d(1,2) uL by (simp add: min_def word_le_nat_alt unat_add_no_wrap)
  have ps: "pages_ok M (take n (fb_pages fb))" "length (take n (fb_pages fb)) = n"
      "map Some (take n (fb_pages fb)) = take n (slots fb)"
    using d(4,5,6) nle by (auto simp: pages_ok_def take_map [symmetric] min_def dest: in_set_takeD)
  have b: "unat (fpos fb) + unat L \<le> 4096 * n" "4096 * (n - 1) < unat (fpos fb) + unat L" "0 < n"
    using uL L by (auto simp: n_def)
  have "read_loop n (slots fb) (fpos fb) (min 4096 (fpos fb + L)) 0 L M =
      Ret (take (unat L) (drop (unat (fpos fb)) (flat M (take n (fb_pages fb)))))"
    using b d(1) e by (intro read_loop_ok [OF ps]) simp_all
  also have "take (unat L) (drop (unat (fpos fb)) (flat M (take n (fb_pages fb)))) =
      take (unat L) (drop (unat (fpos fb)) (flat M (fb_pages fb)))"
  proof -
    have "unat L \<le> 4096 * n - unat (fpos fb)" using b(1) by simp
    then show ?thesis using nle d(5,6) by (simp add: flat_take(1) drop_take min_absorb1)
  qed
  also have "\<dots> = take (unat len) (bytes fb M)" by (simp add: bytes_def uL)
  finally show ?thesis
    by (simp add: flexbuf_read_def Let_def L_def [symmetric] po n1)
qed

lemma alloc_pages_eq:
  "i + k \<le> length ss \<Longrightarrow>
     alloc_pages i k ss M =
       (take i ss @ map Some [next_pg M ..< next_pg M + k] @ drop (i + k) ss,
        M\<lparr>next_pg := next_pg M + k\<rparr>)"
proof (induction k arbitrary: i ss M)
  case (Suc k)
  have "take (Suc i) (ss[i := Some (next_pg M)]) = take i ss @ [Some (next_pg M)]"
    using Suc.prems by (simp add: take_Suc_conv_app_nth)
  moreover have "[next_pg M ..< next_pg M + Suc k] = next_pg M # [Suc (next_pg M) ..< Suc (next_pg M) + k]"
    using upt_conv_Cons by auto
  ultimately show ?case using Suc by simp
qed simp

text \<open>The descriptor and the store after \<^verbatim>\<open>flexbuf_realloc\<close> has grown the buffer by \<open>len\<close> bytes.\<close>

lemma flexbuf_realloc_grow:
  assumes ok: "fb_ok fb M" and len: "0 < unat len"
    and fit: "unat (fpos fb) + unat (fsize fb) + unat len < 8192"
    and r: "flexbuf_realloc fb (fsize fb + len) M = (fb', M')"
  shows "fb_ok fb' M'" "fsize fb' = fsize fb + len" "fpos fb' = fpos fb" "pg M' = pg M"
    "\<exists>ns. fb_pages fb' = fb_pages fb @ ns" "next_pg M \<le> next_pg M'"
proof -
  note d = fb_okD [OF ok]
  let ?sz = "fsize fb + len"
  have sz: "unat ?sz = unat (fsize fb) + unat len" using fit by (intro unat_add_no_wrap) simp
  then have nz: "?sz \<noteq> 0" using len by (metis add_is_0 less_numeral_extra(3) unat_eq_zero)
  define N where "N = (unat (fpos fb) + unat ?sz - 1) div 4096 + 1"
  have new: "unat (pages_in_range (fpos fb) ?sz) = N"
    using unat_pages_in_range [of ?sz "fpos fb"] sz len fit d(1) by (simp add: N_def)
  have N2: "N \<le> 2" using fit sz by (simp add: N_def)
  have ge: "npages fb \<le> N" using sz by (auto simp: npages_def N_def intro!: div_le_mono)
  have nos: "\<not> pages_in_range (fpos fb) ?sz > nr_slots fb"
    using new N2 ok by (simp add: fb_ok_def word_less_nat_alt)
  define ns where "ns = [next_pg M ..< next_pg M + (N - npages fb)]"
  have al: "alloc_pages (npages fb) (N - npages fb) (slots fb) M =
      (take (npages fb) (slots fb) @ map Some ns @ drop N (slots fb),
       M\<lparr>next_pg := next_pg M + (N - npages fb)\<rparr>)"
    using alloc_pages_eq [of "npages fb" "N - npages fb" "slots fb" M] d(3) N2 ge by (simp add: ns_def)
  have res: "fb' = fb\<lparr>fsize := ?sz, slots := take (npages fb) (slots fb) @ map Some ns @ drop N (slots fb)\<rparr>"
      "M' = M\<lparr>next_pg := next_pg M + (N - npages fb)\<rparr>"
    using r nz nos new al flexbuf_nr_pages_npages [OF d(1,2)] by (auto simp: flexbuf_realloc_def Let_def)
  have np: "npages fb' = N" using nz by (simp add: npages_def N_def res)
  have sl: "slots fb' = take (npages fb) (slots fb) @ map Some ns @ drop N (slots fb)"
      "length ns = N - npages fb" by (simp_all add: res ns_def)
  then have tk: "take N (slots fb') = take (npages fb) (slots fb) @ map Some ns"
    using d(3,7) ge by simp
  have pg: "fb_pages fb' = fb_pages fb @ ns" unfolding fb_pages_def np tk by (simp add: o_def)
  then show "\<exists>ns. fb_pages fb' = fb_pages fb @ ns" by blast
  have "length (slots fb') = 8" using sl d(3,7) ge N2 by simp
  moreover have "map Some (fb_pages fb') = take (npages fb') (slots fb')"
    unfolding pg np tk using d(4) by simp
  moreover have "pages_ok M' (fb_pages fb')" "\<forall>p \<in> set (fb_pages fb'). p < next_pg M'"
      "\<forall>p \<ge> next_pg M'. length (pg M' p) = 4096"
    using ok unfolding pg by (auto simp: res(2) fb_ok_def pages_ok_def ns_def)
  moreover have "unat (fpos fb') < 4096" "unat (fpos fb') + unat (fsize fb') < 8192" "nr_slots fb' = 8"
    using ok fit sz by (simp_all add: res(1) fb_ok_def)
  ultimately show "fb_ok fb' M'" unfolding fb_ok_def by blast
  show "fsize fb' = ?sz" "fpos fb' = fpos fb" "pg M' = pg M" "next_pg M \<le> next_pg M'"
    by (simp_all add: res)
qed

text \<open>Writing the last \<open>len\<close> bytes of a buffer.\<close>

lemma write_flat:
  assumes ps: "pages_ok M ps" "f \<le> length ps"
    and old: "\<forall>q. q \<notin> set (drop f ps) \<longrightarrow> pg M' q = pg M q"
    and new: "flat M' (drop f ps) = take r (flat M (drop f ps)) @ src @ rest"
  shows "flat M' ps = take (4096 * f + r) (flat M ps) @ src @ rest"
proof -
  have disj: "set (take f ps) \<inter> set (drop f ps) = {}"
    using ps(1) by (metis append_take_drop_id distinct_append pages_ok_def)
  have "flat M' ps = flat M' (take f ps) @ flat M' (drop f ps)" by (simp flip: flat_append)
  also have "flat M' (take f ps) = flat M (take f ps)"
    using old disj by (intro flat_cong) auto
  finally show ?thesis using new flat_take [OF ps] by (simp add: take_add)
qed

lemma flexbuf_do_write_ok:
  assumes ok: "fb_ok fb M" and sz: "unat off + unat len = unat (fsize fb)" and len: "0 < unat len"
    and src: "length src = unat len"
  shows "\<exists>M'. flexbuf_do_write fb src len off M = Ret (len, M') \<and> fb_ok fb M' \<and>
    bytes fb M' = take (unat off) (bytes fb M) @ src"
proof -
  note d = fb_okD [OF ok]
  define a where "a = unat (fpos fb) + unat off"
  define f where "f = a div 4096"
  define r where "r = a mod 4096"
  define n where "n = (r + unat len - 1) div 4096 + 1"
  have ua: "unat (fpos fb + off) = a" using d(2) sz unfolding a_def by (intro unat_add_no_wrap) simp
  have "fsize fb - off = len" using sz by (metis add_diff_cancel_left' unat_plus_simple
      word_unat_eq_iff unat_sub le_add1 word_le_nat_alt)
  then have io: "io_length fb len off = len" by (simp add: io_length_def)
  have n': "unat (pages_in_range (fpos fb + off) len) = n"
    using unat_pages_in_range [of len "fpos fb + off"] len d(2) sz ua by (simp add: n_def r_def)
  have po: "unat (page_offset (fpos fb + off)) = r" "unat (off_to_page (fpos fb + off)) = f"
    using ua by (simp_all add: page_offset_def off_to_page_def r_def f_def unat_mod unat_div)
  have np: "npages fb = f + n"
    using len sz page_count [of "unat len" a]
    by (auto simp: npages_def n_def f_def r_def a_def add.assoc)
  have e: "unat (min 4096 (page_offset (fpos fb + off) + len) :: u32) = min 4096 (r + unat len)"
    using po(1) d(2) sz by (simp add: min_def word_le_nat_alt unat_add_no_wrap r_def)
  let ?ps = "drop f (fb_pages fb)"
  have ps: "pages_ok M ?ps" "length ?ps = n" "map Some ?ps = take n (drop f (slots fb))"
    using d(4,5,6) np by (simp_all add: pages_ok_drop drop_map [symmetric] drop_take)
  have b: "r + unat len \<le> 4096 * n" "4096 * (n - 1) < r + unat len" "0 < n" "r < 4096"
    using len by (auto simp: n_def r_def)
  obtain M' where w: "write_loop n (drop f (slots fb)) (page_offset (fpos fb + off))
      (min 4096 (page_offset (fpos fb + off) + len)) 0 len src M = Ret (len, M')"
      "pages_ok M' ?ps" "flat M' ?ps = take r (flat M ?ps) @ drop 0 src @ drop (r + unat len) (flat M ?ps)"
      "\<forall>q. q \<notin> set ?ps \<longrightarrow> pg M' q = pg M q" "next_pg M' = next_pg M"
    using write_loop_ok [OF ps, of "page_offset (fpos fb + off)" 0 "unat len" len src] b e po src
    by auto
  have fl: "flat M' (fb_pages fb) =
      take (4096 * f + r) (flat M (fb_pages fb)) @ src @ drop (r + unat len) (flat M ?ps)"
    using w(3) d(5,6) np by (intro write_flat [OF d(5) _ w(4)]) simp_all
  have ar: "4096 * f + r = a" by (simp add: f_def r_def)
  have len_flat: "a \<le> length (flat M (fb_pages fb))"
    using length_flat [OF d(5)] d(6) np b(1) ar by (simp add: algebra_simps)
  have "pages_ok M' (fb_pages fb)"
    unfolding pages_ok_def
  proof (intro conjI ballI)
    show "distinct (fb_pages fb)" using d(5) by (simp add: pages_ok_def)
    show "length (pg M' p) = 4096" if "p \<in> set (fb_pages fb)" for p
      using that w(2,4) d(5) by (cases "p \<in> set ?ps") (auto simp: pages_ok_def)
  qed
  moreover have "\<forall>p \<ge> next_pg M'. length (pg M' p) = 4096"
    using ok w(4,5) unfolding fb_ok_def by (metis in_set_dropD leD)
  ultimately have "fb_ok fb M'" using ok w(5) unfolding fb_ok_def by simp
  moreover have "bytes fb M' = take (unat off) (bytes fb M) @ src"
  proof -
    have "bytes fb M' = take (unat (fsize fb)) (drop (unat (fpos fb)) (take a (flat M (fb_pages fb)) @ src @
        drop (r + unat len) (flat M ?ps)))"
      by (simp add: bytes_def fl ar)
    also have "\<dots> = drop (unat (fpos fb)) (take a (flat M (fb_pages fb))) @ src"
      using len_flat sz src by (simp add: a_def)
    also have "drop (unat (fpos fb)) (take a (flat M (fb_pages fb))) = take (unat off) (bytes fb M)"
      using sz by (simp add: bytes_def drop_take a_def)
    finally show ?thesis .
  qed
  moreover have "flexbuf_do_write fb src len off M = Ret (len, M')"
    using w(1) by (simp add: flexbuf_do_write_def Let_def io n' po)
  ultimately show ?thesis by blast
qed

lemma flexbuf_enqueue_ok:
  assumes ok: "fb_ok fb M" and len: "0 < unat len" and src: "length src = unat len"
    and fit: "unat (fpos fb) + unat (fsize fb) + unat len < 8192"
  shows "\<exists>fb' M'. flexbuf_enqueue fb src len M = Ret (len, fb', M') \<and> fb_ok fb' M' \<and>
    bytes fb' M' = bytes fb M @ src"
proof -
  have sz: "unat (fsize fb + len) = unat (fsize fb) + unat len"
    using fit by (intro unat_add_no_wrap) simp
  then have gt: "fsize fb + len > fsize fb" using len by (simp add: word_less_nat_alt)
  obtain fb' M1 where r: "flexbuf_realloc fb (fsize fb + len) M = (fb', M1)" by fastforce
  note g = flexbuf_realloc_grow [OF ok len fit r]
  obtain M' where w: "flexbuf_do_write fb' src len (fsize fb) M1 = Ret (len, M')" "fb_ok fb' M'"
      "bytes fb' M' = take (unat (fsize fb)) (bytes fb' M1) @ src"
    using flexbuf_do_write_ok [OF g(1) _ len src, of "fsize fb"] g(2) sz by auto
  obtain ns where ns: "fb_pages fb' = fb_pages fb @ ns" using g(5) by blast
  have "flat M1 (fb_pages fb') = flat M (fb_pages fb) @ flat M ns"
    unfolding ns flat_append using g(4) by (simp add: flat_def)
  then have "take (unat (fsize fb)) (bytes fb' M1) =
      take (unat (fsize fb)) (drop (unat (fpos fb)) (flat M (fb_pages fb) @ flat M ns))"
    by (simp add: bytes_def g(2,3) sz min_def del: take_append drop_append)
  also have "\<dots> = bytes fb M"
    using length_bytes [OF ok] by (cases "fsize fb = 0") (auto simp: bytes_def min_def split: if_splits)
  finally show ?thesis
    using w gt r by (auto simp: flexbuf_enqueue_def flexbuf_write_def)
qed

text \<open>
  Removing bytes from the front.  At most one page is passed, and the page pointer after it moves
  into the first slot.
\<close>

lemma shift_slots_small:
  "shift_slots 0 0 0 ss = Ret ss"
  "1 < length ss \<Longrightarrow> shift_slots 0 (Suc 0) (Suc 0) ss = Ret (ss[0 := ss ! 1])"
  by (simp_all add: shift_slots.simps)

lemma npages_drop:
  assumes "fsize fb \<noteq> 0" "k \<le> unat (fsize fb)" "unat (fpos fb) + k = 4096 * s + p" "p < 4096"
    "unat (fsize fb') = unat (fsize fb) - k" "unat (fpos fb') = p" "k < unat (fsize fb)"
  shows "npages fb' + s = npages fb"
proof -
  have "unat (fpos fb) + unat (fsize fb) - 1 = p + unat (fsize fb') - 1 + s * 4096"
    using assms by simp
  then show ?thesis using assms by (auto simp: npages_def)
qed

lemma take_shifted:
  assumes "length ss = 8" "n + s \<le> 2" "s \<le> 1"
  shows "take n (if s = 0 then ss else ss[0 := ss ! 1]) = drop s (take (n + s) ss)"
proof -
  obtain a b cs where "ss = a # b # cs"
    using assms(1) by (auto simp: numeral_eq_Suc length_Suc_conv)
  moreover have "s = 0 \<or> s = 1 \<and> n = 0 \<or> s = 1 \<and> n = 1" using assms by auto
  ultimately show ?thesis by auto
qed

lemma flexbuf_dequeue_ok:
  assumes ok: "fb_ok fb M" and len: "0 < unat len" and sz: "0 < unat (fsize fb)"
  shows "\<exists>fb'. flexbuf_dequeue fb len M = Ret (take (unat len) (bytes fb M), fb') \<and> fb_ok fb' M \<and>
    bytes fb' M = drop (unat len) (bytes fb M)"
proof -
  note d = fb_okD [OF ok]
  define k where "k = min (unat len) (unat (fsize fb))"
  define s where "s = (unat (fpos fb) + k) div 4096"
  define p where "p = (unat (fpos fb) + k) mod 4096"
  have s: "s \<le> 1" using d(2) unfolding s_def k_def by linarith
  have kb: "unat (fpos fb) + k < 8192" using d(2) by (simp add: k_def)
  then have nr: "unat (of_nat k :: u32) = k" by (simp add: unat_of_nat)
  have pk: "unat (fpos fb + of_nat k) = unat (fpos fb) + k"
    using kb nr by (simp add: unat_add_no_wrap)
  define ss where "ss = (if s = 0 then slots fb else (slots fb)[0 := slots fb ! 1])"
  define fb' where "fb' = fb\<lparr>fsize := fsize fb - of_nat k, fpos := page_offset (fpos fb + of_nat k), slots := ss\<rparr>"
  have sel: "unat (fsize fb') = unat (fsize fb) - k" "unat (fpos fb') = p" "slots fb' = ss"
      "nr_slots fb' = nr_slots fb"
    using nr pk by (simp_all add: fb'_def page_offset_def unat_mod p_def unat_sub word_le_nat_alt)
      (simp add: k_def unat_sub word_le_nat_alt)
  have "shift_slots 0 s s (slots fb) = Ret ss"
    using s d(3) shift_slots_small [of "slots fb"] by (cases "s = 0") (auto simp: ss_def le_Suc_eq)
  moreover have "length (take (unat len) (bytes fb M)) = k"
    using length_bytes [OF ok] by (simp add: k_def min.commute)
  ultimately have eq: "flexbuf_dequeue fb len M = Ret (take (unat len) (bytes fb M), fb')"
    using flexbuf_read_front [OF ok len sz] pk
    by (simp add: flexbuf_dequeue_def Let_def fb'_def unat_div s_def)
  have pages: "map Some (drop (if k = unat (fsize fb) then npages fb else s) (fb_pages fb)) =
      take (npages fb') (slots fb') \<and>
      fb_pages fb' = drop (if k = unat (fsize fb) then npages fb else s) (fb_pages fb)"
  proof (cases "k = unat (fsize fb)")
    case True
    then have "npages fb' = 0" using sel(1) by (simp add: npages_def word_unat_eq_iff)
    then show ?thesis using d(6) True by (simp add: fb_pages_def)
  next
    case False
    then have n: "npages fb' + s = npages fb"
      using sel sz by (intro npages_drop [of fb k s p]) (auto simp: k_def s_def p_def)
    have t: "take (npages fb') (slots fb') = drop s (take (npages fb) (slots fb))"
      unfolding sel(3) ss_def n [symmetric] using d(3,7) s n by (intro take_shifted) simp_all
    moreover have "map Some (drop s (fb_pages fb)) = drop s (take (npages fb) (slots fb))"
      using d(4) by (simp flip: drop_map)
    ultimately show ?thesis
      unfolding fb_pages_def [of fb'] using False by (simp add: drop_map fb_pages_def [of fb])
  qed
  have le: "p + (unat (fsize fb) - k) < 8192" using d(2) by (auto simp: p_def k_def min_def)
  have ok': "fb_ok fb' M"
    using ok pages le sel s d(3)
    by (auto simp: fb_ok_def ss_def pages_ok_drop p_def dest: in_set_dropD)
  have "bytes fb' M = drop (unat len) (bytes fb M)"
  proof (cases "k = unat (fsize fb)")
    case True
    then show ?thesis using sel(1) length_bytes [OF ok] by (simp add: bytes_def [of fb'] k_def)
  next
    case False
    then have "unat len = k" by (simp add: k_def min_def split: if_splits)
    moreover have "npages fb' + s = npages fb"
      using False sel sz by (intro npages_drop [of fb k s p]) (auto simp: k_def s_def p_def)
    moreover from this have "s \<le> npages fb" by simp
    moreover have "4096 * s + p = unat (fpos fb) + k" by (simp add: s_def p_def)
    ultimately show ?thesis
      using pages False flat_take(2) [OF d(5)] d(6)
      by (simp add: bytes_def sel drop_take add.commute)
  qed
  then show ?thesis using eq ok' by blast
qed

text \<open>A transfer of no bytes visits one slot, or, at a page boundary, two to the power of twenty.\<close>

lemma pages_in_range_0:
  "unat (pages_in_range a 0) = (if unat a mod 4096 = 0 then 1048576 else 1)"
proof -
  have off: "unat (a AND 0xFFF) = unat a mod 4096"
    using unat_and_low_mask [of a 12] by simp
  show ?thesis
  proof (cases "unat a mod 4096 = 0")
    case True
    then have "a AND 0xFFF = 0" using off by (simp add: word_unat_eq_iff)
    then show ?thesis using True by (simp add: pages_in_range_def)
  next
    case False
    then have "unat ((a AND 0xFFF) + (0 - 1)) = unat a mod 4096 - 1"
      using off by (simp add: unat_sub word_le_nat_alt)
    then have "((a AND 0xFFF) + (0 - 1)) div 4096 = 0"
      by (simp add: word_unat_eq_iff unat_div less_imp_diff_less)
    then show ?thesis using False by (simp add: pages_in_range_def)
  qed
qed

lemma read_loop_zero:
  "read_loop n ss 0 0 0 0 M = (if n \<le> length ss then Ret [] else Stuck)"
proof (induction n arbitrary: ss)
  case (Suc n)
  then show ?case by (cases ss) (simp_all add: Let_def)
qed simp

lemma flexbuf_dequeue_empty:
  assumes "fb_ok fb M" "fsize fb = 0"
  shows "flexbuf_dequeue fb len M = (if fpos fb = 0 then Stuck else Ret ([], fb))"
proof -
  note d = fb_okD [OF assms(1)]
  have po: "page_offset (fpos fb) = fpos fb" "off_to_page (fpos fb) = 0"
    using d(1) by (simp_all add: page_offset_def off_to_page_def word_unat_eq_iff unat_mod unat_div)
  have io: "io_length fb len 0 = 0" using assms(2) by (simp add: io_length_def)
  show ?thesis
  proof (cases "fpos fb = 0")
    case True
    then show ?thesis
      using d(3) po io read_loop_zero [of 1048576 "slots fb" M] pages_in_range_0 [of 0]
      by (simp add: flexbuf_dequeue_def flexbuf_read_def Let_def)
  next
    case False
    then have "unat (pages_in_range (fpos fb) 0) = 1"
      using d(1) pages_in_range_0 [of "fpos fb"] by (simp add: word_unat_eq_iff)
    moreover have "min 4096 (fpos fb) = fpos fb" using d(1) by (simp add: min_def word_le_nat_alt)
    moreover obtain a ss where "slots fb = a # ss" using d(3) by (cases "slots fb") auto
    ultimately have "flexbuf_read fb len 0 M = Ret []"
      using po io by (simp add: flexbuf_read_def Let_def)
    moreover have "fpos fb div 4096 = 0" using po(2) by (simp add: off_to_page_def)
    ultimately show ?thesis
      using False po by (simp add: flexbuf_dequeue_def Let_def shift_slots_small)
  qed
qed

section \<open>Byte queues\<close>

text \<open>What a user of a byte queue may do to it, and a run of such operations.\<close>

datatype queue_op = Enq "u8 list" | Deq nat

fun run_ops :: "('q \<Rightarrow> u8 list \<Rightarrow> 'q outcome) \<Rightarrow> ('q \<Rightarrow> nat \<Rightarrow> (u8 list \<times> 'q) outcome) \<Rightarrow>
    queue_op list \<Rightarrow> 'q \<Rightarrow> (u8 list \<times> 'q) outcome" where
  "run_ops enq deq [] q = Ret ([], q)"
| "run_ops enq deq (Enq bs # ops) q = bind_outcome (enq q bs) (run_ops enq deq ops)"
| "run_ops enq deq (Deq n # ops) q =
     bind_outcome (deq q n) (\<lambda>(bs, q). bind_outcome (run_ops enq deq ops q) (\<lambda>(bs', q). Ret (bs @ bs', q)))"

text \<open>
  The operations that move at least one byte and stay within the capacity \<open>c\<close>, when \<open>n\<close> bytes are
  queued.
\<close>

fun ops_fit :: "nat \<Rightarrow> nat \<Rightarrow> queue_op list \<Rightarrow> bool" where
  "ops_fit c n [] \<longleftrightarrow> True"
| "ops_fit c n (Enq bs # ops) \<longleftrightarrow> bs \<noteq> [] \<and> n + length bs \<le> c \<and> ops_fit c (n + length bs) ops"
| "ops_fit c n (Deq k # ops) \<longleftrightarrow> 0 < k \<and> k \<le> c \<and> 0 < n \<and> ops_fit c (n - k) ops"

fun enqueued :: "queue_op list \<Rightarrow> u8 list" where
  "enqueued [] = []"
| "enqueued (Enq bs # ops) = bs @ enqueued ops"
| "enqueued (Deq k # ops) = enqueued ops"

locale byte_queue =
  fixes ok :: "'q \<Rightarrow> bool" and content :: "'q \<Rightarrow> u8 list" and cap :: nat
    and enq :: "'q \<Rightarrow> u8 list \<Rightarrow> 'q outcome"
    and deq :: "'q \<Rightarrow> nat \<Rightarrow> (u8 list \<times> 'q) outcome"
  assumes enq_law: "ok q \<Longrightarrow> bs \<noteq> [] \<Longrightarrow> length (content q) + length bs \<le> cap \<Longrightarrow>
      \<exists>q'. enq q bs = Ret q' \<and> ok q' \<and> content q' = content q @ bs"
    and deq_law: "ok q \<Longrightarrow> 0 < k \<Longrightarrow> k \<le> cap \<Longrightarrow> content q \<noteq> [] \<Longrightarrow>
      \<exists>q'. deq q k = Ret (take k (content q), q') \<and> ok q' \<and> content q' = drop k (content q)"
begin

lemma run_ops_stream:
  "ok q \<Longrightarrow> ops_fit cap (length (content q)) ops \<Longrightarrow>
     \<exists>out q'. run_ops enq deq ops q = Ret (out, q') \<and> ok q' \<and>
       out @ content q' = content q @ enqueued ops"
proof (induction ops arbitrary: q)
  case (Cons op ops)
  show ?case
  proof (cases op)
    case (Enq bs)
    obtain q1 where q1: "enq q bs = Ret q1" "ok q1" "content q1 = content q @ bs"
      using Cons.prems Enq enq_law [of q bs] by auto
    then show ?thesis using Cons.IH [of q1] Cons.prems Enq by auto
  next
    case (Deq k)
    obtain q1 where q1: "deq q k = Ret (take k (content q), q1)" "ok q1" "content q1 = drop k (content q)"
      using Cons.prems Deq deq_law [of q k] by auto
    then obtain out q' where "run_ops enq deq ops q1 = Ret (out, q')" "ok q'"
        "out @ content q' = drop k (content q) @ enqueued ops"
      using Cons.IH [of q1] Cons.prems Deq by auto
    moreover have "take k (content q) @ drop k (content q) @ enqueued ops = content q @ enqueued ops"
      by (metis append.assoc append_take_drop_id)
    ultimately show ?thesis
      using q1 Deq by (intro exI [of _ "take k (content q) @ out"] exI [of _ q']) simp
  qed
qed simp

end

text \<open>The buffer with its page store is a byte queue of one page.\<close>

definition fbq_enq :: "flexbuf \<times> page_store \<Rightarrow> u8 list \<Rightarrow> (flexbuf \<times> page_store) outcome" where
  "fbq_enq q bs = bind_outcome (flexbuf_enqueue (fst q) bs (of_nat (length bs)) (snd q))
     (\<lambda>(_, fb, M). Ret (fb, M))"

definition fbq_deq :: "flexbuf \<times> page_store \<Rightarrow> nat \<Rightarrow> (u8 list \<times> (flexbuf \<times> page_store)) outcome" where
  "fbq_deq q k = bind_outcome (flexbuf_dequeue (fst q) (of_nat k) (snd q))
     (\<lambda>(bs, fb). Ret (bs, (fb, snd q)))"

interpretation fbq: byte_queue "\<lambda>q. fb_ok (fst q) (snd q)" "\<lambda>q. bytes (fst q) (snd q)" 4096 fbq_enq fbq_deq
proof
  fix q :: "flexbuf \<times> page_store" and bs :: "u8 list"
  assume ok: "fb_ok (fst q) (snd q)" and bs: "bs \<noteq> []"
    and fit: "length (bytes (fst q) (snd q)) + length bs \<le> 4096"
  have u: "unat (of_nat (length bs) :: u32) = length bs" using fit by (simp add: unat_of_nat)
  then show "\<exists>q'. fbq_enq q bs = Ret q' \<and> fb_ok (fst q') (snd q') \<and>
      bytes (fst q') (snd q') = bytes (fst q) (snd q) @ bs"
    using flexbuf_enqueue_ok [OF ok, of "of_nat (length bs)" bs] bs fit length_bytes [OF ok] fb_okD(1) [OF ok]
    by (auto simp: fbq_enq_def)
next
  fix q :: "flexbuf \<times> page_store" and k :: nat
  assume ok: "fb_ok (fst q) (snd q)" and k: "0 < k" "k \<le> 4096" and ne: "bytes (fst q) (snd q) \<noteq> []"
  have sz: "0 < unat (fsize (fst q))" using ne length_bytes [OF ok] by (metis length_greater_0_conv)
  have u: "unat (of_nat k :: u32) = k" using k by (simp add: unat_of_nat)
  then show "\<exists>q'. fbq_deq q k = Ret (take k (bytes (fst q) (snd q)), q') \<and> fb_ok (fst q') (snd q') \<and>
      bytes (fst q') (snd q') = drop k (bytes (fst q) (snd q))"
    using flexbuf_dequeue_ok [OF ok _ sz, of "of_nat k"] k
    by (auto simp: fbq_deq_def)
qed

section \<open>Properties\<close>

lemma fb_ok_alloc:
  "(\<forall>p \<ge> next_pg M. length (pg M p) = 4096) \<Longrightarrow> fb_ok (fst (flexbuf_alloc 0 M)) (snd (flexbuf_alloc 0 M)) \<and>
     bytes (fst (flexbuf_alloc 0 M)) (snd (flexbuf_alloc 0 M)) = []"
  by (simp add: flexbuf_alloc_def off_to_page_def new_slots_def fb_ok_def npages_def fb_pages_def
      pages_ok_def bytes_def Let_def max_def)

text \<open>
  C9: a flexible buffer is a FIFO queue of bytes.  For every sequence of enqueue and dequeue
  operations on a buffer fresh from \<^verbatim>\<open>flexbuf_alloc(0)\<close> that each move at least one byte and never
  hold more than a page, every operation succeeds, the bytes dequeued, in order, followed by the
  bytes still in the buffer are the bytes enqueued, and the buffer stays well formed.
\<close>

theorem flexbuf_fifo:
  assumes "\<forall>p \<ge> next_pg M. length (pg M p) = 4096" and "ops_fit 4096 0 ops"
  shows "\<exists>out fb' M'. run_ops fbq_enq fbq_deq ops (flexbuf_alloc 0 M) = Ret (out, fb', M') \<and>
    fb_ok fb' M' \<and> out @ bytes fb' M' = enqueued ops"
  using fbq.run_ops_stream [of "flexbuf_alloc 0 M" ops] assms fb_ok_alloc [of M] by auto

definition store0 :: page_store where
  "store0 = \<lparr>pg = (\<lambda>_. replicate 4096 0), next_pg = 0\<rparr>"

theorem flexbuf_fifo_witness:
  "\<exists>out fb' M'. run_ops fbq_enq fbq_deq [Enq [1, 2, 3], Deq 2, Enq [4]] (flexbuf_alloc 0 store0) =
     Ret (out, fb', M') \<and> fb_ok fb' M' \<and> out @ bytes fb' M' = [1, 2, 3, 4]"
  using flexbuf_fifo [of store0 "[Enq [1, 2, 3], Deq 2, Enq [4]]"] by (simp add: store0_def)

text \<open>
  Dequeuing from an empty buffer.  Away from a page boundary nothing is returned and the buffer
  stays as it is; with the buffer at position 0, as it is fresh from \<^verbatim>\<open>flexbuf_alloc(0)\<close>, the number
  of pages of a transfer of no bytes is computed as 0x100000 and the loop runs off the descriptor.
\<close>

theorem flexbuf_dequeue_from_empty:
  assumes "fb_ok fb M" "fsize fb = 0"
  shows "flexbuf_dequeue fb len M = (if fpos fb = 0 then Stuck else Ret ([], fb))"
  by (rule flexbuf_dequeue_empty [OF assms])

theorem flexbuf_dequeue_from_empty_witness:
  "flexbuf_dequeue (fst (flexbuf_alloc 0 store0)) 16 (snd (flexbuf_alloc 0 store0)) = Stuck"
  using flexbuf_dequeue_from_empty [of "fst (flexbuf_alloc 0 store0)" "snd (flexbuf_alloc 0 store0)" 16]
    fb_ok_alloc [of store0]
  by (simp add: store0_def flexbuf_alloc_def off_to_page_def Let_def)

end
