(* ===== verification/Files.thy ===== *)
theory Files
  imports KTimer Flexbuf
begin

text \<open>
  Open files and inodes in memory: \<^verbatim>\<open>src/fs/inode.c\<close>, \<^verbatim>\<open>src/fs/open.c\<close>, \<^verbatim>\<open>src/fs/fcntl.c\<close>,
  \<^verbatim>\<open>src/fs/read_write.c\<close>, \<^verbatim>\<open>src/fs/ioctl.c\<close> and \<^verbatim>\<open>src/fs/stat.c\<close>.  A file, an inode and a super block
  are numbers, with their fields in tables.  The operations behind a \<^verbatim>\<open>struct file_operations\<close> or
  a \<^verbatim>\<open>struct super_operations\<close> are a parameter, the table of all such operations.  The reference
  counts of files are the field \<open>f_count\<close> of the state of \<open>Vma\<close>, since memory mappings hold
  references, too.  The theory shows that the reference count of a file is the number of
  descriptors and mappings that refer to it, through every operation on descriptors.
\<close>

section \<open>Data\<close>

record inode =
  i_ino :: u32
  i_mode :: u32
  i_nlink :: u32
  i_dev :: u32
  i_rdev :: u32
  i_size :: u32
  i_count :: u16
  i_flags :: u16
  i_dirt :: bool
  i_mount :: "nat option"
  i_fops :: "nat option"
  i_sb :: "nat option"

record open_file =
  f_inode :: "nat option"
  f_mode :: u32
  f_rdev :: u32
  f_pos :: u32
  f_flags :: u16
  f_private :: nat
  f_op :: "nat option"

record super_block =
  s_dev :: u32
  s_flags :: u32
  s_op :: "nat option"

text \<open>The two ends of a pipe, as in \<^verbatim>\<open>src/fs/pipe.c\<close>, with the processes waiting at each.\<close>

record pipe_private =
  pbuf :: flexbuf
  write_end :: "nat option"
  read_end :: "nat option"
  read_wait :: "nat list"
  write_wait :: "nat list"

record ksys =
  kern :: kernel
  vms :: vm_state
  ftab :: "nat \<Rightarrow> open_file"
  files :: "nat list"
  next_file :: nat
  itab :: "nat \<Rightarrow> inode"
  inodes :: "nat \<Rightarrow> nat list"
  next_inode :: nat
  sbs :: "nat \<Rightarrow> super_block"
  pipes :: "nat \<Rightarrow> pipe_private"
  next_pipe :: nat
  pstore :: page_store

text \<open>
  The tables of operations, by the number of the table; \<open>None\<close> is a null pointer.  \<^verbatim>\<open>read\<close> returns
  the bytes it stores in the buffer of the user, \<^verbatim>\<open>write\<close> takes the bytes that are there; both
  return the new value of \<^verbatim>\<open>*pos\<close>, too, and may sleep.
\<close>

type_synonym read_op = "nat \<Rightarrow> u32 \<Rightarrow> u32 \<Rightarrow> ksys \<Rightarrow> ((errno + u8 list) call \<times> u32 \<times> ksys) outcome"
type_synonym write_op = "nat \<Rightarrow> u8 list \<Rightarrow> u32 \<Rightarrow> ksys \<Rightarrow> ((errno + u32) call \<times> u32 \<times> ksys) outcome"

record op_tables =
  op_lseek :: "nat \<Rightarrow> (nat option \<Rightarrow> nat \<Rightarrow> u32 \<Rightarrow> u32 \<Rightarrow> ksys \<Rightarrow> ((errno + u32) \<times> ksys) outcome) option"
  op_read :: "nat \<Rightarrow> read_op option"
  op_write :: "nat \<Rightarrow> write_op option"
  op_readdir :: "nat \<Rightarrow> (nat \<Rightarrow> nat \<Rightarrow> u32 \<Rightarrow> u32 \<Rightarrow> ksys \<Rightarrow> ((errno + u32) \<times> ksys) outcome) option"
  op_open :: "nat \<Rightarrow> (nat \<Rightarrow> nat \<Rightarrow> ksys \<Rightarrow> ((errno + unit) \<times> ksys) outcome) option"
  op_release :: "nat \<Rightarrow> (nat option \<Rightarrow> nat \<Rightarrow> ksys \<Rightarrow> ksys outcome) option"
  op_ioctl :: "nat \<Rightarrow> (nat option \<Rightarrow> nat \<Rightarrow> u32 \<Rightarrow> u32 \<Rightarrow> ksys \<Rightarrow> ((errno + u32) \<times> ksys) outcome) option"
  op_read_inode :: "nat \<Rightarrow> (nat \<Rightarrow> ksys \<Rightarrow> ksys) option"
  op_write_inode :: "nat \<Rightarrow> (nat \<Rightarrow> ksys \<Rightarrow> ksys) option"
  op_put_inode :: "nat \<Rightarrow> (nat \<Rightarrow> ksys \<Rightarrow> ksys) option"

definition opt_op :: "'a option \<Rightarrow> ('a \<Rightarrow> 'b option) \<Rightarrow> 'b option" where
  "opt_op x f = (case x of None \<Rightarrow> None | Some i \<Rightarrow> f i)"

definition fcount :: "ksys \<Rightarrow> nat \<Rightarrow> u16" where
  "fcount S f = f_count (vms S) f"

definition set_fcount :: "nat \<Rightarrow> u16 \<Rightarrow> ksys \<Rightarrow> ksys" where
  "set_fcount f n S = S\<lparr>vms := (vms S)\<lparr>f_count := (f_count (vms S))(f := n)\<rparr>\<rparr>"

definition upd_file :: "nat \<Rightarrow> (open_file \<Rightarrow> open_file) \<Rightarrow> ksys \<Rightarrow> ksys" where
  "upd_file f g S = S\<lparr>ftab := (ftab S)(f := g (ftab S f))\<rparr>"

definition upd_inode :: "nat \<Rightarrow> (inode \<Rightarrow> inode) \<Rightarrow> ksys \<Rightarrow> ksys" where
  "upd_inode i g S = S\<lparr>itab := (itab S)(i := g (itab S i))\<rparr>"

definition curp :: "ksys \<Rightarrow> pcb" where
  "curp S = cur (kern S)"

definition upd_cur :: "(pcb \<Rightarrow> pcb) \<Rightarrow> ksys \<Rightarrow> ksys" where
  "upd_cur g S = S\<lparr>kern := upd_pcb (current (kern S)) g (kern S)\<rparr>"

definition set_fd :: "nat \<Rightarrow> nat option \<Rightarrow> ksys \<Rightarrow> ksys" where
  "set_fd fd v S = upd_cur (\<lambda>c. c\<lparr>filp := (filp c)[fd := v]\<rparr>) S"

section \<open>Files and inodes\<close>

text \<open>\<^verbatim>\<open>get_empty_file\<close>; \<open>mem\<close> says whether the slab allocator has memory.\<close>

definition get_empty_file :: "bool \<Rightarrow> ksys \<Rightarrow> nat option \<times> ksys" where
  "get_empty_file mem S =
     (if mem then
        let f = next_file S
        in (Some f, (set_fcount f 1 S)\<lparr>files := f # files S, next_file := Suc f\<rparr>)
      else (None, S))"

definition free_file :: "nat \<Rightarrow> ksys \<Rightarrow> ksys" where
  "free_file f S = S\<lparr>files := remove1 f (files S)\<rparr>"

definition ino_bucket :: "u32 \<Rightarrow> nat" where
  "ino_bucket ino = unat (hash_32 ino 9)"

abbreviation (input) MS_MEMFS :: u16 where "MS_MEMFS \<equiv> 0x40"
abbreviation (input) MS_RDONLY :: u32 where "MS_RDONLY \<equiv> 1"

text \<open>\<^verbatim>\<open>iput\<close>; freeing an inode without a super block follows a null pointer.\<close>

definition iput :: "op_tables \<Rightarrow> nat option \<Rightarrow> ksys \<Rightarrow> ksys outcome" where
  "iput ops inode S =
     (case inode of
        None \<Rightarrow> Ret S
      | Some i \<Rightarrow>
          let S = upd_inode i (\<lambda>x. x\<lparr>i_count := i_count x - 1\<rparr>) S
          in if i_count (itab S i) = 0 \<and> i_flags (itab S i) AND MS_MEMFS = 0 then
               (case i_sb (itab S i) of
                  None \<Rightarrow> Stuck
                | Some sb \<Rightarrow>
                    let S = (case opt_op (s_op (sbs S sb)) (op_put_inode ops) of
                               None \<Rightarrow> S | Some put \<Rightarrow> put i S);
                        b = ino_bucket (i_ino (itab S i))
                    in Ret (S\<lparr>inodes := (inodes S)(b := remove1 i (inodes S b))\<rparr>))
             else Ret S)"

definition file_unref :: "op_tables \<Rightarrow> nat \<Rightarrow> ksys \<Rightarrow> ksys outcome" where
  "file_unref ops f S =
     (let S = set_fcount f (fcount S f - 1) S
      in if fcount S f > 0 then Ret S
         else
           bind_outcome
             (case opt_op (f_op (ftab S f)) (op_release ops) of
                None \<Rightarrow> Ret S | Some release \<Rightarrow> release (f_inode (ftab S f)) f S)
             (\<lambda>S. bind_outcome (iput ops (f_inode (ftab S f)) S) (\<lambda>S. Ret (free_file f S))))"

definition S_ISREG :: "u32 \<Rightarrow> bool" where "S_ISREG m \<longleftrightarrow> m AND 0xF000 = 0x8000"
definition S_ISDIR :: "u32 \<Rightarrow> bool" where "S_ISDIR m \<longleftrightarrow> m AND 0xF000 = 0x4000"

definition fs_may_remount_ro :: "u32 \<Rightarrow> ksys \<Rightarrow> bool" where
  "fs_may_remount_ro dev S \<longleftrightarrow>
     (\<forall>f \<in> set (files S).
        case f_inode (ftab S f) of
          None \<Rightarrow> True
        | Some i \<Rightarrow> fcount S f = 0 \<or> i_dev (itab S i) \<noteq> dev \<or>
            \<not> (S_ISREG (i_mode (itab S i)) \<and> f_mode (ftab S f) AND 2 \<noteq> 0))"

definition write_inode :: "op_tables \<Rightarrow> nat \<Rightarrow> ksys \<Rightarrow> ksys" where
  "write_inode ops i S =
     (if \<not> i_dirt (itab S i) then S
      else case opt_op (i_sb (itab S i)) (\<lambda>sb. opt_op (s_op (sbs S sb)) (op_write_inode ops)) of
             None \<Rightarrow> upd_inode i (\<lambda>x. x\<lparr>i_dirt := False\<rparr>) S
           | Some write \<Rightarrow> write i S)"

definition read_inode :: "op_tables \<Rightarrow> nat \<Rightarrow> ksys \<Rightarrow> ksys" where
  "read_inode ops i S =
     (case opt_op (i_sb (itab S i)) (\<lambda>sb. opt_op (s_op (sbs S sb)) (op_read_inode ops)) of
        None \<Rightarrow> S
      | Some read \<Rightarrow> read i S)"

definition insert_inode_hash :: "nat \<Rightarrow> ksys \<Rightarrow> ksys" where
  "insert_inode_hash i S =
     (let b = ino_bucket (i_ino (itab S i)) in S\<lparr>inodes := (inodes S)(b := i # inodes S b)\<rparr>)"

text \<open>\<^verbatim>\<open>__iget\<close> and \<^verbatim>\<open>iget\<close>.\<close>

definition iget_cross :: "op_tables \<Rightarrow> bool \<Rightarrow> nat option \<Rightarrow> u32 \<Rightarrow> bool \<Rightarrow> ksys \<Rightarrow> (nat option \<times> ksys) outcome" where
  "iget_cross ops mem sb ino crossmntp S =
     (case sb of
        None \<Rightarrow> Stuck
      | Some s \<Rightarrow>
          (case List.find (\<lambda>i. i_ino (itab S i) = ino \<and> i_sb (itab S i) = sb) (inodes S (ino_bucket ino)) of
            Some i \<Rightarrow>
              let S = upd_inode i (\<lambda>x. x\<lparr>i_count := i_count x + 1\<rparr>) S
              in (case i_mount (itab S i) of
                    Some tmp \<Rightarrow>
                      if crossmntp then
                        bind_outcome (iput ops (Some i) (upd_inode tmp (\<lambda>x. x\<lparr>i_count := i_count x + 1\<rparr>) S))
                          (\<lambda>S. Ret (Some tmp, S))
                      else Ret (Some i, S)
                  | None \<Rightarrow> Ret (Some i, S))
          | None \<Rightarrow>
              if \<not> mem then Ret (None, S)
              else
                let i = next_inode S;
                    S = S\<lparr>next_inode := Suc i\<rparr>;
                    S = upd_inode i (\<lambda>x. x\<lparr>i_sb := sb, i_dev := s_dev (sbs S s), i_ino := ino,
                          i_flags := ucast (s_flags (sbs S s)), i_count := 1\<rparr>) S;
                    S = S\<lparr>inodes := (inodes S)(ino_bucket ino := i # inodes S (ino_bucket ino))\<rparr>
                in Ret (Some i, read_inode ops i S)))"

definition iget :: "op_tables \<Rightarrow> bool \<Rightarrow> nat option \<Rightarrow> u32 \<Rightarrow> ksys \<Rightarrow> (nat option \<times> ksys) outcome" where
  "iget ops mem sb ino S = iget_cross ops mem sb ino True S"

section \<open>Opening and closing\<close>

text \<open>
  \<^verbatim>\<open>file_open\<close>, storing into \<^verbatim>\<open>*res\<close> on success only.  The field \<^verbatim>\<open>f_private\<close>
  keeps what the memory held before.
\<close>

definition file_open :: "op_tables \<Rightarrow> bool \<Rightarrow> nat \<Rightarrow> u32 \<Rightarrow> u32 \<Rightarrow> ksys \<Rightarrow> ((errno + nat) \<times> ksys) outcome" where
  "file_open ops mem inode flags mode S =
     (case get_empty_file mem S of
        (None, S) \<Rightarrow> Ret (Inl ENFILE, S)
      | (Some f, S) \<Rightarrow>
          let S = upd_file f (\<lambda>x. x\<lparr>f_inode := Some inode, f_flags := ucast flags, f_mode := mode, f_pos := 0,
                    f_rdev := i_rdev (itab S inode), f_op := i_fops (itab S inode)\<rparr>) S
          in (case opt_op (f_op (ftab S f)) (op_open ops) of
                None \<Rightarrow> Ret (Inr f, S)
              | Some open' \<Rightarrow>
                  bind_outcome (open' inode f S) (\<lambda>(r, S).
                    case r of Inl e \<Rightarrow> Ret (Inl e, free_file f S) | Inr _ \<Rightarrow> Ret (Inr f, S))))"

text \<open>\<^verbatim>\<open>verify_user_string\<close> of \<^verbatim>\<open>src/include/kernel/dispatch.h\<close>; \<open>nul\<close> is the byte \<^verbatim>\<open>str[len]\<close>.\<close>

definition verify_user_string :: "u32 \<Rightarrow> u32 \<Rightarrow> u8 \<Rightarrow> kernel \<Rightarrow> errno + unit" where
  "verify_user_string str len nul k =
     (if \<not> cur_verify k str len 0 then Inl EFAULT else if nul \<noteq> 0 then Inl EINVAL else Inr ())"

text \<open>
  \<^verbatim>\<open>sys_open\<close>; \<open>lookup\<close> is \<^verbatim>\<open>open_namei\<close> on the path.  The descriptor is chosen before the path is
  looked up.
\<close>

definition sys_open :: "op_tables \<Rightarrow> bool \<Rightarrow> (u32 \<Rightarrow> u32 \<Rightarrow> ksys \<Rightarrow> ((errno + nat) \<times> ksys) outcome) \<Rightarrow>
    u32 \<Rightarrow> u32 \<Rightarrow> u8 \<Rightarrow> u32 \<Rightarrow> u32 \<Rightarrow> ksys \<Rightarrow> ((errno + nat) \<times> ksys) outcome" where
  "sys_open ops mem lookup path len nul flags create_mode S =
     (case verify_user_string path len nul (kern S) of
        Inl e \<Rightarrow> Ret (Inl e, S)
      | Inr _ \<Rightarrow>
          (case get_fd (curp S) 0 of
             Inl e \<Rightarrow> Ret (Inl e, S)
           | Inr fd \<Rightarrow>
               bind_outcome (lookup flags create_mode S) (\<lambda>(r, S).
                 case r of
                   Inl e \<Rightarrow> Ret (Inl e, S)
                 | Inr inode \<Rightarrow>
                     bind_outcome (file_open ops mem inode flags (flags AND 3) S) (\<lambda>(r, S).
                       case r of
                         Inl e \<Rightarrow> bind_outcome (iput ops (Some inode) S) (\<lambda>S. Ret (Inl e, S))
                       | Inr f \<Rightarrow> Ret (Inr fd, set_fd fd (Some f) S)))))"

text \<open>\<^verbatim>\<open>sys_close\<close>; a file with a count of zero is reported and left alone.\<close>

definition sys_close :: "op_tables \<Rightarrow> u32 \<Rightarrow> ksys \<Rightarrow> ((errno + unit) \<times> ksys) outcome" where
  "sys_close ops fd S =
     (if fd \<ge> 8 then Ret (Inl EBADF, S)
      else
        (case filp (curp S) ! unat fd of
           None \<Rightarrow> Ret (Inl EBADF, S)
         | Some f \<Rightarrow>
             let S = set_fd (unat fd) None S
             in if fcount S f = 0 then Ret (Inr (), S)
                else bind_outcome (file_unref ops f S) (\<lambda>S. Ret (Inr (), S))))"

section \<open>Duplicating descriptors\<close>

text \<open>\<^verbatim>\<open>dupfd\<close>; a negative descriptor indexes memory before the table.\<close>

definition dupfd :: "nat \<Rightarrow> int \<Rightarrow> ksys \<Rightarrow> ((errno + int) \<times> ksys) outcome" where
  "dupfd oldfd newfd S =
     (if newfd < 0 then Stuck
      else
        (case filp (curp S) ! oldfd of
           None \<Rightarrow> Stuck
         | Some f \<Rightarrow> Ret (Inr newfd, set_fcount f (fcount S f + 1) (set_fd (nat newfd) (Some f) S))))"

definition do_dup :: "int \<Rightarrow> int \<Rightarrow> ksys \<Rightarrow> ((errno + int) \<times> ksys) outcome" where
  "do_dup fd start S =
     bind_outcome (fd_ok (curp S) fd) (\<lambda>ok.
       if \<not> ok then Ret (Inl EBADF, S)
       else if start < 0 then Stuck
       else
         (case get_fd (curp S) (nat start) of
            Inl e \<Rightarrow> Ret (Inl e, S)
          | Inr new \<Rightarrow> dupfd (nat fd) (int new) S))"

definition do_dup2 :: "op_tables \<Rightarrow> int \<Rightarrow> int \<Rightarrow> ksys \<Rightarrow> ((errno + int) \<times> ksys) outcome" where
  "do_dup2 ops oldfd newfd S =
     bind_outcome (fd_ok (curp S) oldfd) (\<lambda>ok.
       if \<not> ok then Ret (Inl EBADF, S)
       else if newfd = oldfd then Ret (Inr newfd, S)
       else if newfd \<ge> NR_FILES then Ret (Inl EBADF, S)
       else bind_outcome (sys_close ops (of_int newfd) S) (\<lambda>(_, S). dupfd (nat oldfd) newfd S))"

definition sys_fcntl :: "op_tables \<Rightarrow> int \<Rightarrow> int \<Rightarrow> int \<Rightarrow> ksys \<Rightarrow> ((errno + int) \<times> ksys) outcome" where
  "sys_fcntl ops fd cmd arg S =
     (if cmd = 1 then do_dup fd arg S
      else if cmd = 2 then do_dup2 ops fd arg S
      else if 3 \<le> cmd \<and> cmd \<le> 12 then Ret (Inl ENOTSUP, S)
      else Ret (Inl EINVAL, S))"

section \<open>Reading, writing and seeking\<close>

definition fd_lookup :: "u32 \<Rightarrow> ksys \<Rightarrow> nat option" where
  "fd_lookup fd S = (if fd \<ge> 8 then None else filp (curp S) ! unat fd)"

definition sys_readdir :: "op_tables \<Rightarrow> u32 \<Rightarrow> u32 \<Rightarrow> u32 \<Rightarrow> ksys \<Rightarrow> ((errno + u32) \<times> ksys) outcome" where
  "sys_readdir ops fd dirent len S =
     (if \<not> cur_verify (kern S) dirent 264 VM_WRITE then Ret (Inl EFAULT, S)
      else
        (case opt_op (fd_lookup fd S) (\<lambda>f. map_option (Pair f) (f_inode (ftab S f))) of
           None \<Rightarrow> Ret (Inl EBADF, S)
         | Some (f, inode) \<Rightarrow>
             (case opt_op (f_op (ftab S f)) (op_readdir ops) of
                None \<Rightarrow> Ret (Inl ENOTDIR, S)
              | Some rd \<Rightarrow> rd inode f dirent len S)))"

text \<open>\<^verbatim>\<open>sys_lseek\<close>; the new position is computed in a signed integer.\<close>

definition sys_lseek :: "op_tables \<Rightarrow> u32 \<Rightarrow> u32 \<Rightarrow> u32 \<Rightarrow> ksys \<Rightarrow> ((errno + u32) \<times> ksys) outcome" where
  "sys_lseek ops fd offset whence S =
     (case opt_op (fd_lookup fd S) (\<lambda>f. map_option (Pair f) (f_inode (ftab S f))) of
        None \<Rightarrow> Ret (Inl EBADF, S)
      | Some (f, inode) \<Rightarrow>
          if whence \<ge> 3 then Ret (Inl EINVAL, S)
          else
            (case opt_op (f_op (ftab S f)) (op_lseek ops) of
               Some seek \<Rightarrow> seek (Some inode) f offset whence S
             | None \<Rightarrow>
                 let tmp = (if whence = 0 then offset
                            else if whence = 1 then f_pos (ftab S f) + offset
                            else i_size (itab S inode) + offset)
                 in if tmp <s 0 then Ret (Inl EINVAL, S)
                    else Ret (Inr tmp, upd_file f (\<lambda>x. x\<lparr>f_pos := tmp\<rparr>) S)))"

text \<open>
  \<^verbatim>\<open>do_read\<close> and \<^verbatim>\<open>do_write\<close> return the result and the new position.  In the system calls \<open>buf\<close> is the
  address that is checked; the bytes written are those found there.
\<close>

definition do_read :: "op_tables \<Rightarrow> nat \<Rightarrow> u32 \<Rightarrow> u32 \<Rightarrow> ksys \<Rightarrow> ((errno + u8 list) call \<times> u32 \<times> ksys) outcome" where
  "do_read ops f len pos S =
     (if f_mode (ftab S f) AND 1 = 0 then Ret (Done (Inl EBADF), pos, S)
      else if len = 0 then Ret (Done (Inr []), pos, S)
      else
        (case opt_op (f_op (ftab S f)) (op_read ops) of
           None \<Rightarrow> Ret (Done (Inl EINVAL), pos, S)
         | Some rd \<Rightarrow> rd f len pos S))"

definition sys_read :: "op_tables \<Rightarrow> u32 \<Rightarrow> u32 \<Rightarrow> u32 \<Rightarrow> ksys \<Rightarrow> ((errno + u8 list) call \<times> ksys) outcome" where
  "sys_read ops fd buf len S =
     (if \<not> cur_verify (kern S) buf len VM_WRITE then Ret (Done (Inl EFAULT), S)
      else
        (case fd_lookup fd S of
           None \<Rightarrow> Ret (Done (Inl EBADF), S)
         | Some f \<Rightarrow>
             bind_outcome (do_read ops f len (f_pos (ftab S f)) S)
               (\<lambda>(r, pos, S). Ret (r, upd_file f (\<lambda>x. x\<lparr>f_pos := pos\<rparr>) S))))"

definition sys_pread :: "op_tables \<Rightarrow> u32 \<Rightarrow> u32 \<Rightarrow> u32 \<Rightarrow> u32 \<Rightarrow> ksys \<Rightarrow> ((errno + u8 list) call \<times> ksys) outcome" where
  "sys_pread ops fd buf len pos S =
     (if \<not> cur_verify (kern S) buf len VM_WRITE then Ret (Done (Inl EFAULT), S)
      else
        (case opt_op (fd_lookup fd S) (\<lambda>f. map_option (\<lambda>_. f) (f_inode (ftab S f))) of
           None \<Rightarrow> Ret (Done (Inl EBADF), S)
         | Some f \<Rightarrow> bind_outcome (do_read ops f len pos S) (\<lambda>(r, _, S). Ret (r, S))))"

definition IS_RDONLY :: "nat \<Rightarrow> ksys \<Rightarrow> bool" where
  "IS_RDONLY inode S \<longleftrightarrow>
     (case i_sb (itab S inode) of None \<Rightarrow> False | Some sb \<Rightarrow> s_flags (sbs S sb) AND MS_RDONLY \<noteq> 0)"

definition do_write :: "op_tables \<Rightarrow> nat \<Rightarrow> u8 list \<Rightarrow> u32 \<Rightarrow> ksys \<Rightarrow> ((errno + u32) call \<times> u32 \<times> ksys) outcome" where
  "do_write ops f src pos S =
     (if f_mode (ftab S f) AND 2 = 0 then Ret (Done (Inl EBADF), pos, S)
      else if (case f_inode (ftab S f) of None \<Rightarrow> False | Some i \<Rightarrow> IS_RDONLY i S)
      then Ret (Done (Inl ENOSPC), pos, S)
      else if src = [] then Ret (Done (Inr 0), pos, S)
      else
        (case opt_op (f_op (ftab S f)) (op_write ops) of
           None \<Rightarrow> Ret (Done (Inl EINVAL), pos, S)
         | Some wr \<Rightarrow> wr f src pos S))"

definition sys_write :: "op_tables \<Rightarrow> u32 \<Rightarrow> u32 \<Rightarrow> u8 list \<Rightarrow> ksys \<Rightarrow> ((errno + u32) call \<times> ksys) outcome" where
  "sys_write ops fd buf src S =
     (if \<not> cur_verify (kern S) buf (of_nat (length src)) VM_READ then Ret (Done (Inl EFAULT), S)
      else
        (case fd_lookup fd S of
           None \<Rightarrow> Ret (Done (Inl EBADF), S)
         | Some f \<Rightarrow>
             bind_outcome (do_write ops f src (f_pos (ftab S f)) S)
               (\<lambda>(r, pos, S). Ret (r, upd_file f (\<lambda>x. x\<lparr>f_pos := pos\<rparr>) S))))"

definition sys_pwrite :: "op_tables \<Rightarrow> u32 \<Rightarrow> u32 \<Rightarrow> u8 list \<Rightarrow> u32 \<Rightarrow> ksys \<Rightarrow> ((errno + u32) call \<times> ksys) outcome" where
  "sys_pwrite ops fd buf src pos S =
     (if \<not> cur_verify (kern S) buf (of_nat (length src)) VM_READ then Ret (Done (Inl EFAULT), S)
      else
        (case opt_op (fd_lookup fd S) (\<lambda>f. map_option (\<lambda>_. f) (f_inode (ftab S f))) of
           None \<Rightarrow> Ret (Done (Inl EBADF), S)
         | Some f \<Rightarrow> bind_outcome (do_write ops f src pos S) (\<lambda>(r, _, S). Ret (r, S))))"

definition sys_ioctl :: "op_tables \<Rightarrow> u32 \<Rightarrow> u32 \<Rightarrow> u32 \<Rightarrow> ksys \<Rightarrow> ((errno + u32) \<times> ksys) outcome" where
  "sys_ioctl ops fd cmd arg S =
     (case fd_lookup fd S of
        None \<Rightarrow> Ret (Inl EBADF, S)
      | Some f \<Rightarrow>
          (case opt_op (f_op (ftab S f)) (op_ioctl ops) of
             None \<Rightarrow> Ret (Inl EINVAL, S)
           | Some io \<Rightarrow> io (f_inode (ftab S f)) f cmd arg S))"

section \<open>File status\<close>

record kstat =
  st_dev :: u32
  st_ino :: u32
  st_mode :: u32
  st_nlink :: u32
  st_uid :: u32
  st_gid :: u32
  st_rdev :: u32
  st_size :: u32
  st_blksize :: u32
  st_blocks :: u32
  st_icount :: u16

definition do_stat :: "nat \<Rightarrow> ksys \<Rightarrow> kstat" where
  "do_stat inode S =
     (let i = itab S inode
      in \<lparr>st_dev = i_dev i, st_ino = i_ino i, st_mode = i_mode i, st_nlink = i_nlink i, st_uid = 0,
          st_gid = 0, st_rdev = i_rdev i, st_size = i_size i, st_blksize = 1024, st_blocks = 0,
          st_icount = i_count i - 1\<rparr>)"

text \<open>\<^verbatim>\<open>sizeof(struct stat)\<close> is 68.  \<^verbatim>\<open>sys_fstat\<close> does not check for a negative descriptor.\<close>

definition sys_fstat :: "int \<Rightarrow> u32 \<Rightarrow> ksys \<Rightarrow> (errno + kstat) outcome" where
  "sys_fstat fd s S =
     (if \<not> cur_verify (kern S) s 68 VM_WRITE then Ret (Inl EFAULT)
      else if fd \<ge> NR_FILES then Ret (Inl EBADF)
      else if fd < 0 then Stuck
      else
        (case opt_op (filp (curp S) ! nat fd) (\<lambda>f. f_inode (ftab S f)) of
           None \<Rightarrow> Ret (Inl EBADF)
         | Some inode \<Rightarrow> Ret (Inr (do_stat inode S))))"

text \<open>\<^verbatim>\<open>sys_stat\<close>; \<open>lookup\<close> is \<^verbatim>\<open>namei\<close> on the path.\<close>

definition sys_stat :: "op_tables \<Rightarrow> (ksys \<Rightarrow> ((errno + nat) \<times> ksys) outcome) \<Rightarrow> u32 \<Rightarrow> u32 \<Rightarrow> u8 \<Rightarrow> u32 \<Rightarrow>
    ksys \<Rightarrow> ((errno + kstat) \<times> ksys) outcome" where
  "sys_stat ops lookup path len nul s S =
     (case verify_user_string path len nul (kern S) of
        Inl e \<Rightarrow> Ret (Inl e, S)
      | Inr _ \<Rightarrow>
          if \<not> cur_verify (kern S) s 68 VM_WRITE then Ret (Inl EFAULT, S)
          else bind_outcome (lookup S) (\<lambda>(r, S).
            case r of
              Inl e \<Rightarrow> Ret (Inl e, S)
            | Inr inode \<Rightarrow>
                let st = do_stat inode S
                in bind_outcome (iput ops (Some inode) S) (\<lambda>S. Ret (Inr st, S))))"

section \<open>Reference counts\<close>

text \<open>The descriptors of all processes that refer to a file.\<close>

definition fd_refs :: "ksys \<Rightarrow> nat \<Rightarrow> nat" where
  "fd_refs S f = sum_list (map (\<lambda>c. count_list (filp c) (Some f)) (proctab (kern S)))"

text \<open>
  The reference counts are right: the count of a file is the number of descriptors that refer to
  it plus the number \<open>m\<close> of its mappings, and a file with references has not been freed.
\<close>

definition refs_ok :: "(nat \<Rightarrow> nat) \<Rightarrow> ksys \<Rightarrow> bool" where
  "refs_ok m S \<longleftrightarrow>
     (\<forall>f. unat (fcount S f) = fd_refs S f + m f) \<and> (\<forall>f. 0 < fcount S f \<longrightarrow> f \<in> set (files S)) \<and>
     distinct (files S) \<and> current (kern S) < length (proctab (kern S)) \<and>
     (\<forall>c \<in> set (proctab (kern S)). length (filp c) = 8)"

lemma count_list_update:
  "i < length xs \<Longrightarrow> count_list (xs[i := v]) a + of_bool (xs ! i = a) = count_list xs a + of_bool (v = a)"
proof (induction xs arbitrary: i)
  case (Cons x xs)
  then show ?case by (cases i) auto
qed simp

lemma fd_refs_set_fd:
  assumes "current (kern S) < length (proctab (kern S))" "fd < length (filp (curp S))"
  shows "fd_refs (set_fd fd v S) f + of_bool (filp (curp S) ! fd = Some f) = fd_refs S f + of_bool (v = Some f)"
proof -
  let ?g = "\<lambda>c. count_list (filp c) (Some f)"
  let ?p = "proctab (kern S)" and ?i = "current (kern S)"
  have c: "curp S = ?p ! ?i" by (simp add: curp_def cur_def pcb_at_def)
  have "?g (?p ! ?i) \<le> sum_list (map ?g ?p)"
    using assms(1) by (intro member_le_sum_list) auto
  then show ?thesis
    using assms count_list_update [of fd "filp (curp S)" v "Some f"]
    by (simp add: fd_refs_def set_fd_def upd_cur_def upd_pcb_def map_update sum_list_update c)
qed

lemma fd_refs_pos:
  assumes "current (kern S) < length (proctab (kern S))" "fd < length (filp (curp S))" "filp (curp S) ! fd = Some f"
  shows "0 < fd_refs S f"
  using fd_refs_set_fd [OF assms(1,2), of None f] assms(3) by simp

lemma set_fd_simps [simp]:
  "vms (set_fd fd v S) = vms S" "files (set_fd fd v S) = files S" "ftab (set_fd fd v S) = ftab S"
  "itab (set_fd fd v S) = itab S" "fcount (set_fd fd v S) f = fcount S f"
  "current (kern (set_fd fd v S)) = current (kern S)"
  "length (proctab (kern (set_fd fd v S))) = length (proctab (kern S))"
  by (simp_all add: set_fd_def upd_cur_def fcount_def)

lemma curp_set_fd:
  "current (kern S) < length (proctab (kern S)) \<Longrightarrow> filp (curp (set_fd fd v S)) = (filp (curp S))[fd := v]"
  by (simp add: curp_def set_fd_def upd_cur_def)

lemma filp_lengths_set_fd:
  "\<forall>c \<in> set (proctab (kern S)). length (filp c) = 8 \<Longrightarrow> c \<in> set (proctab (kern (set_fd fd v S))) \<Longrightarrow>
     current (kern S) < length (proctab (kern S)) \<Longrightarrow> length (filp c) = 8"
  by (auto simp: set_fd_def upd_cur_def upd_pcb_def dest!: set_update_subset_insert [THEN subsetD])

lemma set_fcount_simps [simp]:
  "fcount (set_fcount f n S) g = (if g = f then n else fcount S g)" "files (set_fcount f n S) = files S"
  "kern (set_fcount f n S) = kern S" "fd_refs (set_fcount f n S) g = fd_refs S g"
  "curp (set_fcount f n S) = curp S" "ftab (set_fcount f n S) = ftab S"
  by (simp_all add: set_fcount_def fcount_def fd_refs_def curp_def)

lemma refs_okD:
  assumes "refs_ok m S"
  shows "unat (fcount S f) = fd_refs S f + m f" "0 < fcount S f \<Longrightarrow> f \<in> set (files S)" "distinct (files S)"
    "current (kern S) < length (proctab (kern S))" "length (filp (curp S)) = 8"
  using assms by (auto simp: refs_ok_def curp_def cur_def pcb_at_def)

text \<open>A new reference to a file through a free descriptor.\<close>

lemma refs_ok_add:
  assumes ok: "refs_ok m S" and fd: "fd < 8" "filp (curp S) ! fd = None"
    and f: "0 < fcount S f" "fd_refs S f + m f + 1 < 65536"
  shows "refs_ok m (set_fcount f (fcount S f + 1) (set_fd fd (Some f) S))"
proof -
  note d = refs_okD [OF ok]
  have r: "fd_refs (set_fd fd (Some f) S) g = fd_refs S g + of_bool (g = f)" for g
    using fd_refs_set_fd [OF d(4), of fd "Some f" g] d(5) fd by auto
  have "unat (fcount S f + 1) = unat (fcount S f) + 1"
    using f(2) d(1) [of f] by (simp add: unat_word_ariths)
  then show ?thesis
    using ok d r f(1) filp_lengths_set_fd [of S _ fd "Some f"] by (auto simp: refs_ok_def)
qed

text \<open>What operations behind the tables leave alone: counts, descriptors and the list of files.\<close>

definition same_refs :: "ksys \<Rightarrow> ksys \<Rightarrow> bool" where
  "same_refs S S' \<longleftrightarrow> f_count (vms S') = f_count (vms S) \<and> files S' = files S \<and>
     map filp (proctab (kern S')) = map filp (proctab (kern S)) \<and> current (kern S') = current (kern S)"

lemma same_refs_refl [simp]: "same_refs S S"
  by (simp add: same_refs_def)

lemma same_refs_trans: "same_refs A B \<Longrightarrow> same_refs B C \<Longrightarrow> same_refs A C"
  by (simp add: same_refs_def)

lemma same_refs_upd_inode [simp]: "same_refs S (upd_inode i g S)"
  by (simp add: same_refs_def upd_inode_def)

lemma same_refs_inodes [simp]: "same_refs S (S\<lparr>inodes := x\<rparr>)"
  by (simp add: same_refs_def)

lemma same_refsD:
  assumes "same_refs S S'"
  shows "fcount S' = fcount S" "fd_refs S' = fd_refs S" "length (proctab (kern S')) = length (proctab (kern S))"
    "current (kern S') = current (kern S)" "files S' = files S"
    "current (kern S) < length (proctab (kern S)) \<Longrightarrow> filp (curp S') = filp (curp S)"
proof -
  have m: "map filp (proctab (kern S')) = map filp (proctab (kern S))" using assms by (simp add: same_refs_def)
  show "length (proctab (kern S')) = length (proctab (kern S))" using arg_cong [OF m, of length] by simp
  moreover have "filp (proctab (kern S') ! i) = filp (proctab (kern S) ! i)" if "i < length (proctab (kern S))" for i
    using m that by (metis length_map nth_map)
  ultimately show "current (kern S) < length (proctab (kern S)) \<Longrightarrow> filp (curp S') = filp (curp S)"
    using assms by (simp add: curp_def cur_def pcb_at_def same_refs_def)
  have "fd_refs S' f = fd_refs S f" for f
    using arg_cong [OF m, of "\<lambda>xs. sum_list (map (\<lambda>l. count_list l (Some f)) xs)"]
    by (simp add: fd_refs_def comp_def)
  then show "fd_refs S' = fd_refs S" by blast
qed (use assms in \<open>simp_all add: same_refs_def fcount_def fun_eq_iff\<close>)

lemma filp_lengths_same:
  "same_refs S S' \<Longrightarrow> (\<forall>c \<in> set (proctab (kern S')). length (filp c) = 8) =
     (\<forall>c \<in> set (proctab (kern S)). length (filp c) = 8)"
proof -
  assume "same_refs S S'"
  then have "filp ` set (proctab (kern S')) = filp ` set (proctab (kern S))"
    unfolding same_refs_def by (metis image_set)
  then show ?thesis by (metis (no_types, lifting) image_iff)
qed

locale file_ops =
  fixes ops :: op_tables
  assumes release_frame: "op_release ops n = Some rel \<Longrightarrow> rel i f S = Ret S' \<Longrightarrow> same_refs S S'"
    and put_inode_frame: "op_put_inode ops n = Some put \<Longrightarrow> same_refs S (put j S)"
begin

lemma put_frame: "same_refs S (case opt_op x (op_put_inode ops) of None \<Rightarrow> S | Some put \<Rightarrow> put j S)"
proof (cases "opt_op x (op_put_inode ops)")
  case (Some put)
  then obtain n where "op_put_inode ops n = Some put" by (auto simp: opt_op_def split: option.splits)
  then show ?thesis using Some put_inode_frame by simp
qed simp

lemma iput_frame:
  assumes "iput ops i S = Ret S'"
  shows "same_refs S S'"
proof (cases i)
  case None
  then show ?thesis using assms by (simp add: iput_def)
next
  case (Some j)
  let ?S = "upd_inode j (\<lambda>x. x\<lparr>i_count := i_count x - 1\<rparr>) S"
  show ?thesis
  proof (cases "i_count (itab ?S j) = 0 \<and> i_flags (itab ?S j) AND MS_MEMFS = 0")
    case True
    obtain sb where sb: "i_sb (itab ?S j) = Some sb"
      using assms Some True by (cases "i_sb (itab ?S j)") (simp_all add: iput_def Let_def)
    let ?T = "case opt_op (s_op (sbs ?S sb)) (op_put_inode ops) of None \<Rightarrow> ?S | Some put \<Rightarrow> put j ?S"
    have "\<exists>x. S' = ?T\<lparr>inodes := x\<rparr>"
      using assms Some True sb unfolding iput_def Let_def by simp (rule exI, erule sym)
    moreover have "same_refs S ?T" by (rule same_refs_trans [OF same_refs_upd_inode put_frame])
    ultimately show ?thesis using same_refs_trans [OF _ same_refs_inodes] by blast
  qed (use assms Some in \<open>auto simp: iput_def Let_def\<close>)
qed

lemma file_unref_frame:
  assumes "file_unref ops f S = Ret S'"
  shows "\<exists>S1. same_refs (set_fcount f (fcount S f - 1) S) S1 \<and>
    S' = (if 0 < fcount S f - 1 then S1 else free_file f S1)"
proof (cases "0 < fcount S f - 1")
  case True
  then show ?thesis using assms by (auto simp: file_unref_def Let_def)
next
  case False
  let ?S = "set_fcount f (fcount S f - 1) S"
  obtain S1 S2 where r: "(case opt_op (f_op (ftab S f)) (op_release ops) of
       None \<Rightarrow> Ret ?S | Some release \<Rightarrow> release (f_inode (ftab ?S f)) f ?S) = Ret S1"
    "iput ops (f_inode (ftab S1 f)) S1 = Ret S2" "S' = free_file f S2"
    using assms False by (auto simp: file_unref_def Let_def)
  have "same_refs ?S S1"
    using r(1) release_frame by (auto simp: opt_op_def split: option.splits)
  then show ?thesis using same_refs_trans iput_frame [OF r(2)] r(3) False by auto
qed

lemma close_keeps_refs:
  assumes ok: "refs_ok m S" and c: "sys_close ops fd S = Ret (r, S')"
  shows "refs_ok m S' \<and>
    (case fd_lookup fd S of
       None \<Rightarrow> r = Inl EBADF \<and> S' = S
     | Some f \<Rightarrow> r = Inr () \<and> filp (curp S') = (filp (curp S))[unat fd := None] \<and>
         (f \<in> set (files S') \<longleftrightarrow> 1 < fd_refs S f + m f) \<and>
         (\<forall>g. g \<noteq> f \<longrightarrow> (g \<in> set (files S') \<longleftrightarrow> g \<in> set (files S))))"
proof (cases "fd_lookup fd S")
  case None
  then show ?thesis using ok c by (auto simp: fd_lookup_def sys_close_def split: if_splits)
next
  case (Some f)
  note d = refs_okD [OF ok]
  have fd: "\<not> 8 \<le> fd" "unat fd < 8" "filp (curp S) ! unat fd = Some f"
    using Some by (auto simp: fd_lookup_def word_le_nat_alt split: if_splits)
  let ?S = "set_fd (unat fd) None S"
  have pos: "0 < fd_refs S f" using fd_refs_pos [OF d(4) _ fd(3)] fd(2) d(5) by simp
  then have cnt: "fcount S f \<noteq> 0" using d(1) [of f] by auto
  then have minus: "unat (fcount S f - 1) = unat (fcount S f) - 1"
    by (simp add: unat_sub word_le_nat_alt Suc_le_eq unat_gt_0)
  obtain u: "file_unref ops f ?S = Ret S'" and r: "r = Inr ()"
    using c fd cnt by (simp add: sys_close_def)
  obtain S1 where S1: "same_refs (set_fcount f (fcount S f - 1) ?S) S1"
      "S' = (if 0 < fcount S f - 1 then S1 else free_file f S1)"
    using file_unref_frame [OF u] by auto
  note e = same_refsD [OF S1(1)]
  have refs: "fd_refs ?S g = fd_refs S g - of_bool (g = f)" for g
    using fd_refs_set_fd [OF d(4), of "unat fd" None g] fd d(5) by auto
  have len: "\<forall>c \<in> set (proctab (kern S1)). length (filp c) = 8"
    using filp_lengths_same [OF S1(1)] filp_lengths_set_fd [of S _ "unat fd" None] ok d(4)
    by (auto simp: refs_ok_def)
  have counts: "unat (fcount S1 g) = fd_refs S1 g + m g" for g
    using e(1,2) refs [of g] d(1) [of g] pos minus by (auto simp: fun_eq_iff)
  have fin: "f \<in> set (files S)" using d(2) [of f] cnt by (simp add: word_gt_0)
  have ok': "refs_ok m S'"
  proof (cases "0 < fcount S f - 1")
    case True
    then show ?thesis
      using S1(2) counts len e d fin by (auto simp: refs_ok_def)
  next
    case False
    then have "fcount S f = 1" by (simp add: word_gt_0)
    then have "S' = free_file f S1" "fcount S1 f = 0" using S1(2) e(1) by auto
    moreover have "fcount (free_file f S1) = fcount S1" "fd_refs (free_file f S1) = fd_refs S1"
      by (simp_all add: fun_eq_iff free_file_def fcount_def fd_refs_def)
    ultimately show ?thesis
      using counts len e d by (auto simp: refs_ok_def free_file_def in_set_remove1)
  qed
  have "f \<in> set (files S') \<longleftrightarrow> 0 < fcount S f - 1"
    using S1(2) e(5) d(3) fin by (auto simp: free_file_def)
  also have "\<dots> \<longleftrightarrow> 1 < fd_refs S f + m f"
    using minus d(1) [of f] by (simp add: word_less_nat_alt less_diff_conv)
  finally have "f \<in> set (files S') \<longleftrightarrow> 1 < fd_refs S f + m f" .
  moreover have "filp (curp S') = (filp (curp S))[unat fd := None]"
    using S1(2) e(6) curp_set_fd [OF d(4)] d(4) by (simp add: free_file_def curp_def)
  moreover have "\<forall>g. g \<noteq> f \<longrightarrow> (g \<in> set (files S') \<longleftrightarrow> g \<in> set (files S))"
    using S1(2) e(5) by (auto simp: free_file_def in_set_remove1)
  ultimately show ?thesis using Some r ok' by simp
qed

end

section \<open>Properties\<close>

text \<open>
  C18: duplicating a descriptor.  When the counts are right and small enough not to wrap, \<^verbatim>\<open>F_DUPFD\<close>
  on an open descriptor makes the lowest free descriptor from the given one on refer to the same
  file, raises the count of the file by one, and leaves all counts right; when no descriptor is
  free it fails without an effect.
\<close>

theorem do_dup_correct:
  assumes ok: "refs_ok m S" and fd: "0 \<le> fd" "fd < NR_FILES" "filp (curp S) ! nat fd = Some f"
    and start: "0 \<le> start" and bound: "fd_refs S f + m f + 1 < 65536"
  shows "\<exists>r S'. do_dup fd start S = Ret (r, S') \<and> refs_ok m S' \<and>
    (case r of
       Inl e \<Rightarrow> S' = S \<and> (\<forall>i. start \<le> int i \<and> i < 8 \<longrightarrow> filp (curp S) ! i \<noteq> None)
     | Inr n \<Rightarrow> start \<le> n \<and> n < NR_FILES \<and> filp (curp S) ! nat n = None \<and>
         (\<forall>i. start \<le> int i \<and> int i < n \<longrightarrow> filp (curp S) ! i \<noteq> None) \<and>
         filp (curp S') = (filp (curp S))[nat n := Some f] \<and> fcount S' f = fcount S f + 1)"
proof (cases "get_fd (curp S) (nat start)")
  case (Inl e)
  then have "do_dup fd start S = Ret (Inl e, S)"
    using fd start by (simp add: do_dup_def fd_ok_def)
  moreover have "\<forall>i. start \<le> int i \<and> i < 8 \<longrightarrow> filp (curp S) ! i \<noteq> None"
    using Inl start by (auto simp: get_fd_def get_fd_from_Inl split: if_splits)
  ultimately show ?thesis using ok by auto
next
  case (Inr n)
  note d = refs_okD [OF ok]
  let ?S = "set_fcount f (fcount S f + 1) (set_fd n (Some f) S)"
  have n: "nat start \<le> n" "n < 8" "filp (curp S) ! n = None" "\<forall>i. nat start \<le> i \<and> i < n \<longrightarrow> filp (curp S) ! i \<noteq> None"
    using Inr by (simp_all add: get_fd_Inr)
  have "0 < fd_refs S f" using fd_refs_pos [OF d(4) _ fd(3)] fd(1,2) d(5) by auto
  then have "0 < fcount S f" using d(1) [of f] by (simp add: word_less_nat_alt)
  then have "refs_ok m ?S" using refs_ok_add [OF ok n(2,3) _ bound] by simp
  moreover have "do_dup fd start S = Ret (Inr (int n), ?S)"
    using Inr fd start n(3) by (simp add: do_dup_def fd_ok_def dupfd_def)
  moreover have "filp (curp ?S) = (filp (curp S))[n := Some f]" using curp_set_fd [OF d(4)] by simp
  ultimately show ?thesis using n start by (intro exI [of _ "Inr (int n)"] exI [of _ ?S]) auto
qed

text \<open>A system in which the current process has one file open, as descriptor 0.\<close>

definition vm0 :: vm_state where
  "vm0 = \<lparr>mm = mm0, privs = (\<lambda>_. \<lparr>pfile = 0, poff = 0, plen = 0, pref = 0\<rparr>), next_priv = 0,
     f_count = (\<lambda>f. if f = 0 then 1 else 0), allocs = []\<rparr>"

definition ksys0 :: ksys where
  "ksys0 = \<lparr>kern = upd_pcb 1 (\<lambda>c. c\<lparr>filp := (filp c)[0 := Some 0]\<rparr>) kernel0, vms = vm0,
     ftab = (\<lambda>_. \<lparr>f_inode = None, f_mode = 3, f_rdev = 0, f_pos = 0, f_flags = 0, f_private = 0, f_op = None\<rparr>),
     files = [0], next_file = 1,
     itab = (\<lambda>_. \<lparr>i_ino = 0, i_mode = 0, i_nlink = 0, i_dev = 0, i_rdev = 0, i_size = 0, i_count = 0, i_flags = 0,
       i_dirt = False, i_mount = None, i_fops = None, i_sb = None\<rparr>),
     inodes = (\<lambda>_. []), next_inode = 0, sbs = (\<lambda>_. \<lparr>s_dev = 0, s_flags = 0, s_op = None\<rparr>),
     pipes = (\<lambda>_. \<lparr>pbuf = fst (flexbuf_alloc 0 store0), write_end = None, read_end = None, read_wait = [],
       write_wait = []\<rparr>), next_pipe = 0, pstore = store0\<rparr>"

lemma proctab_ksys0:
  "proctab (kern ksys0) = [pcb0 256 PROC_READY, (pcb0 1 PROC_READY)\<lparr>filp := Some 0 # replicate 7 None\<rparr>,
     pcb0 2 PROC_INTERRUPTIBLE, pcb0 3 PROC_READY]"
  by (simp add: ksys0_def upd_pcb_def kernel0_def numeral_eq_Suc)

lemma ksys0_simps:
  "current (kern ksys0) = 1" "filp (curp ksys0) = Some 0 # replicate 7 None" "files ksys0 = [0]"
  "fcount ksys0 f = (if f = 0 then 1 else 0)" "fd_refs ksys0 f = (if f = 0 then 1 else 0)"
  "length (proctab (kern ksys0)) = 4"
proof -
  show c: "current (kern ksys0) = 1" "files ksys0 = [0]" by (simp_all add: ksys0_def)
  show "filp (curp ksys0) = Some 0 # replicate 7 None"
    by (simp add: curp_def cur_def pcb_at_def c proctab_ksys0)
  show "fcount ksys0 f = (if f = 0 then 1 else 0)" by (simp add: ksys0_def fcount_def vm0_def)
  show "fd_refs ksys0 f = (if f = 0 then 1 else 0)" by (simp add: fd_refs_def proctab_ksys0 numeral_eq_Suc)
  show "length (proctab (kern ksys0)) = 4" by (simp add: proctab_ksys0)
qed

lemma ksys0_ok: "refs_ok (\<lambda>_. 0) ksys0"
proof -
  have "\<forall>c \<in> set (proctab (kern ksys0)). length (filp c) = 8"
    by (simp add: proctab_ksys0)
  then show ?thesis by (simp add: refs_ok_def ksys0_simps)
qed

theorem do_dup_correct_witness:
  "\<exists>S'. do_dup 0 0 ksys0 = Ret (Inr 1, S') \<and> refs_ok (\<lambda>_. 0) S' \<and> fcount S' 0 = 2"
proof -
  obtain r S' where r: "do_dup 0 0 ksys0 = Ret (r, S')" "refs_ok (\<lambda>_. 0) S'"
    "case r of
       Inl e \<Rightarrow> S' = ksys0 \<and> (\<forall>i. 0 \<le> int i \<and> i < 8 \<longrightarrow> filp (curp ksys0) ! i \<noteq> None)
     | Inr n \<Rightarrow> 0 \<le> n \<and> n < NR_FILES \<and> filp (curp ksys0) ! nat n = None \<and>
         (\<forall>i. 0 \<le> int i \<and> int i < n \<longrightarrow> filp (curp ksys0) ! i \<noteq> None) \<and>
         filp (curp S') = (filp (curp ksys0))[nat n := Some 0] \<and> fcount S' 0 = fcount ksys0 0 + 1"
    using do_dup_correct [OF ksys0_ok, of 0 0 0] by (auto simp: ksys0_simps)
  have "r = Inr 1"
    using r(1) by (simp add: do_dup_def fd_ok_def ksys0_simps get_fd_def dupfd_def numeral_eq_Suc)
  then show ?thesis using r by (simp add: ksys0_simps)
qed

end
