(* ===== verification/Pipe.thy ===== *)
theory Pipe
  imports Files
begin

text \<open>
  Pipes, \<^verbatim>\<open>src/fs/pipe.c\<close>: a flexible buffer with a reading and a writing file.  Reading from an
  empty pipe and writing to a full one puts the process on a wait queue; the functions with the
  suffix \<open>_resume\<close> continue after \<^verbatim>\<open>schedule()\<close>.  The theory shows that what is written is what is
  read, in order, and that closing either end keeps the reference counts right.
\<close>

section \<open>Definitions\<close>

abbreviation (input) PIPE_BUF :: u32 where "PIPE_BUF \<equiv> 4096"
abbreviation (input) O_NONBLOCK :: u16 where "O_NONBLOCK \<equiv> 0x1000"

definition upd_pipe :: "nat \<Rightarrow> (pipe_private \<Rightarrow> pipe_private) \<Rightarrow> ksys \<Rightarrow> ksys" where
  "upd_pipe p g S = S\<lparr>pipes := (pipes S)(p := g (pipes S p))\<rparr>"

definition pipe_lseek :: "nat option \<Rightarrow> nat \<Rightarrow> u32 \<Rightarrow> u32 \<Rightarrow> ksys \<Rightarrow> ((errno + u32) \<times> ksys) outcome" where
  "pipe_lseek inode f pos whence S = Ret (Inl ESPIPE, S)"

definition pipe_read :: "nat \<Rightarrow> u32 \<Rightarrow> u32 \<Rightarrow> ksys \<Rightarrow> ((errno + u8 list) call \<times> u32 \<times> ksys) outcome" where
  "pipe_read f len pos S =
     (let p = f_private (ftab S f); pipe = pipes S p
      in bind_outcome (flexbuf_dequeue (pbuf pipe) len (pstore S)) (\<lambda>(bs, fb).
           let S = upd_pipe p (\<lambda>x. x\<lparr>pbuf := fb\<rparr>) S
           in if bs \<noteq> [] then Ret (Done (Inr bs), pos, S\<lparr>kern := wake_all (write_wait pipe) 0 (kern S)\<rparr>)
              else if write_end pipe = None then Ret (Done (Inr []), pos, S)
              else if f_flags (ftab S f) AND O_NONBLOCK \<noteq> 0 then Ret (Done (Inl EAGAIN), pos, S)
              else
                let (q, k) = wait_interruptible (read_wait pipe) (kern S)
                in Ret (Blocked, pos, (upd_pipe p (\<lambda>x. x\<lparr>read_wait := q\<rparr>) S)\<lparr>kern := k\<rparr>)))"

definition pipe_read_resume :: "nat \<Rightarrow> u32 \<Rightarrow> u32 \<Rightarrow> ksys \<Rightarrow> ((errno + u8 list) call \<times> u32 \<times> ksys) outcome" where
  "pipe_read_resume f len pos S =
     (let p = f_private (ftab S f);
          (r, q) = wait_interruptible_resume (read_wait (pipes S p)) (kern S);
          S = upd_pipe p (\<lambda>x. x\<lparr>read_wait := q\<rparr>) S
      in if r \<noteq> 0 then Ret (Done (Inl EINTR), pos, S) else pipe_read f len pos S)"

definition pipe_headroom :: "pipe_private \<Rightarrow> u32" where
  "pipe_headroom pipe = PIPE_BUF - fsize (pbuf pipe)"

text \<open>
  One pass through the loop of \<^verbatim>\<open>pipe_do_write\<close>: the bytes written so far, and whether the process
  sleeps before the next pass.
\<close>

definition pipe_do_write :: "nat \<Rightarrow> u8 list \<Rightarrow> u32 \<Rightarrow> ksys \<Rightarrow> (u32 call \<times> u32 \<times> ksys) outcome" where
  "pipe_do_write p src nr_bytes S =
     (let len = of_nat (length src);
          pipe = pipes S p;
          this_len = min (len - nr_bytes) (pipe_headroom pipe)
      in bind_outcome
           (flexbuf_enqueue (pbuf pipe) (take (unat this_len) (drop (unat nr_bytes) src)) this_len (pstore S))
           (\<lambda>(this_bytes, fb, M).
              let S = (upd_pipe p (\<lambda>x. x\<lparr>pbuf := fb\<rparr>) S)\<lparr>pstore := M\<rparr>;
                  S = (if this_bytes \<noteq> 0 then S\<lparr>kern := wake_all (read_wait pipe) 0 (kern S)\<rparr> else S);
                  nr_bytes = nr_bytes + this_bytes
              in if nr_bytes = len then Ret (Done nr_bytes, nr_bytes, S)
                 else
                   let (q, k) = wait_interruptible (write_wait pipe) (kern S)
                   in Ret (Blocked, nr_bytes, (upd_pipe p (\<lambda>x. x\<lparr>write_wait := q\<rparr>) S)\<lparr>kern := k\<rparr>)))"

text \<open>After the sleep; an interrupted write returns what was written, and \<^verbatim>\<open>-EINTR\<close> if nothing was.\<close>

definition pipe_do_write_resume :: "nat \<Rightarrow> u8 list \<Rightarrow> u32 \<Rightarrow> ksys \<Rightarrow> (u32 call \<times> u32 \<times> ksys) outcome" where
  "pipe_do_write_resume p src nr_bytes S =
     (let (r, q) = wait_interruptible_resume (write_wait (pipes S p)) (kern S);
          S = upd_pipe p (\<lambda>x. x\<lparr>write_wait := q\<rparr>) S
      in if r \<noteq> 0 then Ret (Done (if nr_bytes \<noteq> 0 then nr_bytes else - 28), nr_bytes, S)
         else pipe_do_write p src nr_bytes S)"

text \<open>
  The loop of \<^verbatim>\<open>pipe_write\<close> over blocks, once \<open>nr_bytes\<close> are written; \<open>n\<close> bounds the number of blocks
  still to be written.  The result of a block, also \<^verbatim>\<open>-EINTR\<close>, is added to the count.
\<close>

datatype pipe_wait = Written u32 | Sleeping u32 u32

fun pipe_write_loop :: "nat \<Rightarrow> nat \<Rightarrow> u8 list \<Rightarrow> u32 \<Rightarrow> ksys \<Rightarrow> (pipe_wait \<times> ksys) outcome" where
  "pipe_write_loop n p src nr_bytes S =
     (if nr_bytes < of_nat (length src) then
        (case n of
           0 \<Rightarrow> Stuck
         | Suc n \<Rightarrow>
             let this_len = min (of_nat (length src) - nr_bytes) PIPE_BUF;
                 block = take (unat this_len) (drop (unat nr_bytes) src)
             in bind_outcome (pipe_do_write p block 0 S) (\<lambda>(r, nr, S).
                  case r of
                    Done k \<Rightarrow> pipe_write_loop n p src (nr_bytes + k) S
                  | Blocked \<Rightarrow> Ret (Sleeping nr_bytes nr, S)))
      else Ret (Written nr_bytes, S))"

declare pipe_write_loop.simps [simp del]

definition pipe_write :: "nat \<Rightarrow> u8 list \<Rightarrow> u32 \<Rightarrow> ksys \<Rightarrow> ((errno + u32) call \<times> u32 \<times> ksys) outcome" where
  "pipe_write f src pos S =
     (let p = f_private (ftab S f); pipe = pipes S p;
          len = of_nat (length src); headroom = pipe_headroom pipe;
          nonblock = f_flags (ftab S f) AND O_NONBLOCK \<noteq> 0
      in if nonblock \<and> len \<le> PIPE_BUF \<and> len > headroom then Ret (Done (Inl EAGAIN), pos, S)
         else if nonblock \<and> len > PIPE_BUF \<and> headroom = 0 then Ret (Done (Inl EAGAIN), pos, S)
         else if nonblock \<and> len > PIPE_BUF then
           bind_outcome (flexbuf_enqueue (pbuf pipe) (take (unat headroom) src) headroom (pstore S))
             (\<lambda>(nr, fb, M). Ret (Done (Inr nr), pos, (upd_pipe p (\<lambda>x. x\<lparr>pbuf := fb\<rparr>) S)\<lparr>pstore := M\<rparr>))
         else
           bind_outcome (pipe_write_loop (length src) p src 0 S) (\<lambda>(w, S).
             case w of
               Written nr \<Rightarrow> Ret (Done (Inr nr), pos, S)
             | Sleeping nr_bytes nr \<Rightarrow> Ret (Blocked, pos, S)))"

text \<open>Freeing the pipe itself leaves no trace in the tables.\<close>

definition pipe_release :: "nat option \<Rightarrow> nat \<Rightarrow> ksys \<Rightarrow> ksys outcome" where
  "pipe_release inode f S =
     (let p = f_private (ftab S f);
          S = (if read_end (pipes S p) = Some f then
                 (upd_pipe p (\<lambda>x. x\<lparr>read_end := None\<rparr>) S)
                   \<lparr>kern := wake_all (write_wait (pipes S p)) 0 (kern S)\<rparr>
               else S);
          S = (if write_end (pipes S p) = Some f then
                 (upd_pipe p (\<lambda>x. x\<lparr>write_end := None\<rparr>) S)
                   \<lparr>kern := wake_all (read_wait (pipes S p)) 0 (kern S)\<rparr>
               else S)
      in Ret S)"

text \<open>\<^verbatim>\<open>pipe_read_operations\<close> is table 1, \<^verbatim>\<open>pipe_write_operations\<close> table 2.\<close>

definition pipe_ops :: op_tables where
  "pipe_ops = \<lparr>op_lseek = (\<lambda>n. if n = 1 \<or> n = 2 then Some pipe_lseek else None),
     op_read = (\<lambda>n. if n = 1 then Some pipe_read else None),
     op_write = (\<lambda>n. if n = 2 then Some pipe_write else None),
     op_readdir = (\<lambda>_. None), op_open = (\<lambda>_. None),
     op_release = (\<lambda>n. if n = 1 \<or> n = 2 then Some pipe_release else None), op_ioctl = (\<lambda>_. None),
     op_read_inode = (\<lambda>_. None), op_write_inode = (\<lambda>_. None), op_put_inode = (\<lambda>_. None)\<rparr>"

text \<open>
  \<^verbatim>\<open>sys_pipe\<close>, for memory that is available: \<open>m1\<close> and \<open>m2\<close> say whether there is a slab for each file.
  A missing file is noticed only when its fields are set.  The result is the pair of descriptors.
\<close>

definition sys_pipe :: "bool \<Rightarrow> bool \<Rightarrow> u32 \<Rightarrow> u32 \<Rightarrow> u32 \<Rightarrow> ksys \<Rightarrow> ((errno + nat \<times> nat) \<times> ksys) outcome" where
  "sys_pipe m1 m2 rptr wptr flags S =
     (if \<not> cur_verify (kern S) rptr 4 VM_WRITE then Ret (Inl EFAULT, S)
      else if \<not> cur_verify (kern S) wptr 4 VM_WRITE then Ret (Inl EFAULT, S)
      else
        let (rf, S) = get_empty_file m1 S;
            (wf, S) = get_empty_file m2 S;
            p = next_pipe S;
            S = S\<lparr>next_pipe := Suc p\<rparr>
        in (case get_fd (curp S) 0 of
              Inl e \<Rightarrow> Ret (Inl e, S)
            | Inr read_fd \<Rightarrow>
                let S = set_fd read_fd rf S
                in (case get_fd (curp S) 0 of
                      Inl e \<Rightarrow> Ret (Inl e, set_fd read_fd None S)
                    | Inr write_fd \<Rightarrow>
                        let S = set_fd write_fd wf S;
                            (fb, M) = flexbuf_alloc 0 (pstore S);
                            S = (upd_pipe p (\<lambda>_. \<lparr>pbuf = fb, write_end = wf, read_end = rf, read_wait = [],
                                   write_wait = []\<rparr>) S)\<lparr>pstore := M\<rparr>
                        in (case (rf, wf) of
                              (Some r, Some w) \<Rightarrow>
                                let S = upd_file r (\<lambda>x. x\<lparr>f_inode := None, f_flags := ucast flags, f_rdev := 0,
                                          f_mode := 1, f_op := Some 1, f_private := p\<rparr>) S;
                                    S = upd_file w (\<lambda>x. x\<lparr>f_inode := None, f_flags := ucast flags, f_rdev := 0,
                                          f_mode := 2, f_op := Some 2, f_private := p\<rparr>) S;
                                    S = set_fd read_fd rf S
                                in Ret (Inr (read_fd, write_fd), set_fd write_fd wf S)
                            | _ \<Rightarrow> Stuck))))"

section \<open>The operations keep the references\<close>

lemma map_update_same:
  "(i < length xs \<Longrightarrow> g c = g (xs ! i)) \<Longrightarrow> map g (xs[i := c]) = map g xs"
  by (cases "i < length xs") (auto simp: map_update list_update_beyond intro: list_update_same_conv [THEN iffD2])

lemma filp_wake: "map filp (proctab (wake p r k)) = map filp (proctab k)"
  by (auto simp: wake_def ready_def set_state_def upd_pcb_def map_update_same nth_list_update)

lemma current_wake_all: "current (wake_all q r k) = current k"
  by (induction q arbitrary: k) simp_all

lemma filp_wake_all: "map filp (proctab (wake_all q r k)) = map filp (proctab k)"
  by (induction q arbitrary: k) (simp_all add: filp_wake)

lemma pipe_release_frame: "pipe_release i f S = Ret S' \<Longrightarrow> same_refs S S'"
  by (auto simp: pipe_release_def same_refs_def upd_pipe_def filp_wake_all current_wake_all Let_def)

interpretation pipe_files: file_ops pipe_ops
proof
  show "op_release pipe_ops n = Some rel \<Longrightarrow> rel i f S = Ret S' \<Longrightarrow> same_refs S S'" for n rel i f S S'
    by (auto simp: pipe_ops_def pipe_release_frame split: if_splits)
  show "op_put_inode pipe_ops n = Some put \<Longrightarrow> same_refs S (put j S)" for n put S j
    by (simp add: pipe_ops_def)
qed

section \<open>Writing and reading\<close>

lemma pipe_do_write_fits:
  assumes ok: "fb_ok (pbuf (pipes S p)) (pstore S)" and ne: "src \<noteq> []"
    and fit: "unat (fsize (pbuf (pipes S p))) + length src \<le> 4096"
  shows "\<exists>fb M k nr. pipe_do_write p src 0 S =
      Ret (Done (of_nat (length src)), nr, (upd_pipe p (\<lambda>x. x\<lparr>pbuf := fb\<rparr>) S)\<lparr>pstore := M, kern := k\<rparr>) \<and>
    fb_ok fb M \<and> bytes fb M = bytes (pbuf (pipes S p)) (pstore S) @ src"
proof -
  let ?fb = "pbuf (pipes S p)" and ?len = "of_nat (length src) :: u32"
  have len: "unat ?len = length src" using fit by (simp add: unat_of_nat)
  have "unat (4096 - fsize ?fb) = 4096 - unat (fsize ?fb)"
    using fit by (simp add: unat_sub word_le_nat_alt)
  then have "?len \<le> 4096 - fsize ?fb" using fit len by (simp add: word_le_nat_alt)
  then have this_len: "min ?len (pipe_headroom (pipes S p)) = ?len" by (simp add: pipe_headroom_def min_def)
  obtain fb M where e: "flexbuf_enqueue ?fb src ?len (pstore S) = Ret (?len, fb, M)" "fb_ok fb M"
      "bytes fb M = bytes ?fb (pstore S) @ src"
    using flexbuf_enqueue_ok [OF ok, of ?len src] len ne fit fb_okD(1) [OF ok] by auto
  have "?len \<noteq> 0" using len ne by (metis length_0_conv unat_0)
  then have "pipe_do_write p src 0 S = Ret (Done ?len, ?len,
      (upd_pipe p (\<lambda>x. x\<lparr>pbuf := fb\<rparr>) S)\<lparr>pstore := M, kern := wake_all (read_wait (pipes S p)) 0 (kern S)\<rparr>)"
    using e(1) this_len len by (simp add: pipe_do_write_def Let_def upd_pipe_def)
  then show ?thesis using e by blast
qed

lemma pipe_write_fits:
  assumes ok: "fb_ok (pbuf (pipes S p)) (pstore S)" and ne: "src \<noteq> []" and f: "f_private (ftab S f) = p"
    and fit: "unat (fsize (pbuf (pipes S p))) + length src \<le> 4096"
  shows "\<exists>fb M k. pipe_write f src pos S =
      Ret (Done (Inr (of_nat (length src))), pos, (upd_pipe p (\<lambda>x. x\<lparr>pbuf := fb\<rparr>) S)\<lparr>pstore := M, kern := k\<rparr>) \<and>
    fb_ok fb M \<and> bytes fb M = bytes (pbuf (pipes S p)) (pstore S) @ src"
proof -
  let ?len = "of_nat (length src) :: u32"
  have len: "unat ?len = length src" using fit by (simp add: unat_of_nat)
  obtain n where n: "length src = Suc n" using ne by (cases src) auto
  have small: "?len \<le> 4096" "\<not> 4096 < ?len" "0 < ?len"
    using len fit n by (simp_all add: word_le_nat_alt word_less_nat_alt)
  have "unat (4096 - fsize (pbuf (pipes S p))) = 4096 - unat (fsize (pbuf (pipes S p)))"
    using fit by (simp add: unat_sub word_le_nat_alt)
  then have room: "\<not> pipe_headroom (pipes S p) < ?len"
    using fit len by (simp add: word_less_nat_alt pipe_headroom_def)
  obtain fb M k nr where w: "pipe_do_write p src 0 S =
      Ret (Done ?len, nr, (upd_pipe p (\<lambda>x. x\<lparr>pbuf := fb\<rparr>) S)\<lparr>pstore := M, kern := k\<rparr>)"
      "fb_ok fb M" "bytes fb M = bytes (pbuf (pipes S p)) (pstore S) @ src"
    using pipe_do_write_fits [OF ok ne fit] by blast
  have "pipe_write_loop (length src) p src 0 S =
      Ret (Written ?len, (upd_pipe p (\<lambda>x. x\<lparr>pbuf := fb\<rparr>) S)\<lparr>pstore := M, kern := k\<rparr>)"
    using w(1) small len n
    by (subst pipe_write_loop.simps) (simp add: min_def, simp add: pipe_write_loop.simps)
  then show ?thesis
    using small room f w(2,3) by (simp add: pipe_write_def Let_def) blast
qed

section \<open>Properties\<close>

text \<open>
  C17: what is written to a pipe is what is read.  A write of at least one byte for which the pipe has
  room completes at once, whether or not the file is blocking, and appends its bytes, unbroken, to
  those in the pipe; a read that follows returns the oldest bytes, as many as it asks for and the
  pipe has, and leaves the rest.
\<close>

theorem pipe_transfer:
  assumes ok: "fb_ok (pbuf (pipes S p)) (pstore S)" and ne: "src \<noteq> []" "0 < n"
    and ends: "f_private (ftab S w) = p" "f_private (ftab S r) = p"
    and fit: "length (bytes (pbuf (pipes S p)) (pstore S)) + length src \<le> 4096"
  shows "\<exists>S1 S2. pipe_write w src wpos S = Ret (Done (Inr (of_nat (length src))), wpos, S1) \<and>
    pipe_read r n rpos S1 =
      Ret (Done (Inr (take (unat n) (bytes (pbuf (pipes S p)) (pstore S) @ src))), rpos, S2) \<and>
    fb_ok (pbuf (pipes S2 p)) (pstore S2) \<and>
    bytes (pbuf (pipes S2 p)) (pstore S2) = drop (unat n) (bytes (pbuf (pipes S p)) (pstore S) @ src)"
proof -
  let ?B = "bytes (pbuf (pipes S p)) (pstore S) @ src"
  obtain fb M k where w: "pipe_write w src wpos S =
      Ret (Done (Inr (of_nat (length src))), wpos, (upd_pipe p (\<lambda>x. x\<lparr>pbuf := fb\<rparr>) S)\<lparr>pstore := M, kern := k\<rparr>)"
      "fb_ok fb M" "bytes fb M = ?B"
    using pipe_write_fits [OF ok ne(1) ends(1), of wpos] fit length_bytes [OF ok] by auto
  let ?S1 = "(upd_pipe p (\<lambda>x. x\<lparr>pbuf := fb\<rparr>) S)\<lparr>pstore := M, kern := k\<rparr>"
  have n: "0 < unat n" using ne(2) by (simp add: word_less_nat_alt)
  have sz: "0 < unat (fsize fb)" using length_bytes [OF w(2)] w(3) ne(1) by (cases src) auto
  obtain fb' where d: "flexbuf_dequeue fb n M = Ret (take (unat n) ?B, fb')" "fb_ok fb' M" "bytes fb' M = drop (unat n) ?B"
    using flexbuf_dequeue_ok [OF w(2) n sz] w(3) by auto
  have "take (unat n) ?B \<noteq> []" using n ne(1) by simp
  then have "\<exists>S2. pipe_read r n rpos ?S1 = Ret (Done (Inr (take (unat n) ?B)), rpos, S2) \<and>
      pbuf (pipes S2 p) = fb' \<and> pstore S2 = M"
    using d(1) ends(2) by (simp add: pipe_read_def upd_pipe_def Let_def)
  then show ?thesis using w(1) d(2,3) by blast
qed

lemma fb_ok_ksys0: "fb_ok (pbuf (pipes ksys0 p)) (pstore ksys0)" "bytes (pbuf (pipes ksys0 p)) (pstore ksys0) = []"
proof -
  have "snd (flexbuf_alloc 0 store0) = store0" by (simp add: flexbuf_alloc_def off_to_page_def Let_def)
  then show "fb_ok (pbuf (pipes ksys0 p)) (pstore ksys0)" "bytes (pbuf (pipes ksys0 p)) (pstore ksys0) = []"
    using fb_ok_alloc [of store0] by (simp_all add: ksys0_def store0_def)
qed

theorem pipe_transfer_witness:
  "\<exists>S1 S2. pipe_write 0 [7, 8, 9] 0 ksys0 = Ret (Done (Inr 3), 0, S1) \<and>
     pipe_read 1 2 0 S1 = Ret (Done (Inr [7, 8]), 0, S2) \<and> bytes (pbuf (pipes S2 0)) (pstore S2) = [9]"
proof -
  have "f_private (ftab ksys0 f) = 0" for f by (simp add: ksys0_def)
  then show ?thesis
    using pipe_transfer [OF fb_ok_ksys0(1), of "[7, 8, 9]" 2 0 0 1 0 0] fb_ok_ksys0(2) [of 0] by auto
qed

text \<open>
  C19: closing an end of a pipe.  When the reference counts are right, closing a descriptor of a pipe
  succeeds, clears the descriptor, keeps all reference counts right, and frees the file exactly if
  no other descriptor or mapping refers to it.
\<close>

theorem pipe_close_refs:
  assumes ok: "refs_ok m S" and fd: "fd_lookup fd S = Some f" and pipe: "f_inode (ftab S f) = None"
  shows "\<exists>S'. sys_close pipe_ops fd S = Ret (Inr (), S') \<and> refs_ok m S' \<and>
    filp (curp S') = (filp (curp S))[unat fd := None] \<and>
    (f \<in> set (files S') \<longleftrightarrow> 1 < fd_refs S f + m f) \<and>
    (\<forall>g. g \<noteq> f \<longrightarrow> (g \<in> set (files S') \<longleftrightarrow> g \<in> set (files S)))"
proof -
  have rel: "\<exists>S'. pipe_release i f T = Ret S' \<and> ftab S' = ftab T" for i T
    by (auto simp: pipe_release_def upd_pipe_def Let_def)
  have "\<exists>S'. file_unref pipe_ops f T = Ret S'" if T: "ftab T = ftab S" for T
  proof -
    let ?T = "set_fcount f (fcount T f - 1) T"
    let ?R = "case opt_op (f_op (ftab ?T f)) (op_release pipe_ops) of
      None \<Rightarrow> Ret ?T | Some release \<Rightarrow> release (f_inode (ftab ?T f)) f ?T"
    have "\<exists>S1. ?R = Ret S1 \<and> ftab S1 = ftab S"
    proof (cases "opt_op (f_op (ftab ?T f)) (op_release pipe_ops)")
      case (Some release)
      then have "release = pipe_release" by (auto simp: opt_op_def pipe_ops_def split: option.splits if_splits)
      then show ?thesis using Some rel [of "f_inode (ftab ?T f)" ?T] T by auto
    qed (simp add: T)
    then obtain S1 where S1: "?R = Ret S1" "ftab S1 = ftab S" by blast
    have "iput pipe_ops (f_inode (ftab S1 f)) S1 = Ret S1" using S1(2) pipe by (simp add: iput_def)
    then show ?thesis using S1(1) by (simp add: file_unref_def Let_def)
  qed
  then obtain r S' where "sys_close pipe_ops fd S = Ret (r, S')"
    using fd by (fastforce simp: sys_close_def fd_lookup_def Let_def split: if_splits)
  then show ?thesis using pipe_files.close_keeps_refs [OF ok] fd by fastforce
qed

theorem pipe_close_refs_witness:
  "\<exists>S'. sys_close pipe_ops 0 ksys0 = Ret (Inr (), S') \<and> refs_ok (\<lambda>_. 0) S' \<and> 0 \<notin> set (files S')"
proof -
  have "fd_lookup 0 ksys0 = Some 0" "f_inode (ftab ksys0 0) = None"
    by (simp_all add: fd_lookup_def ksys0_simps) (simp add: ksys0_def)
  then show ?thesis using pipe_close_refs [OF ksys0_ok, of 0 0] by (auto simp: ksys0_simps)
qed

end
