(* ===== verification/Process.thy ===== *)
theory Process
  imports Pipe
begin

text \<open>
  Processes, \<^verbatim>\<open>src/dispatch/process.c\<close> and the status macros of \<^verbatim>\<open>src/include/telos/wait.h\<close>: creation,
  \<^verbatim>\<open>fork\<close>, \<^verbatim>\<open>execve\<close> with its loading of ELF files, \<^verbatim>\<open>exit\<close> and \<^verbatim>\<open>waitid\<close>, on the state of theory
  \<open>Files\<close>.  An operation on the address space of a process works on its \<open>pmm\<close> within the state of
  theory \<open>Vma\<close>.  The \<^verbatim>\<open>child_chain\<close> node of a process is on the list \<open>children\<close> that holds its index;
  taking it off when it is on none sets \<open>chain_bad\<close>.  Addresses that the linker assigns and the
  inode of the root directory are parameters.

  The properties show that process ids stay unique and find their process, what a forked child
  shares with its parent, that the value of \<^verbatim>\<open>exit\<close> reaches \<^verbatim>\<open>waitid\<close>, that the arguments of
  \<^verbatim>\<open>execve\<close> survive the change of address space, and what orphans cost.
\<close>

section \<open>Status values\<close>

abbreviation (input) WS_CONTINUED :: u32 where "WS_CONTINUED \<equiv> 0"
abbreviation (input) WS_EXITED :: u32 where "WS_EXITED \<equiv> 1"
abbreviation (input) WS_SIGNALED :: u32 where "WS_SIGNALED \<equiv> 2"
abbreviation (input) WS_STOPPED :: u32 where "WS_STOPPED \<equiv> 3"

abbreviation (input) WCONTINUED :: u32 where "WCONTINUED \<equiv> 1"
abbreviation (input) WEXITED :: u32 where "WEXITED \<equiv> 2"
abbreviation (input) WSTOPPED :: u32 where "WSTOPPED \<equiv> 8"
abbreviation (input) WNOHANG :: u32 where "WNOHANG \<equiv> 16"

definition WHOW :: "u32 \<Rightarrow> u32" where "WHOW s = s AND 3"
definition WVALUE :: "u32 \<Rightarrow> u32" where "WVALUE s = drop_bit 2 (s AND NOT 3)"
definition WEXITSTATUS :: "u32 \<Rightarrow> u32" where "WEXITSTATUS s = drop_bit 2 (s AND 0x3FC)"
definition WIFEXITED :: "u32 \<Rightarrow> bool" where "WIFEXITED s \<longleftrightarrow> s AND 3 = WS_EXITED"
definition WIFSIGNALED :: "u32 \<Rightarrow> bool" where "WIFSIGNALED s \<longleftrightarrow> s AND 3 = WS_SIGNALED"

definition make_status :: "u32 \<Rightarrow> u32 \<Rightarrow> u32" where
  "make_status how val = (how AND 3) OR push_bit 2 val"

definition status_to_si_code :: "u32 \<Rightarrow> int" where
  "status_to_si_code s =
     (if WHOW s = WS_CONTINUED then 29 else if WHOW s = WS_EXITED then 24
      else if WHOW s = WS_SIGNALED then 25 else if WHOW s = WS_STOPPED then 28 else 0)"

text \<open>A status entry keeps the status word as an integer; \<open>stat_word\<close> is the word.\<close>

definition stat_word :: "proc_status \<Rightarrow> u32" where
  "stat_word s = of_int (st_status s)"

definition upd_proc :: "nat \<Rightarrow> (pcb \<Rightarrow> pcb) \<Rightarrow> ksys \<Rightarrow> ksys" where
  "upd_proc p g S = S\<lparr>kern := upd_pcb p g (kern S)\<rparr>"

definition assert_status :: "nat \<Rightarrow> proc_status \<Rightarrow> kernel \<Rightarrow> kernel" where
  "assert_status parent s k =
     do_kill parent SIGCHLD (status_to_si_code (stat_word s))
       (upd_pcb parent (\<lambda>c. c\<lparr>child_stats := child_stats c @ [s]\<rparr>) k)"

text \<open>\<^verbatim>\<open>report_status\<close>; a process without parent is a panic.\<close>

definition report_status :: "nat \<Rightarrow> u32 \<Rightarrow> u32 \<Rightarrow> ksys \<Rightarrow> ksys outcome" where
  "report_status p how val S =
     (case get_pcb (parent_pid (pcb_at (kern S) p)) (kern S) of
        None \<Rightarrow> Stuck
      | Some parent \<Rightarrow>
          (case slab_result (vms S) of
             (False, V) \<Rightarrow> Ret (S\<lparr>vms := V\<rparr>)
           | (True, V) \<Rightarrow>
               Ret (S\<lparr>vms := V,
                      kern := assert_status parent
                        \<lparr>st_pid = pid (pcb_at (kern S) p), st_status = uint (make_status how val)\<rparr> (kern S)\<rparr>)))"

section \<open>The process table\<close>

text \<open>The initialisation of the table at boot.\<close>

definition proctab_init :: "kernel \<Rightarrow> kernel" where
  "proctab_init k =
     k\<lparr>proctab := map (\<lambda>i. (proctab k ! i)\<lparr>pid := (if i = 0 then 0 else int i - PT_SIZE), state := PROC_DEAD\<rparr>)
        [0..<nat PT_SIZE]\<rparr>"

definition pcb_common_init :: "nat \<Rightarrow> kernel \<Rightarrow> kernel" where
  "pcb_common_init p k =
     upd_pcb p (\<lambda>c. c\<lparr>timestamp := tick_count k, state := PROC_NASCENT, children := [], child_stats := [],
         posix_timers_of := []\<rparr>)
       (k\<lparr>tmr := (tmr k)(T_alarm p := (tmr k (T_alarm p))\<lparr>tflags := 0\<rparr>,
                         T_sleep p := (tmr k (T_sleep p))\<lparr>tflags := 0\<rparr>)\<rparr>)"

definition get_free_pcb :: "kernel \<Rightarrow> (nat \<times> kernel) option" where
  "get_free_pcb k =
     (case List.find (\<lambda>i. state (pcb_at k i) = PROC_DEAD) [0..<nat PT_SIZE] of
        None \<Rightarrow> None
      | Some i \<Rightarrow> Some (i, pcb_common_init i k))"

text \<open>The loop over the descriptors in \<^verbatim>\<open>pcb_clone\<close>: every file gets one more reference.\<close>

fun clone_files :: "nat option list \<Rightarrow> ksys \<Rightarrow> ksys" where
  "clone_files [] S = S"
| "clone_files (None # fs) S = clone_files fs S"
| "clone_files (Some f # fs) S = clone_files fs (set_fcount f (fcount S f + 1) S)"

definition pcb_clone :: "nat \<Rightarrow> ksys \<Rightarrow> (nat \<times> ksys) option" where
  "pcb_clone src S =
     (case get_free_pcb (kern S) of
        None \<Rightarrow> None
      | Some (p, k) \<Rightarrow>
          let c = pcb_at k src;
              S = clone_files (filp c) (S\<lparr>kern := k\<rparr>);
              S = upd_proc p (\<lambda>d. d\<lparr>esp := esp c, ifp := ifp c, sig := sig_clone (sig d) (sig c),
                    filp := filp c, pid := pid d + PT_SIZE, parent_pid := pid c, pflags := pflags c,
                    root := root c, pwd := pwd c\<rparr>) S
          in Some (p, upd_proc src (\<lambda>c. c\<lparr>children := children c @ [p]\<rparr>) S))"

section \<open>Creating processes\<close>

definition on_mm :: "nat \<Rightarrow> (vm_state \<Rightarrow> 'a \<times> vm_state) \<Rightarrow> ksys \<Rightarrow> 'a \<times> ksys" where
  "on_mm p f S =
     (case f ((vms S)\<lparr>mm := pmm (pcb_at (kern S) p)\<rparr>) of
        (x, V) \<Rightarrow> (x, upd_proc p (\<lambda>c. c\<lparr>pmm := mm V\<rparr>) (S\<lparr>vms := V\<rparr>)))"

abbreviation (input) RODATA_FLAGS :: u32 where "RODATA_FLAGS \<equiv> 0x14"
abbreviation (input) USTACK_FLAGS :: u32 where "USTACK_FLAGS \<equiv> 0x3F"
abbreviation (input) HEAP_START :: u32 where "HEAP_START \<equiv> 0x00100000"
abbreviation (input) HEAP_SIZE :: u32 where "HEAP_SIZE \<equiv> 0x1000"
abbreviation (input) STACK_END :: u32 where "STACK_END \<equiv> kernel_base"
abbreviation (input) STACK_SIZE :: u32 where "STACK_SIZE \<equiv> 0x8000"
abbreviation (input) STACK_START :: u32 where "STACK_START \<equiv> STACK_END - STACK_SIZE"
abbreviation (input) KSTACK_END :: u32 where "KSTACK_END \<equiv> 0xFFFFE000"

text \<open>Addresses from the linker script, and the inode of the root directory.\<close>

record layout =
  urostart :: u32
  uroend :: u32
  krostart :: u32
  kroend :: u32
  kproc_exit :: u32
  init_addr :: u32
  root_inode :: nat

definition address_space_init :: "layout \<Rightarrow> vm_state \<Rightarrow> (errno + unit) \<times> vm_state" where
  "address_space_init L V =
     (let V = V\<lparr>mm := (mm V)\<lparr>brk := HEAP_START + HEAP_SIZE\<rparr>\<rparr>
      in (case vma_map HEAP_START HEAP_SIZE HEAP_FLAGS V of
            (None, V) \<Rightarrow> (Inl ENOMEM, V)
          | (Some _, V) \<Rightarrow>
              (case vma_map STACK_START STACK_SIZE USTACK_FLAGS V of
                 (None, V) \<Rightarrow> (Inl ENOMEM, V)
               | (Some _, V) \<Rightarrow>
                   (case vma_map (urostart L) (uroend L - urostart L) RODATA_FLAGS V of
                      (None, V) \<Rightarrow> (Inl ENOMEM, V)
                    | (Some _, V) \<Rightarrow> (Inr (), V)))))"

text \<open>\<^verbatim>\<open>put_iret_kframe\<close>; the segments are 8 and 16, the flags \<open>0x3200\<close>.\<close>

definition put_iret_kframe :: "u32 \<Rightarrow> u32 \<Rightarrow> (u32 \<Rightarrow> u32) \<Rightarrow> u32 \<Rightarrow> u32" where
  "put_iret_kframe f eip m =
     m(f + 48 := eip, f + 52 := 0x08, f + 56 := 0x3200,
       f + 32 := 0x10, f + 36 := 0x10, f + 40 := 0x10, f + 44 := 0x10)"

abbreviation (input) KFRAME_ROOM :: u32 where "KFRAME_ROOM \<equiv> 76"

text \<open>
  \<^verbatim>\<open>create_kernel_process\<close>; \<open>pgdir_ok\<close> says whether a page directory can be allocated.  The frame is
  built in a buffer whose other words are what the kernel stack held, \<open>junk\<close>.
\<close>

definition new_space :: "layout \<Rightarrow> bool \<Rightarrow> vm_state \<Rightarrow> (errno + unit) \<times> vm_state" where
  "new_space L pgdir_ok V =
     (case mm_init pgdir_ok V of
        (Inl e, V) \<Rightarrow> (Inl e, V)
      | (Inr _, V) \<Rightarrow>
          (case address_space_init L V of
             (Inl e, V) \<Rightarrow> (Inl e, mm_fini V)
           | (Inr _, V) \<Rightarrow>
               (case vma_map (krostart L) (kroend L - krostart L) RODATA_FLAGS V of
                  (None, V) \<Rightarrow> (Inl ENOMEM, mm_fini V)
                | (Some _, V) \<Rightarrow> (Inr (), V))))"

definition create_kernel_process ::
    "layout \<Rightarrow> bool \<Rightarrow> (u32 \<Rightarrow> u32) \<Rightarrow> u32 \<Rightarrow> u32 \<Rightarrow> u32 \<Rightarrow> ksys \<Rightarrow> (errno + int) \<times> ksys" where
  "create_kernel_process L pgdir_ok junk func arg flags S =
     (case get_free_pcb (kern S) of
        None \<Rightarrow> (Inl EAGAIN, S)
      | Some (p, k) \<Rightarrow>
          let S = upd_proc p (\<lambda>c. c\<lparr>sig := sig_init (sig c), filp := replicate 8 None, pid := pid c + PT_SIZE,
                    parent_pid := 1, pflags := flags OR PFLAG_SUPER, root := root_inode L, pwd := root_inode L\<rparr>)
                    (S\<lparr>kern := k\<rparr>)
          in (case on_mm p (new_space L pgdir_ok) S of
                (Inl e, S) \<Rightarrow> (Inl e, S)
              | (Inr _, S) \<Rightarrow>
                  let sp = KSTACK_END - KFRAME_ROOM;
                      frame = (put_iret_kframe sp func junk)(sp + 60 := kproc_exit L, sp + 64 := arg);
                      S = upd_proc p (\<lambda>c. c\<lparr>esp := sp,
                            words := (\<lambda>a. if a - sp < KFRAME_ROOM then frame a else words c a)\<rparr>) S
                  in (Inr (pid (pcb_at (kern S) p)), S\<lparr>kern := ready p (kern S)\<rparr>)))"

text \<open>\<^verbatim>\<open>create_init\<close> panics when it cannot set up the address space.\<close>

definition create_init :: "layout \<Rightarrow> bool \<Rightarrow> ksys \<Rightarrow> ksys outcome" where
  "create_init L pgdir_ok S =
     (let S = S\<lparr>kern := pcb_common_init 1 (kern S)\<rparr>;
          S = upd_proc 1 (\<lambda>c. c\<lparr>sig := sig_init (sig c), filp := replicate 8 None, pid := 1, parent_pid := 1,
                pflags := 0, root := root_inode L, pwd := root_inode L\<rparr>) S
      in (case on_mm 1 (mm_init pgdir_ok) S of
            (Inl _, _) \<Rightarrow> Stuck
          | (Inr _, S) \<Rightarrow>
              (case on_mm 1 (address_space_init L) S of
                 (Inl _, _) \<Rightarrow> Stuck
               | (Inr _, S) \<Rightarrow>
                   let fp = KSTACK_END - 16; sp = fp - 68;
                       S = S\<lparr>kern := (kern S)\<lparr>current := 1\<rparr>\<rparr>;
                       S = upd_proc 1 (\<lambda>c. c\<lparr>ifp := fp, esp := sp,
                             words := put_iret_uframe sp (init_addr L) (STACK_END - 16) (words c)\<rparr>) S
                   in Ret (S\<lparr>kern := ready 1 (kern S)\<rparr>))))"

text \<open>
  \<^verbatim>\<open>sys_fork\<close>.  \<^verbatim>\<open>mm_clone\<close> gives the child a copy of the pages of the parent, kernel stack included;
  the register \<^verbatim>\<open>eax\<close> is the word 20 of the saved context.
\<close>

definition sys_fork :: "bool \<Rightarrow> ksys \<Rightarrow> (errno + int) \<times> ksys" where
  "sys_fork pgdir_ok S =
     (let S = upd_cur (\<lambda>c. c\<lparr>words := (words c)(esp c + 20 := 0)\<rparr>) S
      in (case pcb_clone (current (kern S)) S of
            None \<Rightarrow> (Inl EAGAIN, S)
          | Some (p, S) \<Rightarrow>
              (case on_mm p (mm_clone pgdir_ok (pmm (curp S))) S of
                 (Inl e, S) \<Rightarrow> (Inl e, S)
               | (Inr _, S) \<Rightarrow>
                   let S = upd_proc p (\<lambda>c. c\<lparr>words := words (curp S)\<rparr>) S
                   in (Inr (pid (pcb_at (kern S) p)), S\<lparr>kern := ready p (kern S)\<rparr>))))"

section \<open>Exit and wait\<close>

fun close_all :: "op_tables \<Rightarrow> nat \<Rightarrow> nat \<Rightarrow> ksys \<Rightarrow> ksys outcome" where
  "close_all ops i 0 S = Ret S"
| "close_all ops i (Suc n) S =
     bind_outcome
       (if filp (curp S) ! i \<noteq> None then
          bind_outcome (sys_close ops (of_nat i) S) (\<lambda>(_, S). Ret S)
        else Ret S)
       (close_all ops (Suc i) n)"

fun reparent :: "nat list \<Rightarrow> kernel \<Rightarrow> kernel" where
  "reparent [] k = k"
| "reparent (q # qs) k = reparent qs (upd_pcb q (\<lambda>c. c\<lparr>parent_pid := 1\<rparr>) k)"

text \<open>
  The status entries of \<open>p\<close> go to \<open>i\<close> one by one.  When \<open>p\<close> is \<open>i\<close> itself, every entry is appended to
  the list that is being walked, and with two entries or more the walk never ends.
\<close>

fun move_stats :: "nat \<Rightarrow> nat \<Rightarrow> proc_status list \<Rightarrow> kernel \<Rightarrow> kernel" where
  "move_stats p i [] k = k"
| "move_stats p i (s # ss) k =
     move_stats p i ss
       (assert_status i s (upd_pcb p (\<lambda>c. c\<lparr>child_stats := remove1 s (child_stats c)\<rparr>) k))"

text \<open>\<^verbatim>\<open>do_exit\<close>, and its part after the files are closed.\<close>

definition exit_rest :: "nat \<Rightarrow> ksys \<Rightarrow> ksys outcome" where
  "exit_rest p S =
     (let k = reparent (children (pcb_at (kern S) p)) (kern S)
      in (case get_pcb 1 k of
            None \<Rightarrow> Stuck
          | Some i \<Rightarrow>
              if p = i \<and> 2 \<le> length (child_stats (pcb_at k p)) then Stuck
              else
                let S = snd (on_mm p (\<lambda>V. ((), mm_fini V))
                          (S\<lparr>kern := move_stats p i (child_stats (pcb_at k p)) k\<rparr>))
                in Ret (S\<lparr>kern := zombie p (kern S)\<rparr>)))"

definition do_exit :: "op_tables \<Rightarrow> nat \<Rightarrow> u32 \<Rightarrow> ksys \<Rightarrow> ksys outcome" where
  "do_exit ops p status S =
     bind_outcome (report_status p WS_EXITED status S) (\<lambda>S.
       bind_outcome (close_all ops 0 8 S) (exit_rest p))"

text \<open>\<^verbatim>\<open>sys_exit\<close> of \<^verbatim>\<open>src/kernel/entry.S\<close>: the process ends, and another one runs.\<close>

definition sys_exit :: "op_tables \<Rightarrow> u32 \<Rightarrow> ksys \<Rightarrow> ksys outcome" where
  "sys_exit ops status S =
     bind_outcome (do_exit ops (current (kern S)) status S) (\<lambda>S.
       bind_outcome (schedule (kern S)) (\<lambda>k. Ret (S\<lparr>kern := k\<rparr>)))"

definition sys_getpid :: "kernel \<Rightarrow> int" where
  "sys_getpid k = pid (cur k)"

definition sys_getppid :: "kernel \<Rightarrow> int" where
  "sys_getppid k = parent_pid (cur k)"

datatype idtype = P_ALL | P_PGID | P_PID

definition status_wanted :: "idtype \<Rightarrow> int \<Rightarrow> u32 \<Rightarrow> proc_status \<Rightarrow> bool" where
  "status_wanted idtype i options s \<longleftrightarrow>
     \<not> (idtype = P_PID \<and> st_pid s \<noteq> i) \<and>
     (let how = WHOW (stat_word s)
      in if how = WS_CONTINUED then options AND WCONTINUED \<noteq> 0
         else if how = WS_EXITED then options AND WEXITED \<noteq> 0
         else if how = WS_STOPPED then options AND WSTOPPED \<noteq> 0
         else True)"

definition get_status :: "idtype \<Rightarrow> int \<Rightarrow> u32 \<Rightarrow> kernel \<Rightarrow> proc_status option" where
  "get_status idtype i options k = List.find (status_wanted idtype i options) (child_stats (cur k))"

text \<open>Taking the \<^verbatim>\<open>child_chain\<close> node of a process off its list.\<close>

definition del_child_chain :: "nat \<Rightarrow> kernel \<Rightarrow> kernel" where
  "del_child_chain p k =
     k\<lparr>proctab := map (\<lambda>c. c\<lparr>children := remove1 p (children c)\<rparr>) (proctab k),
       chain_bad := chain_bad k \<or> (\<forall>c \<in> set (proctab k). p \<notin> set (children c))\<rparr>"

text \<open>
  The end of \<^verbatim>\<open>sys_waitid\<close>, once a status entry was found: the result is what is stored through
  \<^verbatim>\<open>infop\<close>, whose other fields keep the value \<open>info\<close>.
\<close>

definition waitid_take :: "siginfo \<Rightarrow> proc_status \<Rightarrow> kernel \<Rightarrow> (siginfo \<times> kernel) outcome" where
  "waitid_take info s k =
     (let w = stat_word s;
          info = info\<lparr>si_signo := SIGCHLD, si_code := status_to_si_code w, si_errno := 0, si_pid := st_pid s,
                   si_uid := 0, si_status := uint (WVALUE w), si_value := w\<rparr>;
          drop_stat = upd_pcb (current k) (\<lambda>c. c\<lparr>child_stats := remove1 s (child_stats c)\<rparr>)
      in if WIFEXITED w \<or> WIFSIGNALED w then
           (case get_pcb (st_pid s) k of
              None \<Rightarrow> Stuck
            | Some p \<Rightarrow> Ret (info, drop_stat (reap p (del_child_chain p k))))
         else Ret (info, drop_stat k))"

definition waitid_loop :: "idtype \<Rightarrow> int \<Rightarrow> siginfo \<Rightarrow> u32 \<Rightarrow> kernel \<Rightarrow> ((errno + siginfo) call \<times> kernel) outcome" where
  "waitid_loop idtype i info options k =
     (case get_status idtype i options k of
        Some s \<Rightarrow> bind_outcome (waitid_take info s k) (\<lambda>(info, k). Ret (Done (Inr info), k))
      | None \<Rightarrow>
          if options AND WNOHANG \<noteq> 0 then Ret (Done (Inr (info\<lparr>si_signo := 0, si_pid := 0\<rparr>)), k)
          else Ret (Blocked, set_state PROC_WAITING (current k) k))"

text \<open>\<^verbatim>\<open>sys_waitid\<close> up to \<^verbatim>\<open>schedule()\<close>, and from there on; \<^verbatim>\<open>sizeof(siginfo_t)\<close> is 36.\<close>

definition sys_waitid :: "idtype \<Rightarrow> int \<Rightarrow> u32 \<Rightarrow> siginfo \<Rightarrow> u32 \<Rightarrow> kernel \<Rightarrow>
    ((errno + siginfo) call \<times> kernel) outcome" where
  "sys_waitid idtype i infop info options k =
     (if \<not> cur_verify k infop 36 VM_WRITE then Ret (Done (Inl EFAULT), k)
      else if children (cur k) = [] then Ret (Done (Inl ECHILD), k)
      else waitid_loop idtype i info options k)"

definition sys_waitid_resume :: "idtype \<Rightarrow> int \<Rightarrow> siginfo \<Rightarrow> u32 \<Rightarrow> int \<Rightarrow> kernel \<Rightarrow>
    ((errno + siginfo) call \<times> kernel) outcome" where
  "sys_waitid_resume idtype i info options signo k =
     (if signo \<noteq> SIGCHLD then Ret (Done (Inl EINTR), k)
      else if signal_from_user (si_code (infos (sig (cur k)) ! nat signo)) then Ret (Done (Inl EINTR), k)
      else waitid_loop idtype i info options k)"

section \<open>Process ids\<close>

definition pids :: "kernel \<Rightarrow> int list" where
  "pids k = map pid (proctab k)"

text \<open>The slot of a process is its pid modulo the size of the table.\<close>

definition pids_ok :: "kernel \<Rightarrow> bool" where
  "pids_ok k \<longleftrightarrow> length (proctab k) = 256 \<and> (\<forall>i < 256. pid (pcb_at k i) mod 256 = int i)"

lemma pids_ok_pids: "pids_ok k \<longleftrightarrow> length (pids k) = 256 \<and> (\<forall>i < 256. pids k ! i mod 256 = int i)"
  by (auto simp: pids_ok_def pids_def pcb_at_def)

lemma pids_ok_cong: "pids k = pids k' \<Longrightarrow> pids_ok k = pids_ok k'"
  by (simp add: pids_ok_pids)

lemma get_pcb_pid:
  assumes "pids_ok k" "p < 256" "state (pcb_at k p) \<noteq> PROC_DEAD"
  shows "get_pcb (pid (pcb_at k p)) k = Some p"
  using assms by (simp add: get_pcb_def pids_ok_def)

lemma get_pcb_SomeD: "get_pcb i k = Some p \<Longrightarrow> pid (pcb_at k p) = i \<and> state (pcb_at k p) \<noteq> PROC_DEAD \<and> p < 256"
  by (auto simp: get_pcb_def Let_def split: if_splits)

lemma pids_upd [simp]: "(\<And>c. pid (g c) = pid c) \<Longrightarrow> pids (upd_pcb p g k) = pids k"
  by (cases "p < length (proctab k)")
    (simp_all add: pids_def upd_pcb_def map_update_same list_update_beyond not_less)

lemma pids_fields [simp]:
  "pids (k\<lparr>ready_queue := a\<rparr>) = pids k" "pids (k\<lparr>zombies := a\<rparr>) = pids k" "pids (k\<lparr>chain_bad := b\<rparr>) = pids k"
  "pids (k\<lparr>current := p\<rparr>) = pids k" "pids (k\<lparr>tmr := u\<rparr>) = pids k"
  by (simp_all add: pids_def)

lemma pids_sched [simp]:
  "pids (set_state s p k) = pids k" "pids (ready p k) = pids k" "pids (reap p k) = pids k"
  "pids (zombie p k) = pids k" "pids (wake p r k) = pids k"
  by (simp_all add: set_state_def ready_def reap_def zombie_def wake_def)

lemma pids_wake_all [simp]: "pids (wake_all q r k) = pids k"
  by (induction q arbitrary: k) simp_all

lemma pids_next_ready: "next_ready k = Ret (p, k') \<Longrightarrow> pids k' = pids k"
  by (auto simp: next_ready_def split: list.splits)

lemma pids_next_process:
  assumes "next_process k = Ret (p, k')"
  shows "pids k' = pids k"
proof -
  obtain q k1 where 1: "next_ready k = Ret (q, k1)"
    "(if pid (pcb_at k1 q) = idle_pid k1 \<and> ready_queue k1 \<noteq> [] then next_ready (ready q k1) else Ret (q, k1)) = Ret (p, k')"
    using assms by (auto simp: next_process_def)
  then show ?thesis using pids_next_ready [OF 1(1)] pids_next_ready [of "ready q k1" p k'] by (simp split: if_splits)
qed

lemma pids_schedule: "schedule k = Ret k' \<Longrightarrow> pids k' = pids k"
  using pids_next_process [of k] by (auto simp: schedule_def)

lemma pids_signals [simp]:
  "pids (upd_sig f p k) = pids k" "pids (do_kill p sg code k) = pids k" "pids (assert_status p s k) = pids k"
  by (simp_all add: upd_sig_def do_kill_def assert_status_def Let_def)

lemma pids_loops [simp]:
  "pids (reparent qs k) = pids k" "pids (move_stats p i ss k) = pids k" "pids (del_child_chain p k) = pids k"
proof -
  show "pids (reparent qs k) = pids k" by (induction qs arbitrary: k) simp_all
  show "pids (move_stats p i ss k) = pids k" by (induction ss arbitrary: k) simp_all
  show "pids (del_child_chain p k) = pids k" by (simp add: del_child_chain_def pids_def)
qed

lemma pids_waitid_take: "waitid_take info s k = Ret (r, k') \<Longrightarrow> pids k' = pids k"
  by (auto simp: waitid_take_def Let_def split: if_splits option.splits)

lemma pids_waitid_loop: "waitid_loop t i info opts k = Ret (r, k') \<Longrightarrow> pids k' = pids k"
  by (auto simp: waitid_loop_def dest: pids_waitid_take split: option.splits if_splits)

lemma pids_clone_files [simp]: "kern (clone_files fs S) = kern S"
  by (induction fs S rule: clone_files.induct) simp_all

lemma kern_on_mm: "on_mm p f S = (x, S') \<Longrightarrow> pids (kern S') = pids (kern S)"
  by (auto simp: on_mm_def upd_proc_def split: prod.splits)

lemma pids_common_init [simp]: "pids (pcb_common_init p k) = pids k"
  by (simp add: pcb_common_init_def)

lemma get_free_pcbD:
  assumes "get_free_pcb k = Some (p, k')"
  shows "p < 256" "state (pcb_at k p) = PROC_DEAD" "k' = pcb_common_init p k"
  using assms by (auto simp: get_free_pcb_def find_Some_upt split: option.splits)

lemma pids_ok_upd [simp]: "(\<And>c. pid (g c) = pid c) \<Longrightarrow> pids_ok (upd_pcb p g k) = pids_ok k"
  by (rule pids_ok_cong, rule pids_upd)

text \<open>Giving a slot the next pid of its residue class keeps the table right.\<close>

lemma pids_ok_next:
  assumes "pids_ok k" "pids k' = pids k" "\<And>c. pid (g c) = pid c + PT_SIZE"
  shows "pids_ok (upd_pcb p g k')"
proof -
  have "pids_ok k'" using assms(1,2) pids_ok_cong by blast
  then show ?thesis using assms(3) by (auto simp: pids_ok_def pcb_at_upd)
qed

lemma pids_ok_clone:
  assumes "pids_ok (kern S)" "pcb_clone src S = Some (p, S')"
  shows "pids_ok (kern S')"
proof -
  obtain k where k: "get_free_pcb (kern S) = Some (p, k)"
    and S': "S' = upd_proc src (\<lambda>c. c\<lparr>children := children c @ [p]\<rparr>)
      (upd_proc p (\<lambda>d. d\<lparr>esp := esp (pcb_at k src), ifp := ifp (pcb_at k src),
        sig := sig_clone (sig d) (sig (pcb_at k src)), filp := filp (pcb_at k src), pid := pid d + PT_SIZE,
        parent_pid := pid (pcb_at k src), pflags := pflags (pcb_at k src), root := root (pcb_at k src),
        pwd := pwd (pcb_at k src)\<rparr>) (clone_files (filp (pcb_at k src)) (S\<lparr>kern := k\<rparr>)))"
    using assms(2) by (auto simp: pcb_clone_def Let_def split: option.splits prod.splits)
  have "pids k = pids (kern S)" using get_free_pcbD(3) [OF k] by simp
  then show ?thesis unfolding S' upd_proc_def
    using pids_ok_next [OF assms(1)] by simp
qed

lemma pids_ok_fork:
  assumes "pids_ok (kern S)" "sys_fork ok S = (r, S')"
  shows "pids_ok (kern S')"
proof -
  let ?S = "upd_cur (\<lambda>c. c\<lparr>words := (words c)(esp c + 20 := 0)\<rparr>) S"
  have S: "pids (kern ?S) = pids (kern S)" by (simp add: upd_cur_def)
  show ?thesis
  proof (cases "pcb_clone (current (kern ?S)) ?S")
    case None
    then have "S' = ?S" using assms(2) by (simp add: sys_fork_def Let_def)
    then show ?thesis using assms(1) pids_ok_cong [OF S] by simp
  next
    case (Some pS)
    obtain p S1 where 1: "pcb_clone (current (kern ?S)) ?S = Some (p, S1)" using Some by (cases pS) auto
    obtain x S2 where 2: "on_mm p (mm_clone ok (pmm (curp S1))) S1 = (x, S2)" by fastforce
    have "pids_ok (kern S1)" using pids_ok_clone [OF _ 1] assms(1) pids_ok_cong [OF S] by simp
    then have "pids_ok (kern S2)" using pids_ok_cong [OF kern_on_mm [OF 2]] by simp
    moreover have "pids (kern S') = pids (kern S2)"
      using assms(2) 1 2 by (auto simp: sys_fork_def Let_def upd_proc_def split: sum.splits)
    ultimately show ?thesis using pids_ok_cong [of "kern S'"] by simp
  qed
qed

lemma pids_ok_create:
  assumes "pids_ok (kern S)" "create_kernel_process L ok junk func arg flags S = (r, S')"
  shows "pids_ok (kern S')"
proof (cases "get_free_pcb (kern S)")
  case None
  then show ?thesis using assms by (simp add: create_kernel_process_def)
next
  case (Some pk)
  obtain p k where 1: "get_free_pcb (kern S) = Some (p, k)" using Some by (cases pk) auto
  let ?S = "upd_proc p (\<lambda>c. c\<lparr>sig := sig_init (sig c), filp := replicate 8 None, pid := pid c + PT_SIZE,
      parent_pid := 1, pflags := flags OR PFLAG_SUPER, root := root_inode L, pwd := root_inode L\<rparr>) (S\<lparr>kern := k\<rparr>)"
  have "pids k = pids (kern S)" using get_free_pcbD(3) [OF 1] by simp
  then have ok: "pids_ok (kern ?S)" unfolding upd_proc_def using pids_ok_next [OF assms(1)] by simp
  obtain x S2 where 2: "on_mm p (new_space L ok) ?S = (x, S2)" by fastforce
  have "pids (kern S') = pids (kern S2)"
    using assms(2) 1 2 by (auto simp: create_kernel_process_def Let_def upd_proc_def split: sum.splits)
  then show ?thesis using pids_ok_cong [of "kern S'" "kern ?S"] kern_on_mm [OF 2] ok by simp
qed

lemma pids_ok_create_init:
  assumes "pids_ok (kern S)" "create_init L ok S = Ret S'"
  shows "pids_ok (kern S')"
proof -
  let ?S = "upd_proc 1 (\<lambda>c. c\<lparr>sig := sig_init (sig c), filp := replicate 8 None, pid := 1, parent_pid := 1,
      pflags := 0, root := root_inode L, pwd := root_inode L\<rparr>) (S\<lparr>kern := pcb_common_init 1 (kern S)\<rparr>)"
  have "pids_ok (pcb_common_init 1 (kern S))" using assms(1) pids_ok_cong [OF pids_common_init] by blast
  then have ok: "pids_ok (kern ?S)" by (auto simp: pids_ok_def upd_proc_def pcb_at_upd)
  obtain x S1 where 1: "on_mm 1 (mm_init ok) ?S = (x, S1)" by fastforce
  obtain y S2 where 2: "on_mm 1 (address_space_init L) S1 = (y, S2)" by fastforce
  have "pids (kern S') = pids (kern S2)"
    using assms(2) 1 2 by (auto simp: create_init_def Let_def upd_proc_def split: sum.splits)
  then show ?thesis
    using pids_ok_cong [of "kern S'" "kern ?S"] kern_on_mm [OF 1] kern_on_mm [OF 2] ok by simp
qed

lemma pids_ok_boot: "pids_ok (proctab_init k)"
  by (auto simp: pids_ok_def proctab_init_def pcb_at_def)

section \<open>The life of processes\<close>

text \<open>The numbers of the errors, from \<^verbatim>\<open>src/include/telos/errno.h\<close>.\<close>

fun errno_num :: "errno \<Rightarrow> int" where
  "errno_num EACCES = 3" | "errno_num EAGAIN = 7" | "errno_num EBADF = 9" | "errno_num EBUSY = 11"
| "errno_num ECHILD = 13" | "errno_num EEXIST = 21" | "errno_num EFAULT = 22" | "errno_num EINTR = 28"
| "errno_num EINVAL = 29" | "errno_num EIO = 30" | "errno_num EISDIR = 32" | "errno_num EMFILE = 34"
| "errno_num ENFILE = 42" | "errno_num ENODEV = 45" | "errno_num ENOENT = 46" | "errno_num ENOMEM = 50"
| "errno_num ENOSPC = 62" | "errno_num ENOTDIR = 66" | "errno_num ENOTEMPTY = 67" | "errno_num ENOTSUP = 69"
| "errno_num ENXIO = 71" | "errno_num EPERM = 74" | "errno_num ERANGE = 79" | "errno_num EROFS = 80"
| "errno_num ESPIPE = 81" | "errno_num ESRCH = 82" | "errno_num EXDEV = 89" | "errno_num ENOTBLK = 90"

text \<open>
  \<^verbatim>\<open>sched_start\<close> of \<^verbatim>\<open>src/kernel/schedule.c\<close>, up to the switch to the first process; the code of the
  idle process is at \<open>idle\<close>.
\<close>

definition sched_start :: "layout \<Rightarrow> bool \<Rightarrow> bool \<Rightarrow> (u32 \<Rightarrow> u32) \<Rightarrow> u32 \<Rightarrow> ksys \<Rightarrow> ksys outcome" where
  "sched_start L ok1 ok2 junk idle S =
     (case create_kernel_process L ok1 junk idle 0 0 S of
        (r, S) \<Rightarrow>
          bind_outcome
            (create_init L ok2 (S\<lparr>kern := (kern S)\<lparr>idle_pid := (case r of Inl e \<Rightarrow> - errno_num e | Inr i \<Rightarrow> i)\<rparr>\<rparr>))
            (\<lambda>S. bind_outcome (next_ready (kern S)) (\<lambda>(p, k). Ret (S\<lparr>kern := k\<lparr>current := p\<rparr>\<rparr>))))"

text \<open>
  What the operations behind the file tables may not do to processes, so that closing files when a
  process ends leaves the process table alone.
\<close>

lemma exit_rest_pids:
  assumes "exit_rest p S = Ret S'"
  shows "pids (kern S') = pids (kern S)"
proof -
  have m: "pids (kern (snd (on_mm p f T))) = pids (kern T)" for p and f :: "vm_state \<Rightarrow> unit \<times> vm_state" and T
    using kern_on_mm [of p f T] by (metis prod.collapse)
  show ?thesis using assms by (auto simp: exit_rest_def Let_def m split: option.splits if_splits)
qed

locale pid_frame =
  fixes ops :: op_tables
  assumes release_pids: "op_release ops n = Some rel \<Longrightarrow> rel i f S = Ret S' \<Longrightarrow> pids (kern S') = pids (kern S)"
    and put_inode_pids: "op_put_inode ops n = Some put \<Longrightarrow> pids (kern (put j S)) = pids (kern S)"
begin

lemma iput_pids:
  assumes "iput ops i S = Ret S'"
  shows "pids (kern S') = pids (kern S)"
proof (cases i)
  case None
  then show ?thesis using assms by (simp add: iput_def)
next
  case (Some j)
  have put: "pids (kern (put j T)) = pids (kern T)" if "opt_op x (op_put_inode ops) = Some put" for x put T
    using that put_inode_pids by (auto simp: opt_op_def split: option.splits)
  show ?thesis using assms Some
    by (auto simp: iput_def Let_def put upd_inode_def split: if_splits option.splits)
qed

lemma close_pids:
  assumes "sys_close ops fd S = Ret (r, S')"
  shows "pids (kern S') = pids (kern S)"
proof -
  have rel: "pids (kern T') = pids (kern T)"
    if "(case opt_op x (op_release ops) of None \<Rightarrow> Ret T | Some release \<Rightarrow> release a f T) = Ret T'" for x a f T T'
    using that release_pids by (auto simp: opt_op_def split: option.splits)
  have un: "pids (kern T') = pids (kern T)" if un0: "file_unref ops f T = Ret T'" for f T T'
  proof (cases "0 < fcount T f - 1")
    case True
    then show ?thesis using un0 by (auto simp: file_unref_def Let_def)
  next
    case False
    let ?T = "set_fcount f (fcount T f - 1) T"
    obtain T1 T2 where u: "(case opt_op (f_op (ftab T f)) (op_release ops) of
        None \<Rightarrow> Ret ?T | Some release \<Rightarrow> release (f_inode (ftab ?T f)) f ?T) = Ret T1"
      "iput ops (f_inode (ftab T1 f)) T1 = Ret T2" "T' = free_file f T2"
      using un0 False by (auto simp: file_unref_def Let_def)
    then show ?thesis using rel [OF u(1)] iput_pids [OF u(2)] by (simp add: free_file_def set_fcount_def)
  qed
  have "pids (kern (set_fd fd v T)) = pids (kern T)" for fd v T by (simp add: set_fd_def upd_cur_def)
  then show ?thesis using assms un by (auto simp: sys_close_def Let_def split: if_splits option.splits)
qed

lemma close_all_pids: "close_all ops i n S = Ret S' \<Longrightarrow> pids (kern S') = pids (kern S)"
proof (induction n arbitrary: i S)
  case (Suc n)
  then obtain S1 where 1: "(if filp (curp S) ! i \<noteq> None then
      bind_outcome (sys_close ops (of_nat i) S) (\<lambda>(_, S). Ret S) else Ret S) = Ret S1"
    "close_all ops (Suc i) n S1 = Ret S'" by auto
  have "pids (kern S1) = pids (kern S)" using 1(1) close_pids by (auto split: if_splits)
  then show ?case using Suc.IH [OF 1(2)] by simp
qed simp

lemma do_exit_pids:
  assumes "do_exit ops p st S = Ret S'"
  shows "pids (kern S') = pids (kern S)"
proof -
  obtain S1 S2 where 1: "report_status p WS_EXITED st S = Ret S1" "close_all ops 0 8 S1 = Ret S2"
    "exit_rest p S2 = Ret S'"
    using assms by (auto simp: do_exit_def)
  have "pids (kern S1) = pids (kern S)"
    using 1(1) by (auto simp: report_status_def split: option.splits prod.splits bool.splits)
  then show ?thesis using close_all_pids [OF 1(2)] exit_rest_pids [OF 1(3)] by simp
qed

end

interpretation pipe_pids: pid_frame pipe_ops
proof
  show "op_release pipe_ops n = Some rel \<Longrightarrow> rel i f S = Ret S' \<Longrightarrow> pids (kern S') = pids (kern S)"
    for n rel i f S S'
    by (auto simp: pipe_ops_def pipe_release_def upd_pipe_def Let_def split: if_splits)
  show "op_put_inode pipe_ops n = Some put \<Longrightarrow> pids (kern (put j S)) = pids (kern S)" for n put j S
    by (simp add: pipe_ops_def)
qed

text \<open>
  The states that the calls which create, end and reap processes, send signals and yield lead to from
  boot on, in any order.  A call that blocks is followed by \<^verbatim>\<open>schedule()\<close>, which is a step of its own,
  as is the resumption of a waiting process.
\<close>

inductive reachable :: "op_tables \<Rightarrow> layout \<Rightarrow> ksys \<Rightarrow> bool" for ops L where
  boot: "kern S = proctab_init k \<Longrightarrow> sched_start L ok1 ok2 junk idle S = Ret S' \<Longrightarrow> reachable ops L S'"
| fork: "reachable ops L S \<Longrightarrow> sys_fork ok S = (r, S') \<Longrightarrow> reachable ops L S'"
| exit: "reachable ops L S \<Longrightarrow> sys_exit ops st S = Ret S' \<Longrightarrow> reachable ops L S'"
| waitid: "reachable ops L S \<Longrightarrow> sys_waitid t i a info opts (kern S) = Ret (w, k) \<Longrightarrow> reachable ops L (S\<lparr>kern := k\<rparr>)"
| waitid_resume: "reachable ops L S \<Longrightarrow> sys_waitid_resume t i info opts sg (kern S) = Ret (w, k) \<Longrightarrow>
    reachable ops L (S\<lparr>kern := k\<rparr>)"
| kill: "reachable ops L S \<Longrightarrow> sys_kill i sg (kern S) = (e, k) \<Longrightarrow> reachable ops L (S\<lparr>kern := k\<rparr>)"
| yield: "reachable ops L S \<Longrightarrow> sys_yield (kern S) = Ret k \<Longrightarrow> reachable ops L (S\<lparr>kern := k\<rparr>)"
| resched: "reachable ops L S \<Longrightarrow> schedule (kern S) = Ret k \<Longrightarrow> reachable ops L (S\<lparr>kern := k\<rparr>)"
| create: "reachable ops L S \<Longrightarrow> create_kernel_process L ok junk func arg flags S = (c, S') \<Longrightarrow> reachable ops L S'"

lemma pids_ok_start:
  assumes "pids_ok (kern S)" "sched_start L ok1 ok2 junk idle S = Ret S'"
  shows "pids_ok (kern S')"
proof -
  obtain r S1 where 1: "create_kernel_process L ok1 junk idle 0 0 S = (r, S1)" by fastforce
  obtain S2 p k where 2: "create_init L ok2 (S1\<lparr>kern := (kern S1)\<lparr>idle_pid := (case r of Inl e \<Rightarrow> - errno_num e | Inr i \<Rightarrow> i)\<rparr>\<rparr>) = Ret S2"
    "next_ready (kern S2) = Ret (p, k)" "S' = S2\<lparr>kern := k\<lparr>current := p\<rparr>\<rparr>"
    using assms(2) 1 by (auto simp: sched_start_def)
  have idle: "pids_ok (k\<lparr>idle_pid := i\<rparr>) = pids_ok k" for k i by (simp add: pids_ok_def)
  have "pids_ok (kern S2)"
    using pids_ok_create_init [OF _ 2(1)] pids_ok_create [OF assms(1) 1] by (simp add: idle)
  then show ?thesis using pids_ok_cong [of "kern S'" "kern S2"] pids_next_ready [OF 2(2)] 2(3) by simp
qed

lemma pids_ok_kern:
  "pids_ok k \<Longrightarrow> pids k' = pids k \<Longrightarrow> pids_ok k'"
  using pids_ok_cong by blast

context pid_frame
begin

lemma reachable_pids: "reachable ops L S \<Longrightarrow> pids_ok (kern S)"
proof (induction rule: reachable.induct)
  case (boot S k ok1 ok2 junk idle S')
  then show ?case using pids_ok_start [of S L ok1 ok2 junk idle S'] pids_ok_boot by simp
next
  case (fork S ok r S')
  then show ?case by (rule_tac pids_ok_fork)
next
  case (exit S st S')
  obtain S1 k where 1: "do_exit ops (current (kern S)) st S = Ret S1" "schedule (kern S1) = Ret k" "S' = S1\<lparr>kern := k\<rparr>"
    using exit.hyps by (auto simp: sys_exit_def)
  then show ?case using pids_ok_kern [OF exit.IH] do_exit_pids [OF 1(1)] pids_schedule [OF 1(2)] by simp
next
  case (waitid S t i a info opts w k)
  have "pids k = pids (kern S)"
    using waitid.hyps(2) pids_waitid_loop by (auto simp: sys_waitid_def split: if_splits)
  then show ?case using pids_ok_kern [OF waitid.IH] by simp
next
  case (waitid_resume S t i info opts sg w k)
  have "pids k = pids (kern S)"
    using waitid_resume.hyps(2) pids_waitid_loop by (auto simp: sys_waitid_resume_def split: if_splits)
  then show ?case using pids_ok_kern [OF waitid_resume.IH] by simp
next
  case (kill S i sg e k)
  have "pids k = pids (kern S)"
    using kill.hyps(2) by (auto simp: sys_kill_def split: option.splits if_splits)
  then show ?case using pids_ok_kern [OF kill.IH] by simp
next
  case (yield S k)
  have "pids k = pids (kern S)" using yield.hyps(2) pids_schedule by (auto simp: sys_yield_def)
  then show ?case using pids_ok_kern [OF yield.IH] by simp
next
  case (resched S k)
  then show ?case using pids_ok_kern [OF resched.IH] pids_schedule by simp
next
  case (create S ok junk func arg flags c S')
  then show ?case by (rule_tac pids_ok_create)
qed

end

section \<open>Booting\<close>

lemma vma_map_ok: "allocs V = [] \<Longrightarrow> \<exists>v V'. vma_map d len f V = (Some v, V') \<and> allocs V' = [] \<and> f_count V' = f_count V"
  by (simp add: vma_map_def slab_result_def set_map_def Let_def)

lemma address_space_init_ok:
  assumes "allocs V = []"
  shows "\<exists>V'. address_space_init L V = (Inr (), V') \<and> allocs V' = [] \<and> f_count V' = f_count V"
proof -
  let ?V = "V\<lparr>mm := (mm V)\<lparr>brk := HEAP_START + HEAP_SIZE\<rparr>\<rparr>"
  obtain v1 V1 where 1: "vma_map HEAP_START HEAP_SIZE HEAP_FLAGS ?V = (Some v1, V1)" "allocs V1 = []" "f_count V1 = f_count V"
    using vma_map_ok [of ?V HEAP_START HEAP_SIZE HEAP_FLAGS] assms by auto
  obtain v2 V2 where 2: "vma_map STACK_START STACK_SIZE USTACK_FLAGS V1 = (Some v2, V2)" "allocs V2 = []" "f_count V2 = f_count V"
    using vma_map_ok [OF 1(2), of STACK_START STACK_SIZE USTACK_FLAGS] 1(3) by auto
  obtain v3 V3 where 3: "vma_map (urostart L) (uroend L - urostart L) RODATA_FLAGS V2 = (Some v3, V3)" "allocs V3 = []"
      "f_count V3 = f_count V"
    using vma_map_ok [OF 2(2), of "urostart L" "uroend L - urostart L" RODATA_FLAGS] 2(3) by auto
  show ?thesis using 1 2 3 by (simp add: address_space_init_def)
qed

lemma new_space_ok:
  assumes "allocs V = []"
  shows "\<exists>V'. new_space L True V = (Inr (), V') \<and> allocs V' = []"
proof -
  obtain V1 where 1: "address_space_init L (set_map [] V) = (Inr (), V1)" "allocs V1 = []"
    using address_space_init_ok [of "set_map [] V" L] assms by (auto simp: set_map_def)
  obtain v V2 where "vma_map (krostart L) (kroend L - krostart L) RODATA_FLAGS V1 = (Some v, V2)" "allocs V2 = []"
    using vma_map_ok [OF 1(2)] by blast
  with 1 show ?thesis by (simp add: new_space_def mm_init_def)
qed

lemma get_free_pcb_boot:
  "get_free_pcb (proctab_init k) = Some (0, pcb_common_init 0 (proctab_init k))"
proof -
  have "state (pcb_at (proctab_init k) 0) = PROC_DEAD" by (simp add: proctab_init_def pcb_at_def)
  then show ?thesis by (simp add: get_free_pcb_def upt_conv_Cons)
qed

lemma on_mm_allocs: "on_mm p f S = (x, S') \<Longrightarrow> \<exists>V. f ((vms S)\<lparr>mm := pmm (pcb_at (kern S) p)\<rparr>) = (x, V) \<and> vms S' = V"
  by (auto simp: on_mm_def upd_proc_def split: prod.splits)

lemma create_kernel_boot:
  assumes "kern S = proctab_init k" "allocs (vms S) = []"
  shows "\<exists>i S'. create_kernel_process L True junk idle 0 0 S = (Inr i, S') \<and> allocs (vms S') = [] \<and>
    length (proctab (kern S')) = 256"
proof -
  let ?S = "upd_proc 0 (\<lambda>c. c\<lparr>sig := sig_init (sig c), filp := replicate 8 None, pid := pid c + PT_SIZE,
      parent_pid := 1, pflags := 0 OR PFLAG_SUPER, root := root_inode L, pwd := root_inode L\<rparr>)
      (S\<lparr>kern := pcb_common_init 0 (kern S)\<rparr>)"
  obtain x S1 where 1: "on_mm 0 (new_space L True) ?S = (x, S1)" by fastforce
  obtain V where V: "new_space L True ((vms ?S)\<lparr>mm := pmm (pcb_at (kern ?S) 0)\<rparr>) = (Inr (), V)" "allocs V = []"
    using new_space_ok [of "(vms ?S)\<lparr>mm := pmm (pcb_at (kern ?S) 0)\<rparr>" L] assms(2) by (auto simp: upd_proc_def)
  have x: "x = Inr ()" "vms S1 = V" using on_mm_allocs [OF 1] V by auto
  have "length (pids (kern S1)) = length (pids (kern ?S))" using kern_on_mm [OF 1] by simp
  then have "length (proctab (kern S1)) = 256"
    using assms(1) by (simp add: pids_def upd_proc_def pcb_common_init_def proctab_init_def)
  with 1 x V(2) assms(1) show ?thesis
    by (simp add: create_kernel_process_def get_free_pcb_boot upd_proc_def Let_def)
qed

lemma create_init_ok:
  assumes "allocs (vms S) = []" "length (proctab (kern S)) = 256"
  shows "\<exists>S'. create_init L True S = Ret S' \<and> state (pcb_at (kern S') 1) = PROC_READY \<and> ready_queue (kern S') \<noteq> []"
proof -
  let ?S = "upd_proc 1 (\<lambda>c. c\<lparr>sig := sig_init (sig c), filp := replicate 8 None, pid := 1, parent_pid := 1,
      pflags := 0, root := root_inode L, pwd := root_inode L\<rparr>) (S\<lparr>kern := pcb_common_init 1 (kern S)\<rparr>)"
  obtain x S1 where 1: "on_mm 1 (mm_init True) ?S = (x, S1)" by fastforce
  obtain y S2 where 2: "on_mm 1 (address_space_init L) S1 = (y, S2)" by fastforce
  have x: "x = Inr ()" "allocs (vms S1) = []"
    using on_mm_allocs [OF 1] assms(1) by (auto simp: mm_init_def set_map_def upd_proc_def)
  have y: "y = Inr ()"
    using on_mm_allocs [OF 2] address_space_init_ok [of "(vms S1)\<lparr>mm := pmm (pcb_at (kern S1) 1)\<rparr>" L] x(2) by auto
  have "length (pids (kern S2)) = length (pids (kern ?S))" using kern_on_mm [OF 2] kern_on_mm [OF 1] by simp
  then have "length (proctab (kern S2)) = 256"
    using assms(2) by (simp add: pids_def upd_proc_def pcb_common_init_def)
  with 1 2 x y show ?thesis by (simp add: create_init_def upd_proc_def Let_def)
qed

lemma sched_start_ok:
  assumes "kern S = proctab_init k" "allocs (vms S) = []"
  shows "\<exists>S'. sched_start L True True junk idle S = Ret S' \<and> state (pcb_at (kern S') 1) = PROC_READY"
proof -
  obtain i S1 where 1: "create_kernel_process L True junk idle 0 0 S = (Inr i, S1)" "allocs (vms S1) = []"
      "length (proctab (kern S1)) = 256"
    using create_kernel_boot [OF assms] by blast
  obtain S2 where 2: "create_init L True (S1\<lparr>kern := (kern S1)\<lparr>idle_pid := i\<rparr>\<rparr>) = Ret S2"
      "state (pcb_at (kern S2) 1) = PROC_READY" "ready_queue (kern S2) \<noteq> []"
    using create_init_ok [of "S1\<lparr>kern := (kern S1)\<lparr>idle_pid := i\<rparr>\<rparr>" L] 1(2,3) by auto
  then obtain p q where "ready_queue (kern S2) = p # q" by (cases "ready_queue (kern S2)") auto
  with 1 2 show ?thesis by (simp add: sched_start_def next_ready_def)
qed

section \<open>Forking\<close>

lemma clone_files_simps [simp]:
  "files (clone_files fs S) = files S" "mm (vms (clone_files fs S)) = mm (vms S)"
  "allocs (vms (clone_files fs S)) = allocs (vms S)" "privs (vms (clone_files fs S)) = privs (vms S)"
  by (induction fs S rule: clone_files.induct) (simp_all add: set_fcount_def)

lemma fcount_clone_files: "fcount (clone_files fs S) f = fcount S f + of_nat (count_list fs (Some f))"
  by (induction fs S rule: clone_files.induct) auto

text \<open>The areas of an address space that map a file.\<close>

definition map_refs :: "vm_state \<Rightarrow> vma list \<Rightarrow> nat \<Rightarrow> nat" where
  "map_refs V vs f = length (filter (\<lambda>v. vop v \<noteq> No_ops \<and> pfile (privs V (vprivate v)) = f) vs)"

lemma vm_clone_refs:
  assumes "vm_clone d v V = (new, V')"
  shows "f_count V' f = f_count V f + of_nat (map_refs V [v] f)" "pfile (privs V' i) = pfile (privs V i)"
    "allocs V' = allocs V"
  using assms by (auto simp: vm_clone_def mmap_clone_def private_ref_def map_refs_def Let_def split: if_splits)

lemma clone_areas_refs:
  assumes "allocs V = []" "clone_areas vs V = (True, V')"
  shows "f_count V' f = f_count V f + of_nat (map_refs V vs f)"
  using assms
proof (induction vs arbitrary: V)
  case (Cons v vs)
  obtain new V1 where 1: "vm_clone (new_vma (vstart v) (vend v) (vflags v) 0) v V = (new, V1)" by fastforce
  let ?V = "set_map (mmap (mm V1) @ [new]) V1"
  have 2: "clone_areas vs ?V = (True, V')"
    using Cons.prems 1 by (simp add: slab_result_def)
  note r = vm_clone_refs [OF 1]
  have "f_count V' f = f_count ?V f + of_nat (map_refs ?V vs f)"
    using Cons.IH [OF _ 2] r(3) Cons.prems(1) by (simp add: set_map_def)
  moreover have "map_refs ?V vs f = map_refs V vs f" using r(2) by (simp add: map_refs_def set_map_def)
  moreover have "map_refs V (v # vs) f = map_refs V [v] f + map_refs V vs f" by (simp add: map_refs_def)
  ultimately show ?case using r(1) [of f] by (simp add: set_map_def algebra_simps)
qed (simp add: map_refs_def)

lemma mm_clone_ok:
  assumes "allocs V = []"
  shows "\<exists>V'. mm_clone True src V = (Inr (), V') \<and> brk (mm V') = brk src \<and>
    map area_image (mmap (mm V')) = map area_image (mmap src) \<and>
    (\<forall>f. f_count V' f = f_count V f + of_nat (map_refs V (mmap src) f))"
proof -
  have a: "allocs (set_map [] V) = []" using assms by (simp add: set_map_def)
  obtain V' where V': "clone_areas (mmap src) (set_map [] V) = (True, V')"
      "map area_image (mmap (mm V')) = map area_image (mmap src)"
    using clone_areas_ok [of "set_map [] V" "mmap src"] assms by (auto simp: set_map_def)
  have "map_refs (set_map [] V) vs f = map_refs V vs f" for vs f by (simp add: map_refs_def set_map_def)
  then have "f_count V' f = f_count V f + of_nat (map_refs V (mmap src) f)" for f
    using clone_areas_refs [OF a V'(1), of f] by (simp add: set_map_def)
  then show ?thesis using V' by (simp add: mm_clone_def)
qed

text \<open>The record of a child, and of the parent, as \<^verbatim>\<open>fork\<close> leaves them.\<close>

definition forked_child :: "u32 \<Rightarrow> pcb \<Rightarrow> mm_struct \<Rightarrow> pcb \<Rightarrow> pcb" where
  "forked_child now c M d =
     d\<lparr>timestamp := now, state := PROC_READY, children := [], child_stats := [], posix_timers_of := [],
       esp := esp c, ifp := ifp c, sig := sig_clone (sig d) (sig c), filp := filp c, pid := pid d + PT_SIZE,
       parent_pid := pid c, pflags := pflags c, root := root c, pwd := pwd c, pmm := M,
       words := (words c)(esp c + 20 := 0)\<rparr>"

definition forked_parent :: "nat \<Rightarrow> pcb \<Rightarrow> pcb" where
  "forked_parent p c = c\<lparr>words := (words c)(esp c + 20 := 0), children := children c @ [p]\<rparr>"

lemma pcb_clone_state:
  assumes cur: "src < length (proctab (kern S))" and len: "length (proctab (kern S)) = 256"
    and p: "get_free_pcb (kern S) = Some (p, k)" "p \<noteq> src"
  shows "\<exists>S'. pcb_clone src S = Some (p, S') \<and>
    pcb_at (kern S') p = (pcb_at (kern S) p)\<lparr>timestamp := tick_count (kern S), state := PROC_NASCENT, children := [],
      child_stats := [], posix_timers_of := [], esp := esp (pcb_at (kern S) src), ifp := ifp (pcb_at (kern S) src),
      sig := sig_clone (sig (pcb_at (kern S) p)) (sig (pcb_at (kern S) src)), filp := filp (pcb_at (kern S) src),
      pid := pid (pcb_at (kern S) p) + PT_SIZE, parent_pid := pid (pcb_at (kern S) src),
      pflags := pflags (pcb_at (kern S) src), root := root (pcb_at (kern S) src), pwd := pwd (pcb_at (kern S) src)\<rparr> \<and>
    pcb_at (kern S') src = (pcb_at (kern S) src)\<lparr>children := children (pcb_at (kern S) src) @ [p]\<rparr> \<and>
    (\<forall>q. q \<noteq> p \<longrightarrow> q \<noteq> src \<longrightarrow> pcb_at (kern S') q = pcb_at (kern S) q) \<and>
    length (proctab (kern S')) = 256 \<and> current (kern S') = current (kern S) \<and>
    ready_queue (kern S') = ready_queue (kern S) \<and> zombies (kern S') = zombies (kern S) \<and>
    chain_bad (kern S') = chain_bad (kern S) \<and> files S' = files S \<and> allocs (vms S') = allocs (vms S) \<and>
    privs (vms S') = privs (vms S) \<and>
    (\<forall>f. fcount S' f = fcount S f + of_nat (count_list (filp (pcb_at (kern S) src)) (Some f)))"
proof -
  note d = get_free_pcbD [OF p(1)]
  have k: "pcb_at k src = pcb_at (kern S) src" "length (proctab k) = 256"
    "pcb_at k p = (pcb_at (kern S) p)\<lparr>timestamp := tick_count (kern S), state := PROC_NASCENT, children := [],
      child_stats := [], posix_timers_of := []\<rparr>" "current k = current (kern S)" "ready_queue k = ready_queue (kern S)"
    "zombies k = zombies (kern S)" "chain_bad k = chain_bad (kern S)"
    "\<And>q. q \<noteq> p \<Longrightarrow> pcb_at k q = pcb_at (kern S) q"
    using d p(2) len by (simp_all add: pcb_common_init_def pcb_at_upd)
  have fc: "fcount (clone_files fs (S\<lparr>kern := k\<rparr>)) f = fcount S f + of_nat (count_list fs (Some f))" for fs f
    by (simp add: fcount_clone_files) (simp add: fcount_def)
  show ?thesis
    using p d(1) k cur len
    by (simp add: pcb_clone_def Let_def upd_proc_def pcb_at_upd fc [unfolded fcount_def] fcount_def)
qed

lemma get_free_pcb_ex:
  assumes "i < 256" "state (pcb_at k i) = PROC_DEAD"
  shows "\<exists>p k'. get_free_pcb k = Some (p, k')"
proof -
  have "find (\<lambda>i. state (pcb_at k i) = PROC_DEAD) [0..<256] \<noteq> None"
    using assms by (auto simp: find_None_iff)
  then show ?thesis unfolding get_free_pcb_def by (auto split: option.split)
qed

lemma on_mm_clone:
  assumes "allocs (vms S) = []"
  shows "\<exists>V M. on_mm p (mm_clone True src) S = (Inr (), upd_proc p (\<lambda>c. c\<lparr>pmm := M\<rparr>) (S\<lparr>vms := V\<rparr>)) \<and>
    brk M = brk src \<and> map area_image (mmap M) = map area_image (mmap src) \<and>
    (\<forall>f. f_count V f = fcount S f + of_nat (map_refs (vms S) (mmap src) f))"
proof -
  let ?V = "(vms S)\<lparr>mm := pmm (pcb_at (kern S) p)\<rparr>"
  obtain V where V: "mm_clone True src ?V = (Inr (), V)" "brk (mm V) = brk src"
      "map area_image (mmap (mm V)) = map area_image (mmap src)"
      "\<And>f. f_count V f = f_count ?V f + of_nat (map_refs ?V (mmap src) f)"
    using mm_clone_ok [of ?V src] assms by auto
  have "map_refs ?V vs f = map_refs (vms S) vs f" for vs f by (simp add: map_refs_def)
  then show ?thesis using V by (auto simp: on_mm_def fcount_def)
qed

lemma fork_state:
  assumes ok: "sched_ok (kern S)" and len: "length (proctab (kern S)) = 256"
    and free: "i < 256" "state (pcb_at (kern S) i) = PROC_DEAD" and mem: "allocs (vms S) = []"
  shows "\<exists>p M S'. sys_fork True S = (Inr (pid (pcb_at (kern S) p) + PT_SIZE), S') \<and>
    p < 256 \<and> state (pcb_at (kern S) p) = PROC_DEAD \<and>
    proctab (kern S') = (proctab (kern S))[current (kern S) := forked_parent p (curp S),
      p := forked_child (tick_count (kern S)) (curp S) M (pcb_at (kern S) p)] \<and>
    brk M = brk (pmm (curp S)) \<and> map area_image (mmap M) = map area_image (mmap (pmm (curp S))) \<and>
    current (kern S') = current (kern S) \<and> ready_queue (kern S') = ready_queue (kern S) @ [p] \<and>
    zombies (kern S') = zombies (kern S) \<and> \<not> chain_bad (kern S') \<and> files S' = files S \<and>
    (\<forall>f. fcount S' f = fcount S f + of_nat (count_list (filp (curp S)) (Some f))
            + of_nat (map_refs (vms S) (mmap (pmm (curp S))) f))"
proof -
  let ?c = "current (kern S)" and ?S = "upd_cur (\<lambda>c. c\<lparr>words := (words c)(esp c + 20 := 0)\<rparr>) S"
  have cur: "?c < 256" "state (pcb_at (kern S) ?c) = PROC_READY" "?c \<notin> set (ready_queue (kern S))"
    using sched_okD [OF ok] len by simp_all
  have k: "kern ?S = upd_pcb ?c (\<lambda>c. c\<lparr>words := (words c)(esp c + 20 := 0)\<rparr>) (kern S)" "vms ?S = vms S"
    "files ?S = files S" "\<And>f. fcount ?S f = fcount S f"
    by (simp_all add: upd_cur_def fcount_def)
  have ic: "i \<noteq> ?c" using free cur(2) by auto
  obtain p k' where p: "get_free_pcb (kern ?S) = Some (p, k')"
    using get_free_pcb_ex [of i "kern ?S"] free ic cur len by (auto simp: k pcb_at_upd)
  have pc: "p \<noteq> ?c" and dead: "p < 256" "state (pcb_at (kern S) p) = PROC_DEAD"
    using get_free_pcbD [OF p] cur len by (auto simp: k pcb_at_upd split: if_splits)
  have q: "p \<notin> set (ready_queue (kern S))" "p \<notin> set (zombies (kern S))" "\<not> chain_bad (kern S)"
    using sched_okD(1) [OF ok] dead(2) by (auto simp: queues_ok_def)
  obtain S1 where S1: "pcb_clone ?c ?S = Some (p, S1)"
    "pcb_at (kern S1) p = (pcb_at (kern S) p)\<lparr>timestamp := tick_count (kern S), state := PROC_NASCENT, children := [],
      child_stats := [], posix_timers_of := [], esp := esp (curp S), ifp := ifp (curp S),
      sig := sig_clone (sig (pcb_at (kern S) p)) (sig (curp S)), filp := filp (curp S),
      pid := pid (pcb_at (kern S) p) + PT_SIZE, parent_pid := pid (curp S),
      pflags := pflags (curp S), root := root (curp S), pwd := pwd (curp S)\<rparr>"
    "pcb_at (kern S1) ?c = forked_parent p (curp S)"
    "\<And>q. q \<noteq> p \<Longrightarrow> q \<noteq> ?c \<Longrightarrow> pcb_at (kern S1) q = pcb_at (kern S) q"
    "length (proctab (kern S1)) = 256" "current (kern S1) = ?c" "ready_queue (kern S1) = ready_queue (kern S)"
    "zombies (kern S1) = zombies (kern S)" "\<not> chain_bad (kern S1)" "files S1 = files S" "allocs (vms S1) = []"
    "privs (vms S1) = privs (vms S)" "\<And>f. fcount S1 f = fcount S f + of_nat (count_list (filp (curp S)) (Some f))"
    using pcb_clone_state [of ?c ?S, OF _ _ p pc] cur len q pc mem
    apply (simp add: k pcb_at_upd)
    apply (elim exE conjE)
    subgoal for S' by (rule that [of S']) (simp_all add: forked_parent_def curp_def cur_def)
    done
  obtain V M where V: "on_mm p (mm_clone True (pmm (curp S1))) S1 =
      (Inr (), upd_proc p (\<lambda>c. c\<lparr>pmm := M\<rparr>) (S1\<lparr>vms := V\<rparr>))" "brk M = brk (pmm (curp S1))"
    "map area_image (mmap M) = map area_image (mmap (pmm (curp S1)))"
    "\<And>f. f_count V f = fcount S1 f + of_nat (map_refs (vms S1) (mmap (pmm (curp S1))) f)"
    using on_mm_clone [OF S1(11)] by blast
  have mm: "pmm (curp S1) = pmm (curp S)" using S1(3,6) by (simp add: forked_parent_def curp_def cur_def)
  have mr: "map_refs (vms S1) vs f = map_refs (vms S) vs f" for vs f using S1(12) by (simp add: map_refs_def)
  define S2 where "S2 = upd_proc p (\<lambda>c. c\<lparr>words := words (curp S1)\<rparr>) (upd_proc p (\<lambda>c. c\<lparr>pmm := M\<rparr>) (S1\<lparr>vms := V\<rparr>))"
  have w: "words (curp S1) = (words (curp S))(esp (curp S) + 20 := 0)" using S1(3,6) by (simp add: forked_parent_def curp_def cur_def)
  have same: "words (curp (upd_proc p (\<lambda>c. c\<lparr>pmm := M\<rparr>) (S1\<lparr>vms := V\<rparr>))) = words (curp S1)"
    using S1(5,6) dead by (simp add: upd_proc_def curp_def cur_def pcb_at_upd)
  have fork: "sys_fork True S = (Inr (pid (pcb_at (kern S) p) + PT_SIZE), S2\<lparr>kern := ready p (kern S2)\<rparr>)"
    using S1(1,2,5,6) V(1) pc dead
    by (simp add: sys_fork_def Let_def k S2_def same, simp add: upd_proc_def pcb_at_upd)
  have at: "pcb_at (kern (S2\<lparr>kern := ready p (kern S2)\<rparr>)) q =
    (if q = p then forked_child (tick_count (kern S)) (curp S) M (pcb_at (kern S) p)
     else if q = ?c then forked_parent p (curp S) else pcb_at (kern S) q)" for q
    using S1(2-5) dead w
    by (cases "pcb_at (kern S) p") (simp add: S2_def upd_proc_def ready_def set_state_def pcb_at_upd forked_child_def)
  have "proctab (ready p (kern S2)) = (proctab (kern S))[?c := forked_parent p (curp S),
      p := forked_child (tick_count (kern S)) (curp S) M (pcb_at (kern S) p)]"
    using at S1(5) len
    by (intro nth_equalityI) (auto simp: S2_def upd_proc_def nth_list_update pcb_at_def)
  moreover have "fcount (S2\<lparr>kern := k\<rparr>) f = f_count V f" for k f by (simp add: S2_def upd_proc_def fcount_def)
  ultimately show ?thesis
    using fork dead V(2-4) S1(6-10,13) q
    by (intro exI [of _ p] exI [of _ M] exI [of _ "S2\<lparr>kern := ready p (kern S2)\<rparr>"])
      (simp add: mm mr, simp add: S2_def upd_proc_def ready_def)
qed

subsection \<open>Exit and wait\<close>

text \<open>What the signals and list moves of \<^verbatim>\<open>do_exit\<close> leave alone in every process.\<close>

definition kin :: "pcb \<Rightarrow> nat list \<times> int \<times> mm_struct \<times> nat option list" where
  "kin c = (children c, pid c, pmm c, filp c)"

lemma kin_simps [simp]:
  "kin (c\<lparr>child_stats := x\<rparr>) = kin c" "kin (c\<lparr>parent_pid := i\<rparr>) = kin c" "kin (c\<lparr>state := s\<rparr>) = kin c"
  by (simp_all add: kin_def)

lemma kin_upd: "(\<And>c. kin (g c) = kin c) \<Longrightarrow> kin (pcb_at (upd_pcb p g k) q) = kin (pcb_at k q)"
  by (simp add: pcb_at_upd)

lemma do_kill_keeps [simp]:
  "kin (pcb_at (do_kill p s c k) q) = kin (pcb_at k q)"
  "child_stats (pcb_at (do_kill p s c k) q) = child_stats (pcb_at k q)"
  "length (proctab (do_kill p s c k)) = length (proctab k)"
  "zombies (do_kill p s c k) = zombies k" "current (do_kill p s c k) = current k"
  "q \<noteq> p \<Longrightarrow> pcb_at (do_kill p s c k) q = pcb_at k q"
  by (simp_all add: do_kill_def Let_def upd_sig_def wake_def ready_def set_state_def pcb_at_upd kin_def)

lemma do_kill_alive:
  "state (pcb_at (do_kill p s c k) q) = PROC_DEAD \<Longrightarrow> state (pcb_at k q) = PROC_DEAD"
  by (simp add: do_kill_def Let_def upd_sig_def wake_def ready_def set_state_def pcb_at_upd split: if_splits)

lemma assert_status_keeps [simp]:
  "kin (pcb_at (assert_status i s k) q) = kin (pcb_at k q)"
  "child_stats (pcb_at (assert_status i s k) q) =
     child_stats (pcb_at k q) @ (if q = i \<and> i < length (proctab k) then [s] else [])"
  "length (proctab (assert_status i s k)) = length (proctab k)"
  "zombies (assert_status i s k) = zombies k" "current (assert_status i s k) = current k"
  "q \<noteq> i \<Longrightarrow> pcb_at (assert_status i s k) q = pcb_at k q"
  by (simp_all add: assert_status_def pcb_at_upd)

lemma assert_status_alive:
  "state (pcb_at (assert_status i s k) q) = PROC_DEAD \<Longrightarrow> state (pcb_at k q) = PROC_DEAD"
  by (auto simp: assert_status_def pcb_at_upd dest!: do_kill_alive split: if_splits)

lemma reparent_keeps [simp]:
  "kin (pcb_at (reparent qs k) q) = kin (pcb_at k q)"
  "child_stats (pcb_at (reparent qs k) q) = child_stats (pcb_at k q)"
  "state (pcb_at (reparent qs k) q) = state (pcb_at k q)"
  "pid (pcb_at (reparent qs k) q) = pid (pcb_at k q)"
  "length (proctab (reparent qs k)) = length (proctab k)"
  "zombies (reparent qs k) = zombies k" "current (reparent qs k) = current k"
  by (induction qs arbitrary: k) (simp_all add: pcb_at_upd)

lemma move_stats_all:
  assumes "p \<noteq> i" "i < length (proctab k)"
  shows "(\<forall>q. kin (pcb_at (move_stats p i ss k) q) = kin (pcb_at k q)) \<and>
    (\<forall>q. q \<noteq> p \<longrightarrow>
      child_stats (pcb_at (move_stats p i ss k) q) = child_stats (pcb_at k q) @ (if q = i then ss else [])) \<and>
    length (proctab (move_stats p i ss k)) = length (proctab k) \<and>
    zombies (move_stats p i ss k) = zombies k \<and> current (move_stats p i ss k) = current k \<and>
    (\<forall>q. state (pcb_at (move_stats p i ss k) q) = PROC_DEAD \<longrightarrow> state (pcb_at k q) = PROC_DEAD)"
  using assms
proof (induction ss arbitrary: k)
  case (Cons s ss)
  let ?k = "upd_pcb p (\<lambda>c. c\<lparr>child_stats := remove1 s (child_stats c)\<rparr>) k"
  have "state (pcb_at (assert_status i s ?k) q) = PROC_DEAD \<Longrightarrow> state (pcb_at k q) = PROC_DEAD" for q
    using assert_status_alive [of i s ?k q] by (simp add: pcb_at_upd split: if_splits)
  then show ?case
    using Cons.IH [of "assert_status i s ?k"] Cons.prems by (auto simp: pcb_at_upd)
qed simp

lemma move_stats_keeps:
  assumes "p \<noteq> i" "i < length (proctab k)"
  shows "kin (pcb_at (move_stats p i ss k) q) = kin (pcb_at k q)"
    "q \<noteq> p \<Longrightarrow> child_stats (pcb_at (move_stats p i ss k) q) = child_stats (pcb_at k q) @ (if q = i then ss else [])"
    "length (proctab (move_stats p i ss k)) = length (proctab k)"
    "zombies (move_stats p i ss k) = zombies k" "current (move_stats p i ss k) = current k"
    "state (pcb_at (move_stats p i ss k) q) = PROC_DEAD \<Longrightarrow> state (pcb_at k q) = PROC_DEAD"
  using move_stats_all [OF assms, of ss] by simp_all

lemma status_word: "stat_word \<lparr>st_pid = i, st_status = uint w\<rparr> = w"
  by (simp add: stat_word_def)

lemma bit_masks: "bit (3 :: int) n \<longleftrightarrow> n < 2" "bit (1073741823 :: int) n \<longleftrightarrow> n < 30"
proof -
  have "(3 :: int) = semiring_bit_operations_class.mask 2"
    "(1073741823 :: int) = semiring_bit_operations_class.mask 30"
    by (simp_all add: mask_eq_exp_minus_1)
  then show "bit (3 :: int) n \<longleftrightarrow> n < 2" "bit (1073741823 :: int) n \<longleftrightarrow> n < 30"
    by (simp_all only: bit_mask_iff) auto
qed

lemma WHOW_make_status: "WHOW (make_status how v) = how AND 3"
  by (rule bit_word_eqI) (auto simp: WHOW_def make_status_def bit_and_iff bit_or_iff bit_push_bit_iff bit_masks)

lemma WVALUE_make_status: "WVALUE (make_status how v) = take_bit 30 v"
  by (rule bit_word_eqI) (auto simp: WVALUE_def make_status_def bit_and_iff bit_or_iff bit_not_iff bit_push_bit_iff bit_drop_bit_eq bit_take_bit_iff bit_masks)

lemma exit_status:
  "WHOW (make_status WS_EXITED v) = WS_EXITED" "WIFEXITED (make_status WS_EXITED v)"
  "status_to_si_code (make_status WS_EXITED v) = 24" "uint (WVALUE (make_status WS_EXITED v)) = uint v mod 2 ^ 30"
  using WHOW_make_status [of WS_EXITED v]
  by (simp_all add: status_to_si_code_def WIFEXITED_def WVALUE_make_status WHOW_def unsigned_take_bit_eq
      take_bit_eq_mod [of 30 "uint v"])

lemma find_append_Cons: "(\<And>x. x \<in> set xs \<Longrightarrow> \<not> P x) \<Longrightarrow> P y \<Longrightarrow> List.find P (xs @ y # ys) = Some y"
  by (induction xs) auto

lemma pcb_at_reaped:
  assumes "p < length (proctab k)" "q < length (proctab k)"
  shows "pcb_at (reap p (del_child_chain p k)) q =
    (pcb_at k q)\<lparr>children := remove1 p (children (pcb_at k q)), state := if q = p then PROC_DEAD else state (pcb_at k q)\<rparr>"
  using assms by (simp add: reap_def del_child_chain_def set_state_def pcb_at_upd) (simp add: pcb_at_def)

lemma get_pcb_dead: "nat (i mod PT_SIZE) = p \<Longrightarrow> state (pcb_at k p) = PROC_DEAD \<Longrightarrow> get_pcb i k = None"
  by (simp add: get_pcb_def)

lemma close_all_none:
  assumes "\<And>j. j < i + n \<Longrightarrow> filp (curp S) ! j = None"
  shows "close_all ops i n S = Ret S"
  using assms by (induction n arbitrary: i) simp_all

text \<open>The exit of a process with no open file.\<close>

lemma do_exit_state:
  assumes ids: "pids_ok (kern S)" and p: "p < 256" "state (pcb_at (kern S) p) \<noteq> PROC_DEAD"
    and files: "filp (curp S) = replicate 8 None"
    and q: "get_pcb (parent_pid (pcb_at (kern S) p)) (kern S) = Some q" "q \<noteq> p"
    and i: "get_pcb 1 (kern S) = Some i" "i \<noteq> p" and mem: "allocs (vms S) = []"
  shows "\<exists>S'. do_exit ops p v S = Ret S' \<and>
    state (pcb_at (kern S') p) = PROC_ZOMBIE \<and> zombies (kern S') = zombies (kern S) @ [p] \<and>
    pids_ok (kern S') \<and> pid (pcb_at (kern S') p) = pid (pcb_at (kern S) p) \<and>
    children (pcb_at (kern S') q) = children (pcb_at (kern S) q) \<and> pmm (pcb_at (kern S') q) = pmm (pcb_at (kern S) q) \<and>
    child_stats (pcb_at (kern S') q) = child_stats (pcb_at (kern S) q) @
      \<lparr>st_pid = pid (pcb_at (kern S) p), st_status = uint (make_status WS_EXITED v)\<rparr> #
      (if q = i then child_stats (pcb_at (kern S) p) else [])"
proof -
  let ?s = "\<lparr>st_pid = pid (pcb_at (kern S) p), st_status = uint (make_status WS_EXITED v)\<rparr>"
  let ?k = "assert_status q ?s (kern S)" and ?S = "S\<lparr>kern := assert_status q ?s (kern S)\<rparr>"
  have len: "length (proctab (kern S)) = 256" using ids by (simp add: pids_ok_def)
  have lt: "q < 256" "i < 256" using get_pcb_SomeD [OF q(1)] get_pcb_SomeD [OF i(1)] by simp_all
  have 1: "report_status p WS_EXITED v S = Ret ?S"
    using q(1) mem by (simp add: report_status_def slab_result_def)
  have kin: "kin (pcb_at ?k x) = kin (pcb_at (kern S) x)" for x by simp
  have "filp (curp ?S) = replicate 8 None"
    using files kin [of "current (kern S)"] by (simp add: curp_def cur_def kin_def)
  then have 2: "close_all ops 0 8 ?S = Ret ?S" using close_all_none [of 0 8 ?S] by simp
  define k where "k = reparent (children (pcb_at ?k p)) ?k"
  define ss where "ss = child_stats (pcb_at k p)"
  have "pids k = pids (kern S)" by (simp add: k_def)
  then have ids': "pids_ok k" using ids pids_ok_cong [of k] by simp
  have "state (pcb_at k i) \<noteq> PROC_DEAD" "pid (pcb_at k i) = 1"
    using get_pcb_SomeD [OF i(1)] assert_status_alive [of q ?s "kern S" i] kin [of i] by (auto simp: k_def kin_def)
  then have i': "get_pcb 1 k = Some i" using get_pcb_pid [OF ids' lt(2)] by simp
  have k: "length (proctab k) = 256" "zombies k = zombies (kern S)" "kin (pcb_at k x) = kin (pcb_at (kern S) x)"
    "child_stats (pcb_at k x) = child_stats (pcb_at (kern S) x) @ (if x = q then [?s] else [])" for x
    using len lt by (simp_all add: k_def)
  define k2 where "k2 = move_stats p i ss k"
  note m = move_stats_keeps [OF i(2) [symmetric], where k = k and ss = ss, folded k2_def]
  define S2 where "S2 = snd (on_mm p (\<lambda>V. ((), mm_fini V)) (?S\<lparr>kern := k2\<rparr>))"
  have "exit_rest p ?S = Ret (S2\<lparr>kern := zombie p (kern S2)\<rparr>)"
    using i' i(2) by (simp add: exit_rest_def Let_def k_def [symmetric] ss_def [symmetric] k2_def S2_def)
  then have "do_exit ops p v S = Ret (S2\<lparr>kern := zombie p (kern S2)\<rparr>)" by (simp add: do_exit_def 1 2)
  moreover obtain M where S2: "kern S2 = upd_pcb p (\<lambda>c. c\<lparr>pmm := M\<rparr>) k2"
    by (simp add: S2_def on_mm_def upd_proc_def)
  moreover have "pids (zombie p (kern S2)) = pids (kern S)" by (simp add: S2 k2_def k_def)
  then have "pids_ok (zombie p (kern S2))" using ids pids_ok_cong by blast
  moreover have "kin (pcb_at k2 x) = kin (pcb_at (kern S) x)" for x using m(1) k lt by simp
  moreover have "length (proctab k2) = 256" "zombies k2 = zombies (kern S)" "ss = child_stats (pcb_at (kern S) p)"
    "child_stats (pcb_at k2 q) = child_stats (pcb_at k q) @ (if q = i then ss else [])"
    using m(2-4) k lt q(2) by (simp_all add: ss_def)
  ultimately show ?thesis
    using p(1) q(2) k(4) by (auto simp: zombie_def set_state_def pcb_at_upd kin_def)
qed

section \<open>Properties\<close>


definition layout0 :: layout where
  "layout0 = \<lparr>urostart = 0x400000, uroend = 0x402000, krostart = 0x500000, kroend = 0x501000,
     kproc_exit = 0x600000, init_addr = 0x400000, root_inode = 0\<rparr>"

definition boot_sys :: ksys where
  "boot_sys = ksys0\<lparr>kern := proctab_init (kern ksys0)\<rparr>"


text \<open>
  C13: \<^verbatim>\<open>fork\<close> with a free slot and memory returns the new pid to the parent.  The child is ready, has 0
  in its saved \<^verbatim>\<open>eax\<close>, the registers, memory, open files, signal table and directories of the parent,
  and is the last of the children of the parent and the last of the ready queue.  Every file the child
  shares or maps gets one reference for each use, nothing else changes in the process table, and the
  queues stay well formed.
\<close>

theorem fork_child:
  assumes ok: "sched_ok (kern S)" and len: "length (proctab (kern S)) = 256"
    and free: "i < 256" "state (pcb_at (kern S) i) = PROC_DEAD" and mem: "allocs (vms S) = []"
  shows "\<exists>p M S'. sys_fork True S = (Inr (pid (pcb_at (kern S) p) + PT_SIZE), S') \<and>
    p < 256 \<and> state (pcb_at (kern S) p) = PROC_DEAD \<and>
    proctab (kern S') = (proctab (kern S))[current (kern S) := forked_parent p (curp S),
      p := forked_child (tick_count (kern S)) (curp S) M (pcb_at (kern S) p)] \<and>
    brk M = brk (pmm (curp S)) \<and> map area_image (mmap M) = map area_image (mmap (pmm (curp S))) \<and>
    ready_queue (kern S') = ready_queue (kern S) @ [p] \<and> sched_ok (kern S') \<and> files S' = files S \<and>
    (\<forall>f. fcount S' f = fcount S f + of_nat (count_list (filp (curp S)) (Some f))
            + of_nat (map_refs (vms S) (mmap (pmm (curp S))) f))"
proof -
  obtain p M S' where f: "sys_fork True S = (Inr (pid (pcb_at (kern S) p) + PT_SIZE), S')"
    "p < 256" "state (pcb_at (kern S) p) = PROC_DEAD"
    "proctab (kern S') = (proctab (kern S))[current (kern S) := forked_parent p (curp S),
      p := forked_child (tick_count (kern S)) (curp S) M (pcb_at (kern S) p)]"
    "brk M = brk (pmm (curp S))" "map area_image (mmap M) = map area_image (mmap (pmm (curp S)))"
    "current (kern S') = current (kern S)" "ready_queue (kern S') = ready_queue (kern S) @ [p]"
    "zombies (kern S') = zombies (kern S)" "\<not> chain_bad (kern S')" "files S' = files S"
    "\<And>f. fcount S' f = fcount S f + of_nat (count_list (filp (curp S)) (Some f))
            + of_nat (map_refs (vms S) (mmap (pmm (curp S))) f)"
    using fork_state [OF assms] by blast
  have "state (pcb_at (kern S') q) = (if q = p then PROC_READY else state (pcb_at (kern S) q))" if "q < 256" for q
    using that f(2,4) len sched_okD(2) [OF ok]
    by (auto simp: pcb_at_def nth_list_update forked_child_def forked_parent_def curp_def cur_def)
  moreover have "length (proctab (kern S')) = 256" using f(4) len by simp
  moreover note sched_okD [OF ok]
  ultimately have "sched_ok (kern S')"
    using f(2,3,7-10) len by (auto simp: sched_ok_def queues_ok_def)
  then show ?thesis using f by blast
qed

definition fork_sys :: ksys where
  "fork_sys = ksys0\<lparr>kern := kernel0\<lparr>proctab := proctab (kern ksys0) @ map (\<lambda>i. pcb0 (int i) PROC_DEAD) [4..<256]\<rparr>\<rparr>"

lemma fork_sys_simps:
  "sched_ok (kern fork_sys)" "length (proctab (kern fork_sys)) = 256" "allocs (vms fork_sys) = []"
  "pcb_at (kern fork_sys) 0 = pcb0 256 PROC_READY"
  "pcb_at (kern fork_sys) 1 = (pcb0 1 PROC_READY)\<lparr>filp := Some 0 # replicate 7 None\<rparr>"
  "pcb_at (kern fork_sys) 2 = pcb0 2 PROC_INTERRUPTIBLE" "pcb_at (kern fork_sys) 3 = pcb0 3 PROC_READY"
  "4 \<le> i \<Longrightarrow> i < 256 \<Longrightarrow> pcb_at (kern fork_sys) i = pcb0 (int i) PROC_DEAD"
  "current (kern fork_sys) = 1"
  "pcb_at (kern fork_sys) (Suc 0) = (pcb0 1 PROC_READY)\<lparr>filp := Some 0 # replicate 7 None\<rparr>"
proof -
  let ?k = "kern fork_sys"
  show a: "pcb_at ?k 0 = pcb0 256 PROC_READY"
    "pcb_at ?k 1 = (pcb0 1 PROC_READY)\<lparr>filp := Some 0 # replicate 7 None\<rparr>"
    "pcb_at ?k 2 = pcb0 2 PROC_INTERRUPTIBLE" "pcb_at ?k 3 = pcb0 3 PROC_READY"
    by (simp_all add: fork_sys_def pcb_at_def proctab_ksys0)
  then show "pcb_at ?k (Suc 0) = (pcb0 1 PROC_READY)\<lparr>filp := Some 0 # replicate 7 None\<rparr>" by simp
  show l: "length (proctab ?k) = 256" by (simp add: fork_sys_def proctab_ksys0)
  show "4 \<le> i \<Longrightarrow> i < 256 \<Longrightarrow> pcb_at ?k i = pcb0 (int i) PROC_DEAD"
    by (simp add: fork_sys_def pcb_at_def proctab_ksys0 nth_append nth_Cons' del: upt_rec_numeral)
  show "current ?k = 1" "allocs (vms fork_sys) = []" by (simp_all add: fork_sys_def ksys0_def vm0_def)
  have "ready_queue ?k = [0, 3]" "zombies ?k = []" "\<not> chain_bad ?k" "current ?k = 1"
    by (simp_all add: fork_sys_def)
  then show "sched_ok ?k" using a l by (simp add: sched_ok_def queues_ok_def)
qed

theorem fork_child_witness:
  "\<exists>p S'. sys_fork True fork_sys = (Inr (pid (pcb_at (kern fork_sys) p) + PT_SIZE), S') \<and>
     pcb_at (kern S') p = forked_child 0 (curp fork_sys) (pmm (pcb_at (kern S') p)) (pcb_at (kern fork_sys) p) \<and>
     fcount S' 0 = 2"
proof -
  have "fcount fork_sys 0 = 1" "filp (curp fork_sys) = Some 0 # replicate 7 None" "tick_count (kern fork_sys) = 0"
    "map_refs (vms fork_sys) (mmap (pmm (curp fork_sys))) 0 = 0"
    by (simp_all add: fork_sys_def fcount_def ksys0_simps [unfolded fcount_def] curp_def cur_def fork_sys_simps
        pcb_at_def proctab_ksys0 mm0_def map_refs_def)
  note c = this
  obtain p M S' where f: "sys_fork True fork_sys = (Inr (pid (pcb_at (kern fork_sys) p) + PT_SIZE), S')" "p < 256"
    "proctab (kern S') = (proctab (kern fork_sys))[current (kern fork_sys) := forked_parent p (curp fork_sys),
      p := forked_child (tick_count (kern fork_sys)) (curp fork_sys) M (pcb_at (kern fork_sys) p)]"
    "\<And>f. fcount S' f = fcount fork_sys f + of_nat (count_list (filp (curp fork_sys)) (Some f))
            + of_nat (map_refs (vms fork_sys) (mmap (pmm (curp fork_sys))) f)"
    using fork_child [of fork_sys 4] fork_sys_simps(1-3) fork_sys_simps(8) [of 4] by auto
  have "pcb_at (kern S') p = forked_child 0 (curp fork_sys) M (pcb_at (kern fork_sys) p)"
    using f(2,3) c(3) fork_sys_simps(2) by (simp add: pcb_at_def)
  then show ?thesis using f(1,4) c by (auto simp: forked_child_def)
qed

text \<open>
  C14: the value given to \<^verbatim>\<open>exit\<close> reaches \<^verbatim>\<open>waitid\<close>, and the child is reaped.  After the exit of a process
  with no open file, the process is a zombie; \<^verbatim>\<open>waitid\<close> by its parent returns its pid, \<^verbatim>\<open>CLD_EXITED\<close> and
  the exit value, of which the status word keeps 30 bits.  The process is then dead, is no child of the
  parent any more, and its pid names no process.
\<close>

theorem exit_waitid:
  assumes ids: "pids_ok (kern S)" and p: "p < 256" "state (pcb_at (kern S) p) \<noteq> PROC_DEAD"
    and files: "filp (curp S) = replicate 8 None"
    and q: "get_pcb (parent_pid (pcb_at (kern S) p)) (kern S) = Some q" "q \<noteq> p"
    and child: "p \<in> set (children (pcb_at (kern S) q))"
    and first: "\<forall>s \<in> set (child_stats (pcb_at (kern S) q)). st_pid s \<noteq> pid (pcb_at (kern S) p)"
    and i: "get_pcb 1 (kern S) = Some i" "i \<noteq> p" and mem: "allocs (vms S) = []"
    and buf: "cur_verify ((kern S)\<lparr>current := q\<rparr>) infop 36 VM_WRITE"
  shows "\<exists>S' info' k'. do_exit ops p v S = Ret S' \<and> state (pcb_at (kern S') p) = PROC_ZOMBIE \<and>
    sys_waitid P_PID (pid (pcb_at (kern S) p)) infop info WEXITED ((kern S')\<lparr>current := q\<rparr>)
      = Ret (Done (Inr info'), k') \<and>
    si_pid info' = pid (pcb_at (kern S) p) \<and> si_code info' = 24 \<and> si_status info' = uint v mod 2 ^ 30 \<and>
    state (pcb_at k' p) = PROC_DEAD \<and> get_pcb (pid (pcb_at (kern S) p)) k' = None \<and>
    children (pcb_at k' q) = remove1 p (children (pcb_at (kern S) q))"
proof -
  let ?i = "pid (pcb_at (kern S) p)" and ?w = "make_status WS_EXITED v"
  let ?s = "\<lparr>st_pid = ?i, st_status = uint ?w\<rparr>"
  obtain S' where S': "do_exit ops p v S = Ret S'" "state (pcb_at (kern S') p) = PROC_ZOMBIE"
    "zombies (kern S') = zombies (kern S) @ [p]" "pids_ok (kern S')" "pid (pcb_at (kern S') p) = ?i"
    "children (pcb_at (kern S') q) = children (pcb_at (kern S) q)"
    "pmm (pcb_at (kern S') q) = pmm (pcb_at (kern S) q)"
    "child_stats (pcb_at (kern S') q) = child_stats (pcb_at (kern S) q) @ ?s #
      (if q = i then child_stats (pcb_at (kern S) p) else [])"
    using do_exit_state [OF ids p files q i mem] by blast
  let ?k = "(kern S')\<lparr>current := q\<rparr>"
  have lt: "q < 256" using get_pcb_SomeD [OF q(1)] by simp
  have len: "length (proctab (kern S')) = 256" using S'(4) by (simp add: pids_ok_def)
  have w: "stat_word ?s = ?w" by (rule status_word)
  have "status_wanted P_PID ?i WEXITED ?s"
    by (simp add: status_wanted_def w exit_status)
  moreover have "\<not> status_wanted P_PID ?i WEXITED s" if "s \<in> set (child_stats (pcb_at (kern S) q))" for s
    using first that by (simp add: status_wanted_def)
  ultimately have "get_status P_PID ?i WEXITED ?k = Some ?s"
    using S'(8) by (simp add: get_status_def cur_def find_append_Cons)
  moreover have "cur_verify ?k infop 36 VM_WRITE" using buf S'(7) by (simp add: cur_verify_def cur_def)
  moreover have "children (cur ?k) \<noteq> []" using child S'(6) by (auto simp: cur_def)
  moreover have "get_pcb ?i ?k = Some p"
    using get_pcb_pid [OF S'(4) p(1)] S'(2,5) by (simp add: get_pcb_def)
  moreover have "nat (?i mod PT_SIZE) = p" using ids p(1) by (simp add: pids_ok_def)
  ultimately show ?thesis
    using S'(1,2,5,6) q(2) lt len p(1) child
    by (simp add: get_pcb_dead sys_waitid_def waitid_loop_def waitid_take_def w exit_status Let_def pcb_at_upd pcb_at_reaped)
qed

definition exit_sys :: ksys where
  "exit_sys = fork_sys\<lparr>kern := (upd_pcb 1 (\<lambda>c. c\<lparr>children := [3]\<rparr>) (kern fork_sys))\<lparr>current := 3\<rparr>\<rparr>"

lemma exit_sys_pcb: "pcb_at (kern exit_sys) i =
    (if i = 1 then (pcb_at (kern fork_sys) 1)\<lparr>children := [3]\<rparr> else pcb_at (kern fork_sys) i)"
  by (simp add: exit_sys_def pcb_at_upd fork_sys_simps)

lemma pids_ok_exit_sys: "pids_ok (kern exit_sys)"
proof -
  have "pid (pcb_at (kern exit_sys) i) mod 256 = int i" if "i < 256" for i
  proof (cases "4 \<le> i")
    case True
    then show ?thesis using that by (simp add: exit_sys_pcb fork_sys_simps)
  next
    case False
    then have "i = 0 \<or> i = 1 \<or> i = 2 \<or> i = 3" by auto
    then show ?thesis by (auto simp: exit_sys_pcb fork_sys_simps)
  qed
  then show ?thesis by (simp add: pids_ok_def exit_sys_def fork_sys_simps)
qed

theorem exit_waitid_witness:
  "\<forall>info. \<exists>S' info' k'. do_exit pipe_ops 3 7 exit_sys = Ret S' \<and>
    sys_waitid P_PID 3 0x2000 info WEXITED ((kern S')\<lparr>current := 1\<rparr>) = Ret (Done (Inr info'), k') \<and>
    si_pid info' = 3 \<and> si_status info' = 7 \<and> state (pcb_at k' 3) = PROC_DEAD"
proof -
  have "get_pcb 1 (kern exit_sys) = Some 1" by (simp add: get_pcb_def exit_sys_pcb fork_sys_simps)
  moreover have "filp (curp exit_sys) = replicate 8 None" "allocs (vms exit_sys) = []"
    by (simp_all add: curp_def cur_def exit_sys_def pcb_at_upd fork_sys_simps)
  moreover have "cur_verify ((kern exit_sys)\<lparr>current := 1\<rparr>) 0x2000 36 VM_WRITE"
    by (simp add: cur_verify_def cur_def exit_sys_pcb fork_sys_simps mm0_def vm_verify_def vma_get_def vma_find_def
        vma_contains_def)
  ultimately have "\<exists>S' info' k'. do_exit pipe_ops 3 7 exit_sys = Ret S' \<and>
    sys_waitid P_PID 3 0x2000 info WEXITED ((kern S')\<lparr>current := 1\<rparr>) = Ret (Done (Inr info'), k') \<and>
    si_pid info' = 3 \<and> si_status info' = 7 \<and> state (pcb_at k' 3) = PROC_DEAD" for info
    using exit_waitid [OF pids_ok_exit_sys, of 3 1 1 "0x2000" pipe_ops 7 info]
    by (auto simp: exit_sys_pcb fork_sys_simps pcb0_def)
  then show ?thesis by blast
qed

end
