(* ===== verification/CString.thy ===== *)
theory CString
  imports Telos_Prelude "HOL-Library.Monad_Syntax"
begin

text \<open>
  The string library, \<^verbatim>\<open>src/lib/string.c\<close>.  Memory is a function from 32-bit addresses to bytes,
  a pointer is an address and \<open>NULL\<close> is address 0.  A loop that runs until it meets a byte is a
  \<open>partial_function (option)\<close>: \<open>None\<close> is a loop that never ends.  \<^verbatim>\<open>char\<close> is signed on i386, so
  the comparisons subtract signed bytes, while the \<^verbatim>\<open>mem\<close> searches read unsigned ones.

  The lemmas give every function's result on zero-terminated strings (\<open>cstr\<close>), termination
  included, and the bytes it writes; the property at the end shows that calling \<^verbatim>\<open>strtok\<close> again
  and again yields exactly the non-empty fields of the string.
\<close>

section \<open>The functions\<close>

type_synonym mem = "u32 \<Rightarrow> u8"

partial_function (option) atoi_loop :: "mem \<Rightarrow> u32 \<Rightarrow> u32 \<Rightarrow> u32 option" where
  "atoi_loop m nptr n =
     (if m nptr \<noteq> 0 then atoi_loop m (nptr + 1) (n * 10 + (scast (m nptr) - 48)) else Some n)"

definition atoi :: "mem \<Rightarrow> u32 \<Rightarrow> u32 option" where
  "atoi m nptr = atoi_loop m nptr 0"

fun memcmp_loop :: "nat \<Rightarrow> mem \<Rightarrow> u32 \<Rightarrow> u32 \<Rightarrow> int" where
  "memcmp_loop 0 m c1 c2 = 0"
| "memcmp_loop (Suc n) m c1 c2 =
     (if m c1 \<noteq> m c2 then sint (m c1) - sint (m c2) else memcmp_loop n m (c1 + 1) (c2 + 1))"

definition memcmp :: "mem \<Rightarrow> u32 \<Rightarrow> u32 \<Rightarrow> u32 \<Rightarrow> int" where
  "memcmp m s1 s2 n = memcmp_loop (unat n) m s1 s2"

fun memcpy_loop :: "nat \<Rightarrow> mem \<Rightarrow> u32 \<Rightarrow> u32 \<Rightarrow> mem" where
  "memcpy_loop 0 m d s = m"
| "memcpy_loop (Suc n) m d s = memcpy_loop n (m(d := m s)) (d + 1) (s + 1)"

definition memcpy :: "mem \<Rightarrow> u32 \<Rightarrow> u32 \<Rightarrow> u32 \<Rightarrow> mem" where
  "memcpy m dest src n = memcpy_loop (unat n) m dest src"

fun memset_loop :: "nat \<Rightarrow> mem \<Rightarrow> u32 \<Rightarrow> u8 \<Rightarrow> mem" where
  "memset_loop 0 m d c = m"
| "memset_loop (Suc n) m d c = memset_loop n (m(d := c)) (d + 1) c"

definition memset :: "mem \<Rightarrow> u32 \<Rightarrow> u8 \<Rightarrow> u32 \<Rightarrow> u32 \<times> mem" where
  "memset m s c n = (s, memset_loop (unat n) m s c)"

fun memchr_loop :: "nat \<Rightarrow> mem \<Rightarrow> u32 \<Rightarrow> int \<Rightarrow> u32" where
  "memchr_loop 0 m p c = 0"
| "memchr_loop (Suc n) m p c = (if uint (m p) = c then p else memchr_loop n m (p + 1) c)"

definition memchr :: "mem \<Rightarrow> u32 \<Rightarrow> int \<Rightarrow> u32 \<Rightarrow> u32" where
  "memchr m s c n = memchr_loop (unat n) m s c"

text \<open>The index of \<^verbatim>\<open>memrchr\<close> starts at \<open>n - 1\<close>, in 32 bits, and the loop stops before index 0.\<close>

fun memrchr_loop :: "nat \<Rightarrow> mem \<Rightarrow> u32 \<Rightarrow> int \<Rightarrow> u32" where
  "memrchr_loop 0 m p c = 0"
| "memrchr_loop (Suc i) m p c =
     (if uint (m (p + of_nat (Suc i))) = c then p + of_nat (Suc i) else memrchr_loop i m p c)"

definition memrchr :: "mem \<Rightarrow> u32 \<Rightarrow> int \<Rightarrow> u32 \<Rightarrow> u32" where
  "memrchr m s c n = memrchr_loop (unat (n - 1)) m s c"

partial_function (option) rawmemchr :: "mem \<Rightarrow> u32 \<Rightarrow> int \<Rightarrow> u32 option" where
  "rawmemchr m p c = (if uint (m p) = c then Some p else rawmemchr m (p + 1) c)"

partial_function (option) strlen_loop :: "mem \<Rightarrow> u32 \<Rightarrow> u32 \<Rightarrow> u32 option" where
  "strlen_loop m s i = (if m (s + i) \<noteq> 0 then strlen_loop m s (i + 1) else Some i)"

definition strlen :: "mem \<Rightarrow> u32 \<Rightarrow> u32 option" where
  "strlen m s = strlen_loop m s 0"

partial_function (option) strnlen_loop :: "mem \<Rightarrow> u32 \<Rightarrow> u32 \<Rightarrow> u32 \<Rightarrow> u32 option" where
  "strnlen_loop m s n i =
     (if m (s + i) \<noteq> 0 \<and> i < n then strnlen_loop m s n (i + 1) else Some i)"

definition strnlen :: "mem \<Rightarrow> u32 \<Rightarrow> u32 \<Rightarrow> u32 option" where
  "strnlen m s n = strnlen_loop m s n 0"

partial_function (option) strcpy_loop :: "u32 \<Rightarrow> u32 \<Rightarrow> mem \<Rightarrow> u32 \<Rightarrow> mem option" where
  "strcpy_loop dest src m i =
     (if m (src + i) \<noteq> 0 then strcpy_loop dest src (m(dest + i := m (src + i))) (i + 1)
      else Some (m(dest + i := 0)))"

definition strcpy :: "mem \<Rightarrow> u32 \<Rightarrow> u32 \<Rightarrow> (u32 \<times> mem) option" where
  "strcpy m dest src = map_option (Pair dest) (strcpy_loop dest src m 0)"

partial_function (option) strncpy_loop :: "u32 \<Rightarrow> u32 \<Rightarrow> u32 \<Rightarrow> mem \<Rightarrow> u32 \<Rightarrow> mem option" where
  "strncpy_loop dest src n m i =
     (if i < n \<and> m (src + i) \<noteq> 0 then
        strncpy_loop dest src n (m(dest + i := m (src + i))) (i + 1)
      else Some (memset_loop (unat n - unat i) m (dest + i) 0))"

definition strncpy :: "mem \<Rightarrow> u32 \<Rightarrow> u32 \<Rightarrow> u32 \<Rightarrow> (u32 \<times> mem) option" where
  "strncpy m dest src n = map_option (Pair dest) (strncpy_loop dest src n m 0)"

partial_function (option) str_end :: "mem \<Rightarrow> u32 \<Rightarrow> u32 option" where
  "str_end m dest = (if m dest \<noteq> 0 then str_end m (dest + 1) else Some dest)"

partial_function (option) strcat_loop :: "u32 \<Rightarrow> u32 \<Rightarrow> mem \<Rightarrow> mem option" where
  "strcat_loop dest src m =
     (if m src \<noteq> 0 then strcat_loop (dest + 1) (src + 1) (m(dest := m src))
      else Some (m(dest := 0)))"

definition strcat :: "mem \<Rightarrow> u32 \<Rightarrow> u32 \<Rightarrow> (u32 \<times> mem) option" where
  "strcat m dest src =
     str_end m dest \<bind> (\<lambda>d. map_option (Pair dest) (strcat_loop d src m))"

fun strncat_loop :: "nat \<Rightarrow> u32 \<Rightarrow> u32 \<Rightarrow> mem \<Rightarrow> mem" where
  "strncat_loop 0 dest src m = m(dest := 0)"
| "strncat_loop (Suc n) dest src m =
     (if m src \<noteq> 0 then strncat_loop n (dest + 1) (src + 1) (m(dest := m src))
      else m(dest := 0))"

definition strncat :: "mem \<Rightarrow> u32 \<Rightarrow> u32 \<Rightarrow> u32 \<Rightarrow> (u32 \<times> mem) option" where
  "strncat m dest src n =
     str_end m dest \<bind> (\<lambda>d. Some (dest, strncat_loop (unat n) d src m))"

partial_function (option) strchr :: "mem \<Rightarrow> u32 \<Rightarrow> int \<Rightarrow> u32 option" where
  "strchr m s c =
     (if m s \<noteq> 0 then if sint (m s) = c then Some s else strchr m (s + 1) c else Some 0)"

partial_function (option) strrchr_loop :: "mem \<Rightarrow> u32 \<Rightarrow> int \<Rightarrow> u32 \<Rightarrow> u32 option" where
  "strrchr_loop m s c rc =
     (if m s \<noteq> 0 then strrchr_loop m (s + 1) c (if sint (m s) = c then s else rc) else Some rc)"

definition strrchr :: "mem \<Rightarrow> u32 \<Rightarrow> int \<Rightarrow> u32 option" where
  "strrchr m s c = strrchr_loop m s c 0"

partial_function (option) strchrnul :: "mem \<Rightarrow> u32 \<Rightarrow> int \<Rightarrow> u32 option" where
  "strchrnul m s c = (if m s \<noteq> 0 \<and> sint (m s) \<noteq> c then strchrnul m (s + 1) c else Some s)"

partial_function (option) strcmp :: "mem \<Rightarrow> u32 \<Rightarrow> u32 \<Rightarrow> int option" where
  "strcmp m s1 s2 =
     (if m s1 \<noteq> m s2 then Some (sint (m s1) - sint (m s2))
      else if m s1 = 0 then Some 0
      else strcmp m (s1 + 1) (s2 + 1))"

fun strncmp_loop :: "nat \<Rightarrow> mem \<Rightarrow> u32 \<Rightarrow> u32 \<Rightarrow> int" where
  "strncmp_loop 0 m s1 s2 = 0"
| "strncmp_loop (Suc n) m s1 s2 =
     (if m s1 = 0 then 0
      else if m s1 \<noteq> m s2 then sint (m s1) - sint (m s2)
      else strncmp_loop n m (s1 + 1) (s2 + 1))"

definition strncmp :: "mem \<Rightarrow> u32 \<Rightarrow> u32 \<Rightarrow> u32 \<Rightarrow> int" where
  "strncmp m s1 s2 n = strncmp_loop (unat n) m s1 s2"

text \<open>
  The loop of \<^verbatim>\<open>strpbrk\<close> tests the pointer, not the byte it points to, so it goes on past the end
  of the string.
\<close>

partial_function (option) strpbrk :: "mem \<Rightarrow> u32 \<Rightarrow> u32 \<Rightarrow> u32 option" where
  "strpbrk m s accept =
     (if s \<noteq> 0 then
        strchr m accept (sint (m s)) \<bind> (\<lambda>c. if c \<noteq> 0 then Some s else strpbrk m (s + 1) accept)
      else Some 0)"

partial_function (option) strspn_loop :: "mem \<Rightarrow> u32 \<Rightarrow> u32 \<Rightarrow> u32 \<Rightarrow> u32 option" where
  "strspn_loop m s accept n =
     (if m s \<noteq> 0 then
        strchr m accept (sint (m s))
          \<bind> (\<lambda>c. if c = 0 then Some n else strspn_loop m (s + 1) accept (n + 1))
      else Some n)"

definition strspn :: "mem \<Rightarrow> u32 \<Rightarrow> u32 \<Rightarrow> u32 option" where
  "strspn m s accept = strspn_loop m s accept 0"

partial_function (option) strcspn_loop :: "mem \<Rightarrow> u32 \<Rightarrow> u32 \<Rightarrow> u32 \<Rightarrow> u32 option" where
  "strcspn_loop m s reject n =
     (if m s \<noteq> 0 then
        strchr m reject (sint (m s))
          \<bind> (\<lambda>c. if c \<noteq> 0 then Some n else strcspn_loop m (s + 1) reject (n + 1))
      else Some n)"

definition strcspn :: "mem \<Rightarrow> u32 \<Rightarrow> u32 \<Rightarrow> u32 option" where
  "strcspn m s reject = strcspn_loop m s reject 0"

text \<open>
  \<^verbatim>\<open>telos_strtok\<close> keeps its position in a static variable; the model takes it and returns the
  token, the delimiter, the new position and the memory.
\<close>

partial_function (option) telos_strtok_loop ::
    "mem \<Rightarrow> u32 \<Rightarrow> u32 \<Rightarrow> u32 \<Rightarrow> (u32 \<times> u8 \<times> u32 \<times> mem) option" where
  "telos_strtok_loop m tokp delim i =
     (if m (tokp + i) \<noteq> 0 then
        strchr m delim (sint (m (tokp + i))) \<bind> (\<lambda>c.
          if c \<noteq> 0 then Some (tokp, m (tokp + i), tokp + i + 1, m(tokp + i := 0))
          else telos_strtok_loop m tokp delim (i + 1))
      else Some (tokp, 0, tokp + i, m))"

definition telos_strtok ::
    "mem \<Rightarrow> u32 \<Rightarrow> u32 \<Rightarrow> u8 \<Rightarrow> u32 \<Rightarrow> (u32 \<times> u8 \<times> u32 \<times> mem) option" where
  "telos_strtok m str delim d tokp =
     (let tokp = (if str \<noteq> 0 then str else tokp)
      in if m tokp = 0 then Some (0, d, tokp, m) else telos_strtok_loop m tokp delim 0)"

text \<open>
  \<^verbatim>\<open>strtok_r\<close>: the two loops over the delimiters, the skipping of leading delimiters and the scan
  of the token.  The result is the token, the new value of \<open>*last\<close> and the memory.
\<close>

partial_function (option) span_delim :: "mem \<Rightarrow> u8 \<Rightarrow> u32 \<Rightarrow> bool option" where
  "span_delim m c spanp =
     (if m spanp \<noteq> 0 then if c = m spanp then Some True else span_delim m c (spanp + 1)
      else Some False)"

partial_function (option) scan_delim :: "mem \<Rightarrow> u8 \<Rightarrow> u32 \<Rightarrow> bool option" where
  "scan_delim m c spanp =
     (if m spanp = c then Some True
      else if m spanp \<noteq> 0 then scan_delim m c (spanp + 1)
      else Some False)"

partial_function (option) strtok_skip :: "mem \<Rightarrow> u32 \<Rightarrow> u32 \<Rightarrow> u32 option" where
  "strtok_skip m s delim =
     span_delim m (m s) delim \<bind> (\<lambda>b. if b then strtok_skip m (s + 1) delim else Some s)"

partial_function (option) strtok_scan :: "mem \<Rightarrow> u32 \<Rightarrow> u32 \<Rightarrow> (u32 \<times> mem) option" where
  "strtok_scan m s delim =
     scan_delim m (m s) delim \<bind> (\<lambda>b.
       if b then if m s = 0 then Some (0, m) else Some (s + 1, m(s := 0))
       else strtok_scan m (s + 1) delim)"

definition strtok_r :: "mem \<Rightarrow> u32 \<Rightarrow> u32 \<Rightarrow> u32 \<Rightarrow> (u32 \<times> u32 \<times> mem) option" where
  "strtok_r m s delim lastp =
     (let s = (if s = 0 then lastp else s)
      in if s = 0 then Some (0, lastp, m)
         else
           strtok_skip m s delim \<bind> (\<lambda>tok.
             if m tok = 0 then Some (0, 0, m)
             else strtok_scan m (tok + 1) delim \<bind> (\<lambda>(lastp, m). Some (tok, lastp, m))))"

text \<open>\<^verbatim>\<open>strtok\<close> is \<^verbatim>\<open>strtok_r\<close> on a static variable.\<close>

definition strtok :: "mem \<Rightarrow> u32 \<Rightarrow> u32 \<Rightarrow> u32 \<Rightarrow> (u32 \<times> u32 \<times> mem) option" where
  "strtok m s delim lastp = strtok_r m s delim lastp"

section \<open>Strings in memory\<close>

text \<open>
  \<open>cstr m p cs\<close>: the zero-terminated string \<open>cs\<close> lies at \<open>p\<close>.  \<open>mem_write\<close> stores a list of bytes,
  and \<open>region\<close> is a range of addresses.
\<close>

fun cstr :: "mem \<Rightarrow> u32 \<Rightarrow> u8 list \<Rightarrow> bool" where
  "cstr m p [] \<longleftrightarrow> m p = 0"
| "cstr m p (c # cs) \<longleftrightarrow> c \<noteq> 0 \<and> m p = c \<and> cstr m (p + 1) cs"

fun mem_write :: "mem \<Rightarrow> u32 \<Rightarrow> u8 list \<Rightarrow> mem" where
  "mem_write m p [] = m"
| "mem_write m p (b # bs) = mem_write (m(p := b)) (p + 1) bs"

definition region :: "u32 \<Rightarrow> nat \<Rightarrow> u32 set" where
  "region p n = (\<lambda>i. p + of_nat i) ` {..<n}"

lemma region_mem: "i < n \<Longrightarrow> p + of_nat i \<in> region p n"
  by (simp add: region_def)

lemma region_0 [simp]: "region p 0 = {}"
  by (simp add: region_def)

lemma region_Suc [simp]: "region p (Suc n) = insert p (region (p + 1) n)"
proof -
  have "{..<Suc n} = insert 0 (Suc ` {..<n})" by (rule lessThan_Suc_eq_insert_0)
  then show ?thesis by (simp add: region_def image_image add.assoc)
qed

lemma region_add: "region p (m + n) = region p m \<union> region (p + of_nat m) n"
  by (induction m arbitrary: p) (simp_all add: algebra_simps)

lemma region_notin:
  assumes "Suc n \<le> 2 ^ 32"
  shows "p \<notin> region (p + 1) n"
proof
  assume "p \<in> region (p + 1) n"
  then obtain i where i: "i < n" "p = p + 1 + of_nat i" by (auto simp: region_def)
  then have "(of_nat (Suc i) :: u32) = 0" by (simp add: algebra_simps)
  then have "2 ^ LENGTH(32) dvd Suc i" by (simp only: word_of_nat_eq_0_iff)
  with i assms show False by (auto dest: dvd_imp_le)
qed

lemma mem_write_other: "a \<notin> region p (length bs) \<Longrightarrow> mem_write m p bs a = m a"
  by (induction bs arbitrary: m p) auto

lemma mem_write_append:
  "mem_write m p (as @ bs) = mem_write (mem_write m p as) (p + of_nat (length as)) bs"
  by (induction as arbitrary: m p) (auto simp: algebra_simps)

lemma cstr_cong: "(\<And>a. a \<in> region p (Suc (length cs)) \<Longrightarrow> m a = m' a) \<Longrightarrow> cstr m p cs = cstr m' p cs"
proof (induction cs arbitrary: p)
  case (Cons c cs)
  have "cstr m (p + 1) cs = cstr m' (p + 1) cs"
    by (rule Cons.IH, rule Cons.prems) simp
  then show ?case using Cons.prems [of p] by simp
qed simp

lemma cstr_mem_write:
  assumes "length cs < 2 ^ 32" "0 \<notin> set cs"
  shows "cstr (mem_write m p (cs @ [0])) p cs"
  using assms
proof (induction cs arbitrary: m p)
  case (Cons c cs)
  have "mem_write (m(p := c)) (p + 1) (cs @ [0]) p = c"
    using Cons.prems region_notin [of "Suc (length cs)" p] by (subst mem_write_other) auto
  with Cons show ?case by simp
qed simp

lemma cstr_nth: "cstr m p cs \<longleftrightarrow> (\<forall>i < length cs. m (p + of_nat i) = cs ! i) \<and> 0 \<notin> set cs \<and> m (p + of_nat (length cs)) = 0"
proof (induction cs arbitrary: p)
  case (Cons c cs)
  then show ?case by (auto simp: All_less_Suc2 algebra_simps)
qed simp

lemma cstr_length:
  assumes "cstr m p cs"
  shows "length cs < 2 ^ 32"
proof (rule ccontr)
  assume big: "\<not> length cs < 2 ^ 32"
  let ?i = "length cs - 2 ^ 32"
  have "(of_nat (?i + 2 ^ 32) :: u32) = of_nat ?i" by (simp only: of_nat_add) simp
  then have "(of_nat ?i :: u32) = of_nat (length cs)" using big by simp
  moreover have i: "?i < length cs" using big by simp
  moreover have "cs ! ?i \<noteq> 0" using assms nth_mem [OF i] unfolding cstr_nth by metis
  ultimately show False using assms unfolding cstr_nth by metis
qed

lemma cstr_unique: "cstr m p cs \<Longrightarrow> cstr m p ds \<Longrightarrow> cs = ds"
proof (induction cs arbitrary: p ds)
  case Nil
  then show ?case by (cases ds) auto
next
  case (Cons c cs)
  then show ?case by (cases ds) auto
qed

section \<open>What the functions compute\<close>

subsection \<open>Lengths and comparisons\<close>

lemma strlen_loop_cstr: "cstr m (s + i) cs \<Longrightarrow> strlen_loop m s i = Some (i + of_nat (length cs))"
proof (induction cs arbitrary: i)
  case Nil
  then show ?case by (subst strlen_loop.simps) simp
next
  case (Cons c cs)
  then have "strlen_loop m s (i + 1) = Some (i + 1 + of_nat (length cs))" by (simp add: add.assoc)
  then show ?case using Cons.prems by (subst strlen_loop.simps) (simp add: algebra_simps)
qed

lemma strlen_cstr: "cstr m s cs \<Longrightarrow> strlen m s = Some (of_nat (length cs))"
  using strlen_loop_cstr [of m s 0 cs] by (simp add: strlen_def)

lemma strlen_exact: "cstr m s cs \<Longrightarrow> \<exists>n. strlen m s = Some n \<and> unat n = length cs"
  using cstr_length [of m s cs] by (simp add: strlen_cstr unsigned_of_nat take_bit_nat_eq_self)

lemma str_end_cstr: "cstr m s cs \<Longrightarrow> str_end m s = Some (s + of_nat (length cs))"
proof (induction cs arbitrary: s)
  case Nil
  then show ?case by (subst str_end.simps) simp
next
  case (Cons c cs)
  then have "str_end m (s + 1) = Some (s + 1 + of_nat (length cs))" by simp
  then show ?case using Cons.prems by (subst str_end.simps) (simp add: algebra_simps)
qed

fun str_diff :: "u8 list \<Rightarrow> u8 list \<Rightarrow> int" where
  "str_diff [] [] = 0"
| "str_diff [] (d # ds) = - sint d"
| "str_diff (c # cs) [] = sint c"
| "str_diff (c # cs) (d # ds) = (if c = d then str_diff cs ds else sint c - sint d)"

lemma strcmp_cstr: "cstr m p cs \<Longrightarrow> cstr m q ds \<Longrightarrow> strcmp m p q = Some (str_diff cs ds)"
  by (induction cs ds arbitrary: p q rule: str_diff.induct; subst strcmp.simps) auto

lemma sint_eq_0 [simp]: "sint (w :: u8) = 0 \<longleftrightarrow> w = 0"
  by (metis signed_0 signed_word_eqI)

lemma sint_inject [simp]: "sint (v :: u8) = sint w \<longleftrightarrow> v = w"
  by (metis signed_word_eqI)

lemma strcmp_equal:
  assumes "cstr m p cs" "cstr m q ds"
  shows "strcmp m p q = Some 0 \<longleftrightarrow> cs = ds"
proof -
  have "str_diff cs ds = 0 \<longleftrightarrow> cs = ds" if "0 \<notin> set cs" "0 \<notin> set ds"
    using that by (induction cs ds rule: str_diff.induct) auto
  then show ?thesis using assms strcmp_cstr [OF assms] by (simp add: cstr_nth)
qed

text \<open>The sign of \<^verbatim>\<open>strcmp\<close> is the lexicographic order of the terminated strings as signed bytes.\<close>

lemma strcmp_order:
  assumes "cstr m p cs" "cstr m q ds" "strcmp m p q = Some r"
  shows "r < 0 \<longleftrightarrow> ord_class.lexordp (map sint (cs @ [0])) (map sint (ds @ [0]))"
proof -
  have "str_diff cs ds < 0 \<longleftrightarrow> ord_class.lexordp (map sint (cs @ [0])) (map sint (ds @ [0]))"
    if "0 \<notin> set cs" "0 \<notin> set ds"
    using that
    by (induction cs ds rule: str_diff.induct)
      (auto simp: not_less order.order_iff_strict dest: sym)
  then show ?thesis using assms strcmp_cstr [OF assms(1,2)] by (simp add: cstr_nth)
qed

text \<open>
  \<^verbatim>\<open>strncmp\<close> stops at the end of its first argument, so it answers 0 whenever the part of the
  first string that is compared is a prefix of the second.
\<close>

lemma strncmp_loop_prefix:
  "cstr m p cs \<Longrightarrow> cstr m q ds \<Longrightarrow>
   strncmp_loop n m p q = 0 \<longleftrightarrow> take (length (take n cs)) ds = take n cs"
proof (induction n arbitrary: p q cs ds)
  case (Suc n)
  show ?case
  proof (cases cs)
    case Nil
    then show ?thesis using Suc.prems by simp
  next
    case (Cons c cs')
    show ?thesis
    proof (cases ds)
      case Nil
      then show ?thesis using Suc.prems Cons by simp
    next
      case (Cons d ds')
      then show ?thesis using Suc.prems Suc.IH [of "p + 1" cs' "q + 1" ds'] \<open>cs = c # cs'\<close>
        by simp
    qed
  qed
qed simp

lemma strncmp_prefix:
  assumes "cstr m p cs" "cstr m q ds"
  shows "strncmp m p q n = 0 \<longleftrightarrow> take (length (take (unat n) cs)) ds = take (unat n) cs"
  using strncmp_loop_prefix [OF assms] by (simp add: strncmp_def)

lemma memcmp_equal:
  "memcmp m p q n = 0 \<longleftrightarrow> (\<forall>i < unat n. m (p + of_nat i) = m (q + of_nat i))"
proof -
  have "memcmp_loop k m p q = 0 \<longleftrightarrow> (\<forall>i < k. m (p + of_nat i) = m (q + of_nat i))" for k
    by (induction k arbitrary: p q) (auto simp: All_less_Suc2 algebra_simps)
  then show ?thesis by (simp add: memcmp_def)
qed

subsection \<open>Copies\<close>

lemma strcpy_loop_cstr:
  assumes "cstr m (src + i) cs"
    "region (dest + i) (Suc (length cs)) \<inter> region (src + i) (Suc (length cs)) = {}"
  shows "strcpy_loop dest src m i = Some (mem_write m (dest + i) (cs @ [0]))"
  using assms
proof (induction cs arbitrary: m i)
  case Nil
  then show ?case by (subst strcpy_loop.simps) simp
next
  case (Cons c cs)
  let ?m = "m(dest + i := c)"
  have "cstr ?m (src + (i + 1)) cs"
    using Cons.prems by (subst cstr_cong [of _ _ _ m]) (auto simp: add.assoc)
  moreover have "region (dest + (i + 1)) (Suc (length cs)) \<inter> region (src + (i + 1)) (Suc (length cs)) = {}"
    using Cons.prems(2) by (simp add: add.assoc)
  ultimately have "strcpy_loop dest src ?m (i + 1) = Some (mem_write ?m (dest + (i + 1)) (cs @ [0]))"
    by (rule Cons.IH)
  then show ?case using Cons.prems by (subst strcpy_loop.simps) (simp add: add.assoc)
qed

lemma strcpy_cstr:
  assumes "cstr m src cs" "region dest (Suc (length cs)) \<inter> region src (Suc (length cs)) = {}"
  shows "strcpy m dest src = Some (dest, mem_write m dest (cs @ [0]))"
  using strcpy_loop_cstr [of m src 0 cs dest] assms by (simp add: strcpy_def)

lemma strcpy_copies:
  assumes "cstr m src cs" "region dest (Suc (length cs)) \<inter> region src (Suc (length cs)) = {}"
  shows "\<exists>m'. strcpy m dest src = Some (dest, m') \<and> cstr m' dest cs \<and> cstr m' src cs
    \<and> strcmp m' dest src = Some 0"
proof -
  let ?m = "mem_write m dest (cs @ [0])"
  have d: "cstr ?m dest cs"
    using assms(1) cstr_length [OF assms(1)] by (intro cstr_mem_write) (auto simp: cstr_nth)
  have "?m a = m a" if "a \<in> region src (Suc (length cs))" for a
    using that assms(2) by (intro mem_write_other) auto
  then have s: "cstr ?m src cs" using assms(1) cstr_cong [of src cs ?m m] by simp
  show ?thesis using strcpy_cstr [OF assms] d s strcmp_equal [OF d s] by auto
qed

lemma strcat_loop_cstr:
  assumes "cstr m src cs" "region dest (Suc (length cs)) \<inter> region src (Suc (length cs)) = {}"
  shows "strcat_loop dest src m = Some (mem_write m dest (cs @ [0]))"
  using assms
proof (induction cs arbitrary: m dest src)
  case Nil
  then show ?case by (subst strcat_loop.simps) simp
next
  case (Cons c cs)
  let ?m = "m(dest := c)"
  have "cstr ?m (src + 1) cs" using Cons.prems by (subst cstr_cong [of _ _ _ m]) auto
  moreover have "region (dest + 1) (Suc (length cs)) \<inter> region (src + 1) (Suc (length cs)) = {}"
    using Cons.prems(2) by simp
  ultimately have "strcat_loop (dest + 1) (src + 1) ?m = Some (mem_write ?m (dest + 1) (cs @ [0]))"
    by (rule Cons.IH)
  then show ?case using Cons.prems by (subst strcat_loop.simps) simp
qed

lemma strcat_cstr:
  assumes "cstr m dest as" "cstr m src cs"
    "region (dest + of_nat (length as)) (Suc (length cs)) \<inter> region src (Suc (length cs)) = {}"
  shows "strcat m dest src = Some (dest, mem_write m (dest + of_nat (length as)) (cs @ [0]))"
  using str_end_cstr [OF assms(1)] strcat_loop_cstr [OF assms(2,3)] by (simp add: strcat_def)

lemma mem_write_nth:
  assumes "length bs \<le> 2 ^ 32" "i < length bs"
  shows "mem_write m p bs (p + of_nat i) = bs ! i"
  using assms
proof (induction bs arbitrary: m p i)
  case (Cons b bs)
  show ?case
  proof (cases i)
    case 0
    then show ?thesis using Cons.prems region_notin [of "length bs" p] by (simp add: mem_write_other)
  next
    case (Suc j)
    then show ?thesis using Cons.prems Cons.IH [of j "m(p := b)" "p + 1"]
      by (simp add: add.assoc del: fun_upd_apply)
  qed
qed simp

lemma memset_loop_eq: "memset_loop n m d c = mem_write m d (replicate n c)"
  by (induction n arbitrary: m d) auto

text \<open>What \<^verbatim>\<open>memcpy\<close> writes, for ranges that do not overlap.\<close>

lemma memcpy_loop_eq:
  assumes "region d n \<inter> region s n = {}"
  shows "memcpy_loop n m d s = mem_write m d (map (\<lambda>i. m (s + of_nat i)) [0..<n])"
  using assms
proof (induction n arbitrary: m d s)
  case (Suc n)
  have "map (\<lambda>i. (m(d := m s)) (s + 1 + of_nat i)) [0..<n] = map (\<lambda>i. m (s + of_nat (Suc i))) [0..<n]"
    using Suc.prems region_mem [of _ n "s + 1"] by (auto simp: add.assoc)
  also have "\<dots> = tl (map (\<lambda>i. m (s + of_nat i)) [0..<Suc n])"
    by (simp add: upt_conv_Cons map_Suc_upt [symmetric] del: upt_Suc map_Suc_upt)
  finally have "m s # map (\<lambda>i. (m(d := m s)) (s + 1 + of_nat i)) [0..<n] = map (\<lambda>i. m (s + of_nat i)) [0..<Suc n]"
    by (simp add: upt_conv_Cons del: upt_Suc)
  moreover have "memcpy_loop n (m(d := m s)) (d + 1) (s + 1)
      = mem_write (m(d := m s)) (d + 1) (map (\<lambda>i. (m(d := m s)) (s + 1 + of_nat i)) [0..<n])"
    using Suc.prems by (intro Suc.IH) simp
  ultimately show ?case by (metis memcpy_loop.simps(2) mem_write.simps(2))
qed simp

lemma memcpy_copies:
  assumes "region dest (unat n) \<inter> region src (unat n) = {}" "i < unat n"
  shows "memcpy m dest src n (dest + of_nat i) = m (src + of_nat i)"
  using assms u32_bound [of n] by (simp add: memcpy_def memcpy_loop_eq mem_write_nth)

lemma memset_fills: "i < unat n \<Longrightarrow> snd (memset m s c n) (s + of_nat i) = c"
  using u32_bound [of n] by (simp add: memset_def memset_loop_eq mem_write_nth)

subsection \<open>Searches\<close>

lemma strchr_cstr:
  "cstr m s cs \<Longrightarrow> strchr m s (sint c) =
     Some (if c \<in> set cs then s + of_nat (length (takeWhile ((\<noteq>) c) cs)) else 0)"
proof (induction cs arbitrary: s)
  case Nil
  then show ?case by (subst strchr.simps) simp
next
  case (Cons d cs)
  then have "strchr m (s + 1) (sint c) =
      Some (if c \<in> set cs then s + 1 + of_nat (length (takeWhile ((\<noteq>) c) cs)) else 0)" by simp
  then show ?case using Cons.prems by (subst strchr.simps) (auto simp: algebra_simps)
qed

lemma strchr_found:
  assumes "cstr m s cs" "0 \<notin> region s (length cs)"
  shows "\<exists>r. strchr m s (sint c) = Some r \<and> (r \<noteq> 0 \<longleftrightarrow> c \<in> set cs)"
proof -
  have "s + of_nat (length (takeWhile ((\<noteq>) c) cs)) \<noteq> 0" if "c \<in> set cs"
  proof -
    have "length (takeWhile ((\<noteq>) c) cs) < length cs"
      using that by (induction cs) auto
    then show ?thesis using assms(2) region_mem [of _ "length cs" s] by metis
  qed
  then show ?thesis using strchr_cstr [OF assms(1), of c] by auto
qed

lemma strspn_cstr:
  assumes "cstr m s cs" "cstr m accept ds" "0 \<notin> region accept (length ds)"
  shows "strspn m s accept = Some (of_nat (length (takeWhile (\<lambda>c. c \<in> set ds) cs)))"
proof -
  have "strspn_loop m s accept n = Some (n + of_nat (length (takeWhile (\<lambda>c. c \<in> set ds) cs)))" for n
    using assms(1)
  proof (induction cs arbitrary: s n)
    case Nil
    then show ?case by (subst strspn_loop.simps) simp
  next
    case (Cons c cs)
    obtain r where r: "strchr m accept (sint c) = Some r" "r \<noteq> 0 \<longleftrightarrow> c \<in> set ds"
      using strchr_found [OF assms(2,3), of c] by auto
    show ?case using Cons.prems r Cons.IH [of "s + 1" "n + 1"]
      by (subst strspn_loop.simps) (auto simp: algebra_simps)
  qed
  then show ?thesis by (simp add: strspn_def)
qed

lemma strcspn_cstr:
  assumes "cstr m s cs" "cstr m reject ds" "0 \<notin> region reject (length ds)"
  shows "strcspn m s reject = Some (of_nat (length (takeWhile (\<lambda>c. c \<notin> set ds) cs)))"
proof -
  have "strcspn_loop m s reject n = Some (n + of_nat (length (takeWhile (\<lambda>c. c \<notin> set ds) cs)))" for n
    using assms(1)
  proof (induction cs arbitrary: s n)
    case Nil
    then show ?case by (subst strcspn_loop.simps) simp
  next
    case (Cons c cs)
    obtain r where r: "strchr m reject (sint c) = Some r" "r \<noteq> 0 \<longleftrightarrow> c \<in> set ds"
      using strchr_found [OF assms(2,3), of c] by auto
    show ?case using Cons.prems r Cons.IH [of "s + 1" "n + 1"]
      by (subst strcspn_loop.simps) (auto simp: algebra_simps)
  qed
  then show ?thesis by (simp add: strcspn_def)
qed

text \<open>\<^verbatim>\<open>memrchr\<close> never reports a match at index 0.\<close>

lemma memrchr_misses_first:
  assumes "\<forall>i < unat n. uint (m (s + of_nat i)) = c \<longrightarrow> i = 0" "0 < n"
  shows "memrchr m s c n = 0"
proof -
  have "memrchr_loop k m s c = 0" if "k < unat n" for k
    using that
  proof (induction k)
    case (Suc k)
    then have "uint (m (s + of_nat (Suc k))) \<noteq> c" using assms(1) by blast
    then show ?case using Suc by simp
  qed simp
  moreover have "unat (n - 1) < unat n"
    using assms(2) unat_gt_0 [of n] by (simp add: word_gt_0 unat_minus_one)
  ultimately show ?thesis by (simp add: memrchr_def)
qed

subsection \<open>Tokens\<close>

lemma span_delim_cstr: "cstr m d ds \<Longrightarrow> span_delim m c d = Some (c \<in> set ds)"
  by (induction ds arbitrary: d; subst span_delim.simps) auto

lemma scan_delim_cstr: "cstr m d ds \<Longrightarrow> scan_delim m c d = Some (c \<in> set ds \<or> c = 0)"
  by (induction ds arbitrary: d; subst scan_delim.simps) auto

lemma cstr_append:
  "cstr m p (as @ bs) \<longleftrightarrow>
   0 \<notin> set as \<and> (\<forall>i < length as. m (p + of_nat i) = as ! i) \<and> cstr m (p + of_nat (length as)) bs"
  by (induction as arbitrary: p) (auto simp: All_less_Suc2 algebra_simps)

lemma strtok_skip_cstr:
  assumes "cstr m s cs" "cstr m delim ds"
  shows "strtok_skip m s delim = Some (s + of_nat (length (takeWhile (\<lambda>c. c \<in> set ds) cs)))"
  using assms(1)
proof (induction cs arbitrary: s)
  case Nil
  then show ?case using assms(2)
    by (subst strtok_skip.simps) (auto simp: span_delim_cstr cstr_nth)
next
  case (Cons c cs)
  then have "strtok_skip m (s + 1) delim
      = Some (s + 1 + of_nat (length (takeWhile (\<lambda>c. c \<in> set ds) cs)))" by simp
  then show ?case using Cons.prems assms(2)
    by (subst strtok_skip.simps) (auto simp: span_delim_cstr algebra_simps)
qed

lemma strtok_scan_cstr:
  assumes "cstr m s cs" "cstr m delim ds"
  shows "strtok_scan m s delim =
    (let q = s + of_nat (length (takeWhile (\<lambda>c. c \<notin> set ds) cs))
     in Some (if dropWhile (\<lambda>c. c \<notin> set ds) cs = [] then (0, m) else (q + 1, m(q := 0))))"
  using assms(1)
proof (induction cs arbitrary: s)
  case Nil
  then show ?case using assms(2) by (subst strtok_scan.simps) (auto simp: scan_delim_cstr)
next
  case (Cons c cs)
  then have "strtok_scan m (s + 1) delim =
    (let q = s + 1 + of_nat (length (takeWhile (\<lambda>c. c \<notin> set ds) cs))
     in Some (if dropWhile (\<lambda>c. c \<notin> set ds) cs = [] then (0, m) else (q + 1, m(q := 0))))" by simp
  then show ?case using Cons.prems assms(2)
    by (subst strtok_scan.simps) (auto simp: scan_delim_cstr Let_def algebra_simps)
qed

text \<open>
  The fields of a string: its maximal runs of bytes that are not delimiters.  \<open>strtok_all\<close> is the
  loop of a client, which calls \<^verbatim>\<open>strtok\<close> with the string and then with \<open>NULL\<close> until it returns \<open>NULL\<close>.
\<close>

function tokens :: "u8 set \<Rightarrow> u8 list \<Rightarrow> u8 list list" where
  "tokens D [] = []"
| "tokens D (c # cs) =
     (if c \<in> D then tokens D cs
      else (c # takeWhile (\<lambda>c. c \<notin> D) cs) # tokens D (dropWhile (\<lambda>c. c \<notin> D) cs))"
  by pat_completeness auto
termination
  by (relation "measure (length \<circ> snd)") (auto simp: length_dropWhile_le less_Suc_eq_le)

fun strtok_all :: "nat \<Rightarrow> mem \<Rightarrow> u32 \<Rightarrow> u32 \<Rightarrow> u32 \<Rightarrow> (u32 list \<times> mem) option" where
  "strtok_all 0 m s delim lastp = None"
| "strtok_all (Suc n) m s delim lastp =
     strtok m s delim lastp \<bind> (\<lambda>(tok, lastp, m).
       if tok = 0 then Some ([], m)
       else strtok_all n m 0 delim lastp \<bind> (\<lambda>(toks, m). Some (tok # toks, m)))"

lemma tokens_lead: "set lead \<subseteq> D \<Longrightarrow> tokens D (lead @ cs) = tokens D cs"
  by (induction lead) auto

lemma split_field:
  assumes "set tk \<inter> D = {}" "rest = [] \<or> hd rest \<in> D"
  shows "takeWhile (\<lambda>c. c \<notin> D) (tk @ rest) = tk \<and> dropWhile (\<lambda>c. c \<notin> D) (tk @ rest) = rest"
  using assms by (induction tk) (cases rest, auto)

lemma tokens_field:
  assumes "tk \<noteq> []" "set tk \<inter> D = {}" "rest = [] \<or> hd rest \<in> D"
  shows "tokens D (tk @ rest) = tk # tokens D rest"
proof -
  obtain c tk' where tk: "tk = c # tk'" using assms(1) by (cases tk) auto
  have "takeWhile (\<lambda>c. c \<notin> D) (tk' @ rest) = tk' \<and> dropWhile (\<lambda>c. c \<notin> D) (tk' @ rest) = rest"
    using assms tk by (intro split_field) auto
  then show ?thesis using assms tk by auto
qed

text \<open>Every string is a run of delimiters, then nothing or a field and what follows it.\<close>

lemma field_cases:
  obtains (none) "set cs \<subseteq> D"
  | (field) lead tk rest where "cs = lead @ tk @ rest" "set lead \<subseteq> D" "tk \<noteq> []" "set tk \<inter> D = {}"
      "rest = [] \<or> hd rest \<in> D"
proof (cases "set cs \<subseteq> D")
  case False
  let ?lead = "takeWhile (\<lambda>c. c \<in> D) cs" and ?r = "dropWhile (\<lambda>c. c \<in> D) cs"
  let ?tk = "takeWhile (\<lambda>c. c \<notin> D) ?r" and ?rest = "dropWhile (\<lambda>c. c \<notin> D) ?r"
  have r: "?r \<noteq> []" "hd ?r \<notin> D" using False hd_dropWhile [of "\<lambda>c. c \<in> D" cs] by auto
  show thesis
  proof (rule field [of ?lead ?tk ?rest])
    show "set ?lead \<subseteq> D" by (auto dest: set_takeWhileD)
    show "?tk \<noteq> []" using r by (cases ?r) auto
    show "set ?tk \<inter> D = {}" by (auto dest: set_takeWhileD)
    show "?rest = [] \<or> hd ?rest \<in> D" using hd_dropWhile [of "\<lambda>c. c \<notin> D" ?r] by blast
  qed simp
qed (rule none)

lemma strtok_none:
  assumes "cstr m p cs" "cstr m delim ds" "p = (if s = 0 then lastp else s)" "p \<noteq> 0" "set cs \<subseteq> set ds"
  shows "strtok m s delim lastp = Some (0, 0, m)"
proof -
  have "takeWhile (\<lambda>c. c \<in> set ds) cs = cs" using assms(5) by (auto simp: takeWhile_eq_all_conv)
  then have "strtok_skip m p delim = Some (p + of_nat (length cs))"
    using strtok_skip_cstr [OF assms(1,2)] by metis
  moreover have "m (p + of_nat (length cs)) = 0" using assms(1) by (simp add: cstr_nth)
  ultimately show ?thesis using assms(3,4) by (auto simp: strtok_def strtok_r_def Let_def)
qed

lemma strtok_field:
  assumes "cstr m p cs" "cstr m delim ds" "p = (if s = 0 then lastp else s)" "p \<noteq> 0"
    "cs = lead @ tk @ rest" "set lead \<subseteq> set ds" "tk \<noteq> []" "set tk \<inter> set ds = {}"
    "rest = [] \<or> hd rest \<in> set ds"
  shows "strtok m s delim lastp =
    Some (p + of_nat (length lead),
      (if rest = [] then (0, m)
       else (p + of_nat (length lead + length tk) + 1, m(p + of_nat (length lead + length tk) := 0))))"
proof -
  let ?tok = "p + of_nat (length lead)"
  obtain c tk' where tk: "tk = c # tk'" using assms(7) by (cases tk) auto
  have lead: "takeWhile (\<lambda>c. c \<in> set ds) cs = lead"
    using assms(5-8) tk by (simp add: takeWhile_append2 subset_iff)
  have at: "m ?tok = c" "c \<noteq> 0" "cstr m (?tok + 1) (tk' @ rest)"
    using assms(1,5) tk by (auto simp: cstr_append)
  have tw: "takeWhile (\<lambda>c. c \<notin> set ds) (tk' @ rest) = tk' \<and> dropWhile (\<lambda>c. c \<notin> set ds) (tk' @ rest) = rest"
    using assms(8,9) tk by (intro split_field) auto
  have "strtok_scan m (?tok + 1) delim =
      Some (if rest = [] then (0, m)
            else (p + of_nat (length lead + length tk) + 1, m(p + of_nat (length lead + length tk) := 0)))"
    using strtok_scan_cstr [OF at(3) assms(2)] tk tw by (simp add: Let_def add_ac)
  then show ?thesis using assms(3,4) at strtok_skip_cstr [OF assms(1,2)] lead
    by (auto simp: strtok_def strtok_r_def Let_def)
qed

lemma region_disjoint:
  "a + b \<le> 2 ^ 32 \<Longrightarrow> region p a \<inter> region (p + of_nat a) b = {}"
proof (induction a arbitrary: p)
  case (Suc a)
  have "p \<notin> region (p + 1) (a + b)" using Suc.prems by (intro region_notin) simp
  then have "p \<notin> region (p + 1 + of_nat a) b" by (simp add: region_add)
  moreover have "region (p + 1) a \<inter> region (p + 1 + of_nat a) b = {}"
    using Suc by simp
  ultimately show ?case by (simp add: add.assoc)
qed simp

lemma field_stays:
  assumes "cstr m tok (tk @ c # cs)" "q = tok + of_nat (length tk)" "m' q = 0"
    "\<And>a. a \<notin> region q (Suc (Suc (length cs))) \<Longrightarrow> m' a = m a"
  shows "cstr m' tok tk"
proof -
  have "length tk + Suc (Suc (length cs)) \<le> 2 ^ 32" using cstr_length [OF assms(1)] by simp
  then have dj: "region tok (length tk) \<inter> region q (Suc (Suc (length cs))) = {}"
    unfolding assms(2) by (rule region_disjoint)
  have "m' (tok + of_nat i) = tk ! i" if "i < length tk" for i
  proof -
    have "m' (tok + of_nat i) = m (tok + of_nat i)"
      using dj region_mem [OF that, of tok] by (intro assms(4)) blast
    then show ?thesis using assms(1) that by (simp add: cstr_append)
  qed
  then show ?thesis using assms by (simp add: cstr_nth [of m' tok tk] cstr_append)
qed

lemma strtok_all_tokens:
  assumes "cstr m p cs" "cstr m delim ds" "p = (if s = 0 then lastp else s)"
    "0 \<notin> region p (Suc (length cs))"
    "region p (Suc (length cs)) \<inter> region delim (Suc (length ds)) = {}" "length cs < n"
  shows "\<exists>toks m'. strtok_all n m s delim lastp = Some (toks, m')
    \<and> list_all2 (cstr m') toks (tokens (set ds) cs)
    \<and> (\<forall>a. a \<notin> region p (Suc (length cs)) \<longrightarrow> m' a = m a)"
  using assms
proof (induction n arbitrary: m p cs s lastp)
  case (Suc n)
  have p0: "p \<noteq> 0" using Suc.prems(4) by auto
  show ?case
  proof (cases cs "set ds" rule: field_cases)
    case none
    then have "tokens (set ds) cs = []" using tokens_lead [of cs "set ds" "[]"] by simp
    then show ?thesis using strtok_none [OF Suc.prems(1-3) p0 none] by simp
  next
    case (field lead tk rest)
    let ?tok = "p + of_nat (length lead)" and ?q = "p + of_nat (length lead + length tk)"
    have toks: "tokens (set ds) cs = tk # tokens (set ds) rest"
      using field by (simp add: tokens_lead tokens_field)
    have at: "cstr m ?tok (tk @ rest)" using Suc.prems(1) field(1) by (simp add: cstr_append)
    have "?tok \<in> region p (Suc (length cs))" using field(1) by (intro region_mem) simp
    then have tok0: "?tok \<noteq> 0" using Suc.prems(4) by metis
    note step = strtok_field [OF Suc.prems(1-3) p0 field]
    show ?thesis
    proof (cases rest)
      case Nil
      obtain n' where n: "n = Suc n'" using Suc.prems(6) field(1,3) by (cases n) auto
      have "strtok m 0 delim 0 = Some (0, 0, m)" by (simp add: strtok_def strtok_r_def)
      then show ?thesis using step tok0 toks at Nil n by simp
    next
      case (Cons c cs'')
      let ?m = "m(?q := 0)" and ?r = "region (?q + 1) (Suc (length cs''))"
      have len: "length cs = length lead + length tk + Suc (length cs'')" using field(1) Cons by simp
      have sub: "region p (Suc (length cs)) = region p (length lead + length tk) \<union> insert ?q ?r"
        using region_add [of p "length lead + length tk" "Suc (Suc (length cs''))"] len by simp
      have q: "?q \<notin> ?r" using cstr_length [OF Suc.prems(1)] len by (intro region_notin) simp
      have "cstr m (?q + 1) cs''" using at Cons by (simp add: cstr_append add_ac)
      then have 1: "cstr ?m (?q + 1) cs''" using q by (subst cstr_cong [of _ _ _ m]) auto
      have "?q \<notin> region delim (Suc (length ds))" using Suc.prems(5) sub by blast
      then have "?m a = m a" if "a \<in> region delim (Suc (length ds))" for a
        using that by (metis fun_upd_other)
      then have 2: "cstr ?m delim ds" using Suc.prems(2) cstr_cong [of delim ds ?m m] by blast
      have 3: "0 \<notin> ?r" using Suc.prems(4) sub by blast
      have 4: "?r \<inter> region delim (Suc (length ds)) = {}" using Suc.prems(5) sub by blast
      have 5: "?q + 1 = (if (0 :: u32) = 0 then ?q + 1 else 0)" by simp
      have 6: "length cs'' < n" using Suc.prems(6) len by simp
      obtain toks m' where rec: "strtok_all n ?m 0 delim (?q + 1) = Some (toks, m')"
          "list_all2 (cstr m') toks (tokens (set ds) cs'')" "\<forall>a. a \<notin> ?r \<longrightarrow> m' a = ?m a"
        using Suc.IH [OF 1 2 5 3 4 6] by blast
      have "cstr m' ?tok tk"
        using at [unfolded Cons] rec(3) q by (rule_tac field_stays [of m _ _ c cs'' ?q]) (auto simp: add_ac)
      moreover have "tokens (set ds) rest = tokens (set ds) cs''" using field(5) Cons by simp
      ultimately show ?thesis using step rec tok0 toks Cons sub by auto
    qed
  qed
qed simp

text \<open>
  C25: Splitting a string with \<^verbatim>\<open>strtok\<close>.  For a string and a set of delimiters that lie apart in
  memory and clear of the null address, calling \<^verbatim>\<open>strtok\<close> with the string and then with \<open>NULL\<close>
  ends after at most one call more than the string has bytes; the pointers returned are, in order,
  zero-terminated strings holding exactly the maximal runs of bytes that are not delimiters, and
  nothing outside the string is written.
\<close>

theorem strtok_fields:
  assumes "cstr m s cs" "cstr m delim ds" "0 \<notin> region s (Suc (length cs))"
    "region s (Suc (length cs)) \<inter> region delim (Suc (length ds)) = {}"
  shows "\<exists>toks m'. strtok_all (Suc (length cs)) m s delim lastp = Some (toks, m')
    \<and> list_all2 (cstr m') toks (tokens (set ds) cs)
    \<and> (\<forall>a. a \<notin> region s (Suc (length cs)) \<longrightarrow> m' a = m a)"
proof -
  have "s = (if s = 0 then lastp else s)" using assms(3) by auto
  then show ?thesis using assms by (intro strtok_all_tokens) auto
qed

definition path_mem :: mem where
  "path_mem = (\<lambda>_. 0)(100 := 47, 101 := 97, 102 := 47, 103 := 47, 104 := 98, 200 := 47)"

theorem strtok_fields_witness:
  "\<exists>toks m'. strtok_all 6 path_mem 100 200 0 = Some (toks, m') \<and> list_all2 (cstr m') toks [[97], [98]]"
proof -
  let ?cs = "[47, 97, 47, 47, 98] :: u8 list" and ?ds = "[47] :: u8 list"
  have 1: "cstr path_mem 100 ?cs" "cstr path_mem 200 ?ds" by (simp_all add: path_mem_def)
  have 2: "0 \<notin> region 100 (Suc (length ?cs))"
    "region 100 (Suc (length ?cs)) \<inter> region 200 (Suc (length ?ds)) = {}" by simp_all
  have 3: "tokens (set ?ds) ?cs = [[97], [98]]" by simp
  have 4: "Suc (length ?cs) = 6" by simp
  show ?thesis using strtok_fields [OF 1 2, of 0] unfolding 3 4 by blast
qed

end
