(* ===== verification/Numbers.thy ===== *)
theory Numbers
  imports CString "HOL-Library.Signed_Division"
begin

text \<open>
  Characters and numbers: the character classes of \<^verbatim>\<open>src/lib/ctype.h\<close>, the parsing of integers
  in \<^verbatim>\<open>src/lib/kstrtox.c\<close> and their printing in \<^verbatim>\<open>src/lib/itoa.c\<close>, on the memory of
  theory \<open>CString\<close>.  The parsers return \<open>Inl\<close> of an error number or \<open>Inr\<close> of the value.

  The lemmas describe the classes, show that parsing yields the value of the digits modulo
  \<open>2 ^ 64\<close>, and that every number survives printing and parsing.
\<close>

section \<open>Character classes\<close>

abbreviation (input) "CT_U \<equiv> 0x01 :: u8"
abbreviation (input) "CT_L \<equiv> 0x02 :: u8"
abbreviation (input) "CT_D \<equiv> 0x04 :: u8"
abbreviation (input) "CT_C \<equiv> 0x08 :: u8"
abbreviation (input) "CT_P \<equiv> 0x10 :: u8"
abbreviation (input) "CT_S \<equiv> 0x20 :: u8"
abbreviation (input) "CT_X \<equiv> 0x40 :: u8"
abbreviation (input) "CT_SP \<equiv> 0x80 :: u8"

text \<open>The table, as runs of equal entries.\<close>

definition ctype :: "u8 list" where
  "ctype =
     replicate 9 CT_C @ replicate 5 (CT_C OR CT_S) @ replicate 18 CT_C
     @ [CT_S OR CT_SP] @ replicate 15 CT_P
     @ replicate 10 CT_D @ replicate 7 CT_P
     @ replicate 6 (CT_U OR CT_X) @ replicate 20 CT_U @ replicate 6 CT_P
     @ replicate 6 (CT_L OR CT_X) @ replicate 20 CT_L @ replicate 4 CT_P @ [CT_C]
     @ replicate 32 0
     @ [CT_S OR CT_SP] @ replicate 31 CT_P
     @ replicate 23 CT_U @ [CT_P] @ replicate 7 CT_U @ replicate 24 CT_L @ [CT_P] @ replicate 8 CT_L"

definition ismask :: "u8 \<Rightarrow> u8" where
  "ismask x = ctype ! unat x"

definition isalnum :: "u8 \<Rightarrow> bool" where
  "isalnum c \<longleftrightarrow> ismask c AND (CT_U OR CT_L OR CT_D) \<noteq> 0"

definition isalpha :: "u8 \<Rightarrow> bool" where
  "isalpha c \<longleftrightarrow> ismask c AND (CT_U OR CT_L) \<noteq> 0"

definition iscntrl :: "u8 \<Rightarrow> bool" where
  "iscntrl c \<longleftrightarrow> ismask c AND CT_C \<noteq> 0"

definition isdigit :: "u8 \<Rightarrow> bool" where
  "isdigit c \<longleftrightarrow> ismask c AND CT_D \<noteq> 0"

definition isgraph :: "u8 \<Rightarrow> bool" where
  "isgraph c \<longleftrightarrow> ismask c AND (CT_P OR CT_U OR CT_L OR CT_D) \<noteq> 0"

definition islower :: "u8 \<Rightarrow> bool" where
  "islower c \<longleftrightarrow> ismask c AND CT_L \<noteq> 0"

definition isprint :: "u8 \<Rightarrow> bool" where
  "isprint c \<longleftrightarrow> ismask c AND (CT_P OR CT_U OR CT_L OR CT_D OR CT_SP) \<noteq> 0"

definition ispunct :: "u8 \<Rightarrow> bool" where
  "ispunct c \<longleftrightarrow> ismask c AND CT_P \<noteq> 0"

definition isspace :: "u8 \<Rightarrow> bool" where
  "isspace c \<longleftrightarrow> ismask c AND CT_S \<noteq> 0"

definition isupper :: "u8 \<Rightarrow> bool" where
  "isupper c \<longleftrightarrow> ismask c AND CT_U \<noteq> 0"

definition isxdigit :: "u8 \<Rightarrow> bool" where
  "isxdigit c \<longleftrightarrow> ismask c AND (CT_D OR CT_X) \<noteq> 0"

definition isascii :: "u8 \<Rightarrow> bool" where
  "isascii c \<longleftrightarrow> c \<le> 0x7f"

definition toascii :: "u8 \<Rightarrow> u8" where
  "toascii c = c AND 0x7f"

definition tolower :: "u8 \<Rightarrow> u8" where
  "tolower c = (if isupper c then c - (65 - 97) else c)"

definition toupper :: "u8 \<Rightarrow> u8" where
  "toupper c = (if islower c then c - (97 - 65) else c)"

text \<open>\<^verbatim>\<open>_tolower\<close>, the fast variant.\<close>

definition tolower_fast :: "u8 \<Rightarrow> u8" where
  "tolower_fast c = c OR 0x20"

definition isodigit :: "u8 \<Rightarrow> bool" where
  "isodigit c \<longleftrightarrow> 48 \<le> sint c \<and> sint c \<le> 55"

section \<open>Parsing\<close>

abbreviation (input) "KSTRTOX_OVERFLOW \<equiv> 0x80000000 :: u32"

text \<open>\<^verbatim>\<open>_parse_integer_fixup_radix\<close> returns the position after the prefix and the base.\<close>

definition fixup_radix :: "mem \<Rightarrow> u32 \<Rightarrow> u32 \<Rightarrow> u32 \<times> u32" where
  "fixup_radix m s base =
     (let base =
            (if base = 0 then
               if m s = 48 then
                 if tolower_fast (m (s + 1)) = 120 \<and> isxdigit (m (s + 2)) then 16 else 8
               else 10
             else base)
      in if base = 16 \<and> m s = 48 \<and> tolower_fast (m (s + 1)) = 120 then (s + 2, base)
         else (s, base))"

definition digit_val :: "u8 \<Rightarrow> u32 option" where
  "digit_val c =
     (if 48 \<le> sint c \<and> sint c \<le> 57 then Some (of_int (sint c - 48))
      else if 97 \<le> sint (tolower_fast c) \<and> sint (tolower_fast c) \<le> 102 then
        Some (of_int (sint (tolower_fast c) - 97 + 10))
      else None)"

text \<open>
  \<^verbatim>\<open>_parse_integer\<close> returns the number of digits and the value; its test for overflow is commented
  out in the source, so that \<^verbatim>\<open>overflow\<close> stays 0.
\<close>

partial_function (option) parse_loop :: "mem \<Rightarrow> u32 \<Rightarrow> u32 \<Rightarrow> u64 \<Rightarrow> u32 \<Rightarrow> (u32 \<times> u64) option" where
  "parse_loop m base s res rv =
     (if m s \<noteq> 0 then
        (case digit_val (m s) of
           None \<Rightarrow> Some (rv, res)
         | Some val \<Rightarrow>
             if val \<ge> base then Some (rv, res)
             else parse_loop m base (s + 1) (res * ucast base + ucast val) (rv + 1))
      else Some (rv, res))"

definition parse_integer :: "mem \<Rightarrow> u32 \<Rightarrow> u32 \<Rightarrow> (u32 \<times> u64) option" where
  "parse_integer m s base = parse_loop m base s 0 0"

text \<open>\<^verbatim>\<open>_kstrtoull\<close> and its callers.\<close>

definition kstrtoull_at :: "mem \<Rightarrow> u32 \<Rightarrow> u32 \<Rightarrow> (errno + u64) option" where
  "kstrtoull_at m s base =
     (case fixup_radix m s base of (s, base) \<Rightarrow>
        parse_integer m s base \<bind> (\<lambda>(rv, res).
          if rv AND KSTRTOX_OVERFLOW \<noteq> 0 then Some (Inl ERANGE)
          else
            let rv = rv AND NOT KSTRTOX_OVERFLOW
            in if rv = 0 then Some (Inl EINVAL)
               else
                 let s = s + rv; s = (if m s = 10 then s + 1 else s)
                 in if m s \<noteq> 0 then Some (Inl EINVAL) else Some (Inr res)))"

definition kstrtoull :: "mem \<Rightarrow> u32 \<Rightarrow> u32 \<Rightarrow> (errno + u64) option" where
  "kstrtoull m s base = kstrtoull_at m (if m s = 43 then s + 1 else s) base"

text \<open>A \<^verbatim>\<open>long long\<close> is the 64-bit word read with \<open>sint\<close>.\<close>

definition kstrtoll :: "mem \<Rightarrow> u32 \<Rightarrow> u32 \<Rightarrow> (errno + u64) option" where
  "kstrtoll m s base =
     (if m s = 45 then
        kstrtoull_at m (s + 1) base \<bind> (\<lambda>r. Some (case r of
          Inl e \<Rightarrow> Inl e
        | Inr tmp \<Rightarrow> if sint (- tmp) \<ge> 0 then Inl ERANGE else Inr (- tmp)))
      else
        kstrtoull m s base \<bind> (\<lambda>r. Some (case r of
          Inl e \<Rightarrow> Inl e
        | Inr tmp \<Rightarrow> if sint tmp < 0 then Inl ERANGE else Inr tmp)))"

definition kstrtoul :: "mem \<Rightarrow> u32 \<Rightarrow> u32 \<Rightarrow> (errno + u32) option" where
  "kstrtoul m s base =
     kstrtoull m s base \<bind> (\<lambda>r. Some (case r of
       Inl e \<Rightarrow> Inl e
     | Inr tmp \<Rightarrow> if tmp \<noteq> ucast (ucast tmp :: u32) then Inl ERANGE else Inr (ucast tmp)))"

definition kstrtol :: "mem \<Rightarrow> u32 \<Rightarrow> u32 \<Rightarrow> (errno + u32) option" where
  "kstrtol m s base =
     kstrtoll m s base \<bind> (\<lambda>r. Some (case r of
       Inl e \<Rightarrow> Inl e
     | Inr tmp \<Rightarrow> if tmp \<noteq> scast (ucast tmp :: u32) then Inl ERANGE else Inr (ucast tmp)))"

definition kstrtouint :: "mem \<Rightarrow> u32 \<Rightarrow> u32 \<Rightarrow> (errno + u32) option" where
  "kstrtouint m s base =
     kstrtoull m s base \<bind> (\<lambda>r. Some (case r of
       Inl e \<Rightarrow> Inl e
     | Inr tmp \<Rightarrow> if tmp \<noteq> ucast (ucast tmp :: u32) then Inl ERANGE else Inr (ucast tmp)))"

definition kstrtoint :: "mem \<Rightarrow> u32 \<Rightarrow> u32 \<Rightarrow> (errno + u32) option" where
  "kstrtoint m s base =
     kstrtoll m s base \<bind> (\<lambda>r. Some (case r of
       Inl e \<Rightarrow> Inl e
     | Inr tmp \<Rightarrow> if tmp \<noteq> scast (ucast tmp :: u32) then Inl ERANGE else Inr (ucast tmp)))"

definition kstrtou16 :: "mem \<Rightarrow> u32 \<Rightarrow> u32 \<Rightarrow> (errno + u16) option" where
  "kstrtou16 m s base =
     kstrtoull m s base \<bind> (\<lambda>r. Some (case r of
       Inl e \<Rightarrow> Inl e
     | Inr tmp \<Rightarrow> if tmp \<noteq> ucast (ucast tmp :: u16) then Inl ERANGE else Inr (ucast tmp)))"

definition kstrtos16 :: "mem \<Rightarrow> u32 \<Rightarrow> u32 \<Rightarrow> (errno + u16) option" where
  "kstrtos16 m s base =
     kstrtoll m s base \<bind> (\<lambda>r. Some (case r of
       Inl e \<Rightarrow> Inl e
     | Inr tmp \<Rightarrow> if tmp \<noteq> scast (ucast tmp :: u16) then Inl ERANGE else Inr (ucast tmp)))"

definition kstrtou8 :: "mem \<Rightarrow> u32 \<Rightarrow> u32 \<Rightarrow> (errno + u8) option" where
  "kstrtou8 m s base =
     kstrtoull m s base \<bind> (\<lambda>r. Some (case r of
       Inl e \<Rightarrow> Inl e
     | Inr tmp \<Rightarrow> if tmp \<noteq> ucast (ucast tmp :: u8) then Inl ERANGE else Inr (ucast tmp)))"

definition kstrtos8 :: "mem \<Rightarrow> u32 \<Rightarrow> u32 \<Rightarrow> (errno + u8) option" where
  "kstrtos8 m s base =
     kstrtoll m s base \<bind> (\<lambda>r. Some (case r of
       Inl e \<Rightarrow> Inl e
     | Inr tmp \<Rightarrow> if tmp \<noteq> scast (ucast tmp :: u8) then Inl ERANGE else Inr (ucast tmp)))"

section \<open>Printing\<close>

text \<open>The characters of a literal as bytes.\<close>

definition ascii :: "string \<Rightarrow> u8 list" where
  "ascii cs = map (\<lambda>c. of_nat (of_char c)) cs"

text \<open>The loop at the end of all three functions, which turns the digits round.\<close>

partial_function (option) invert_loop :: "mem \<Rightarrow> u32 \<Rightarrow> u32 \<Rightarrow> mem option" where
  "invert_loop m low ptr =
     (if low < ptr then invert_loop (m(low := m ptr, ptr := m low)) (low + 1) (ptr - 1)
      else Some m)"

partial_function (option) itoa_16_loop :: "mem \<Rightarrow> u32 \<Rightarrow> u32 \<Rightarrow> (u32 \<times> mem) option" where
  "itoa_16_loop m ptr val =
     (let m = m(ptr := ascii ''0123456789abcdef'' ! unat (val AND 0xF)); val = drop_bit 4 val
      in if val \<noteq> 0 then itoa_16_loop m (ptr + 1) val else Some (ptr + 1, m))"

definition itoa_16 :: "mem \<Rightarrow> u32 \<Rightarrow> u32 \<Rightarrow> (u32 \<times> mem) option" where
  "itoa_16 m val buf =
     itoa_16_loop m buf val \<bind> (\<lambda>(ptr, m).
       map_option (Pair buf) (invert_loop (m(ptr := 0)) buf (ptr - 1)))"

partial_function (option) itoa_2_loop :: "mem \<Rightarrow> u32 \<Rightarrow> u32 \<Rightarrow> (u32 \<times> mem) option" where
  "itoa_2_loop m ptr val =
     (let m = m(ptr := (if val AND 1 \<noteq> 0 then 49 else 48)); val = drop_bit 1 val
      in if val \<noteq> 0 then itoa_2_loop m (ptr + 1) val else Some (ptr + 1, m))"

definition itoa_2 :: "mem \<Rightarrow> u32 \<Rightarrow> u32 \<Rightarrow> (u32 \<times> mem) option" where
  "itoa_2 m val buf =
     itoa_2_loop m buf val \<bind> (\<lambda>(ptr, m).
       map_option (Pair buf) (invert_loop (m(ptr := 0)) buf (ptr - 1)))"

text \<open>
  \<^verbatim>\<open>itoa\<close> divides a signed integer, with quotients rounded towards zero, and indexes a table that is
  symmetric around \<open>0\<close>.
\<close>

definition digit_chars :: "u8 list" where
  "digit_chars = ascii ''zyxwvutsrqponmlkjihgfedcba9876543210123456789abcdefghijklmnopqrstuvwxyz''"

partial_function (option) itoa_loop :: "int \<Rightarrow> mem \<Rightarrow> u32 \<Rightarrow> int \<Rightarrow> (u32 \<times> mem) option" where
  "itoa_loop base m ptr val =
     (let m = m(ptr := digit_chars ! nat (35 + val smod base)); val = val sdiv base
      in if val \<noteq> 0 then itoa_loop base m (ptr + 1) val else Some (ptr + 1, m))"

definition itoa :: "mem \<Rightarrow> int \<Rightarrow> u32 \<Rightarrow> int \<Rightarrow> (u32 \<times> mem) option" where
  "itoa m val str base =
     (if base < 2 \<or> base > 36 then Some (str, m(str := 0))
      else
        let (low, m) = (if val < 0 \<and> base = 10 then (str + 1, m(str := 45)) else (str, m))
        in itoa_loop base m low val \<bind> (\<lambda>(ptr, m).
             map_option (Pair str) (invert_loop (m(ptr := 0)) low (ptr - 1))))"

section \<open>Digits\<close>

text \<open>The byte of a digit, the value of a list of digits, and the digits of a number, last one first.\<close>

definition digit_byte :: "nat \<Rightarrow> u8" where
  "digit_byte d = of_nat (if d < 10 then 48 + d else 87 + d)"

definition num :: "nat \<Rightarrow> nat \<Rightarrow> nat list \<Rightarrow> nat" where
  "num b = foldl (\<lambda>n d. n * b + d)"

function rdigits :: "nat \<Rightarrow> nat \<Rightarrow> nat list" where
  "rdigits b n = (if n < b \<or> b < 2 then [n] else n mod b # rdigits b (n div b))"
  by pat_completeness auto
termination
  by (relation "measure snd") (auto simp: not_less intro!: div_less_dividend)

declare rdigits.simps [simp del]

definition digits :: "nat \<Rightarrow> nat \<Rightarrow> nat list" where
  "digits b n = rev (rdigits b n)"

lemma digit_val_byte:
  assumes "d < 16"
  shows "digit_val (digit_byte d) = Some (of_nat d)"
proof -
  have "\<forall>d \<in> set [0..<16]. digit_val (digit_byte d) = Some (of_nat d)" by code_simp
  with assms show ?thesis by simp
qed

lemma digit_byte_facts:
  assumes "d < 36"
  shows "digit_byte d \<noteq> 0 \<and> digit_byte d \<noteq> 43 \<and> digit_byte d \<noteq> 45"
proof -
  have "\<forall>d \<in> set [0..<36]. digit_byte d \<noteq> 0 \<and> digit_byte d \<noteq> 43 \<and> digit_byte d \<noteq> 45" by code_simp
  with assms show ?thesis by simp
qed

lemma digit_byte_no_x:
  assumes "d < 16"
  shows "tolower_fast (digit_byte d) \<noteq> 120"
proof -
  have "\<forall>d \<in> set [0..<16]. tolower_fast (digit_byte d) \<noteq> 120" by code_simp
  with assms show ?thesis by simp
qed

lemma digit_chars_nth:
  assumes "\<bar>r\<bar> < 36"
  shows "digit_chars ! nat (35 + r) = digit_byte (nat \<bar>r\<bar>)"
proof -
  have "\<forall>r \<in> set [-35..35]. digit_chars ! nat (35 + r) = digit_byte (nat \<bar>r\<bar>)" by code_simp
  moreover have "r \<in> set [-35..35]" using assms unfolding set_upto by auto
  ultimately show ?thesis by blast
qed

lemma num_Nil [simp]: "num b n [] = n"
  by (simp add: num_def)

lemma num_Cons [simp]: "num b n (d # ds) = num b (n * b + d) ds"
  by (simp add: num_def)

lemma num_append [simp]: "num b n (as @ bs) = num b (num b n as) bs"
  by (simp add: num_def)

lemma num_digits:
  assumes "2 \<le> b"
  shows "num b 0 (digits b n) = n"
  using assms
proof (induction b n rule: rdigits.induct)
  case (1 b n)
  show ?case
  proof (cases "n < b")
    case True
    then show ?thesis by (simp add: digits_def rdigits.simps)
  next
    case False
    then have "digits b n = digits b (n div b) @ [n mod b]"
      using 1(2) by (simp add: digits_def rdigits.simps [of b n])
    then show ?thesis using 1 False by simp
  qed
qed

lemma digits_less:
  assumes "2 \<le> b" "d \<in> set (digits b n)"
  shows "d < b"
  using assms
proof (induction b n rule: rdigits.induct)
  case (1 b n)
  show ?case
  proof (cases "n < b")
    case True
    then show ?thesis using 1 by (simp add: digits_def rdigits.simps)
  next
    case False
    then have "digits b n = digits b (n div b) @ [n mod b]"
      using 1(2) by (simp add: digits_def rdigits.simps [of b n])
    then show ?thesis using 1 False by auto
  qed
qed

lemma rdigits_ne [simp]: "rdigits b n \<noteq> []"
  by (simp add: rdigits.simps)

lemma rdigits_length:
  assumes "2 \<le> b" "n < 2 ^ k" "0 < k"
  shows "length (rdigits b n) \<le> k"
  using assms
proof (induction b n arbitrary: k rule: rdigits.induct)
  case (1 b n)
  show ?case
  proof (cases "n < b")
    case False
    then obtain j where k: "k = Suc j" "0 < j" using 1(2-4)
      by (cases k; cases "k - 1") auto
    have "n div b \<le> n div 2" using 1(2) by (simp add: div_le_mono2)
    also have "\<dots> < 2 ^ j" using 1(3) k by simp
    finally have "length (rdigits b (n div b)) \<le> j" using 1 False k by auto
    then show ?thesis using False 1(2) k by (simp add: rdigits.simps [of b n])
  qed (use 1 in \<open>simp add: rdigits.simps\<close>)
qed

section \<open>What the parsers compute\<close>

text \<open>What may follow the digits: nothing, or a newline.\<close>

abbreviation (input) "line_end t \<equiv> t = [] \<or> t = [10 :: u8]"

lemma parse_loop_digits:
  assumes "cstr m s (map digit_byte ds @ t)" "line_end t" "\<forall>d \<in> set ds. d < b" "b \<le> 16"
  shows "parse_loop m (of_nat b) s (of_nat n) rv =
    Some (rv + of_nat (length ds), of_nat (num b n ds))"
  using assms
proof (induction ds arbitrary: s n rv)
  case Nil
  have "digit_val 10 = None" by code_simp
  with Nil show ?case by (subst parse_loop.simps) auto
next
  case (Cons d ds)
  have d: "d < 16" "\<not> of_nat b \<le> (of_nat d :: u32)"
    using Cons.prems(3,4) by (auto simp: word_le_nat_alt unat_of_nat)
  have "(of_nat n * ucast (of_nat b :: u32) + ucast (of_nat d :: u32) :: u64) = of_nat (n * b + d)"
    using Cons.prems(3,4) by (simp add: unsigned_of_nat take_bit_nat_eq_self)
  then show ?case
    using Cons d Cons.IH [of "s + 1" "n * b + d" "rv + 1"]
    by (subst parse_loop.simps) (simp add: digit_val_byte algebra_simps)
qed

lemma fixup_radix_digits:
  assumes "cstr m s (map digit_byte ds @ t)" "line_end t" "\<forall>d \<in> set ds. d < b"
    "b \<le> 16" "2 \<le> b" "ds \<noteq> []"
  shows "fixup_radix m s (of_nat b) = (s, of_nat b)"
proof -
  obtain d ds' where ds: "ds = d # ds'" using assms(6) by (cases ds) auto
  have b0: "of_nat b \<noteq> (0 :: u32)" using assms(4,5) by (simp add: word_unat_eq_iff unat_of_nat)
  have "tolower_fast 0 \<noteq> 120" "tolower_fast 10 \<noteq> 120" by code_simp+
  then have "tolower_fast (m (s + 1)) \<noteq> 120"
    using assms(1-4) ds digit_byte_no_x by (cases ds') (auto simp: less_le_trans)
  then show ?thesis using b0 by (simp add: fixup_radix_def)
qed

lemma overflow_bit_clear:
  fixes x :: u32
  assumes "unat x < 2 ^ 31"
  shows "x AND KSTRTOX_OVERFLOW = 0 \<and> x AND NOT KSTRTOX_OVERFLOW = x"
proof -
  have k: "(KSTRTOX_OVERFLOW :: u32) = 2 ^ 31" by simp
  have "\<not> bit (unat x) 31" using assms by (simp add: bit_iff_odd)
  then have nb: "\<not> bit x 31" by (simp add: bit_unsigned_iff)
  have "x AND NOT (2 ^ i) = x" if "\<not> bit x i" for i
    using that by (intro bit_eqI) (auto simp: bit_simps)
  with nb show ?thesis unfolding k by (metis and_exp_eq_0_iff_not_bit)
qed

lemma kstrtoull_at_digits:
  assumes "cstr m s (map digit_byte ds @ t)" "line_end t" "\<forall>d \<in> set ds. d < b"
    "b \<le> 16" "2 \<le> b" "ds \<noteq> []" "length ds < 2 ^ 31"
  shows "kstrtoull_at m s (of_nat b) = Some (Inr (of_nat (num b 0 ds)))"
proof -
  let ?rv = "of_nat (length ds) :: u32"
  have rv: "unat ?rv = length ds" using assms(7) by (simp add: unat_of_nat)
  have rv0: "?rv \<noteq> 0" using rv assms(6) by (metis length_0_conv unat_0)
  have "parse_integer m s (of_nat b) = Some (?rv, of_nat (num b 0 ds))"
    using parse_loop_digits [OF assms(1-4), of 0 0] by (simp add: parse_integer_def)
  moreover have "cstr m (s + ?rv) t" using assms(1) by (simp add: cstr_append)
  ultimately show ?thesis
    using fixup_radix_digits [OF assms(1-6)] overflow_bit_clear [of ?rv] rv rv0 assms(2,7)
    by (auto simp: kstrtoull_at_def Let_def)
qed

lemma kstrtoull_digits:
  assumes "cstr m s (map digit_byte ds @ t)" "line_end t" "\<forall>d \<in> set ds. d < b"
    "b \<le> 16" "2 \<le> b" "ds \<noteq> []" "length ds < 2 ^ 31"
  shows "kstrtoull m s (of_nat b) = Some (Inr (of_nat (num b 0 ds)))"
proof -
  obtain d ds' where "ds = d # ds'" using assms(6) by (cases ds) auto
  then have "m s \<noteq> 43" using assms(1,3,4) digit_byte_facts [of d] by auto
  then show ?thesis using kstrtoull_at_digits [OF assms] by (simp add: kstrtoull_def)
qed

lemma narrow_int:
  assumes "- (2 ^ 31) \<le> v" "v < 2 ^ 31"
  shows "sint (of_int v :: u64) = v \<and> ucast (of_int v :: u64) = (of_int v :: u32)
    \<and> scast (of_int v :: u32) = (of_int v :: u64)"
proof -
  have "sint (of_int v :: u64) = v" "sint (of_int v :: u32) = v"
    using assms by (simp_all add: signed_of_int signed_take_bit_int_eq_self)
  moreover have "ucast (of_int v :: u64) = (of_int v :: u32)"
    by (intro bit_eqI) (simp add: bit_simps)
  ultimately show ?thesis by (simp add: scast_eq)
qed

lemma kstrtoint_digits:
  assumes "cstr m s (map digit_byte ds @ t)" "line_end t" "\<forall>d \<in> set ds. d < b"
    "b \<le> 16" "2 \<le> b" "ds \<noteq> []" "length ds < 2 ^ 31" "num b 0 ds < 2 ^ 31"
  shows "kstrtoint m s (of_nat b) = Some (Inr (of_nat (num b 0 ds)))"
proof -
  let ?n = "num b 0 ds"
  obtain d ds' where "ds = d # ds'" using assms(6) by (cases ds) auto
  then have "m s \<noteq> 45" using assms(1,3,4) digit_byte_facts [of d] by auto
  moreover note narrow_int [of "int ?n"]
  ultimately show ?thesis using kstrtoull_digits [OF assms(1-7)] assms(8)
    by (simp add: kstrtoint_def kstrtoll_def)
qed

lemma kstrtoint_negative:
  assumes "cstr m s (45 # map digit_byte ds @ t)" "line_end t" "\<forall>d \<in> set ds. d < b"
    "b \<le> 16" "2 \<le> b" "ds \<noteq> []" "length ds < 2 ^ 31" "0 < num b 0 ds" "num b 0 ds \<le> 2 ^ 31"
  shows "kstrtoint m s (of_nat b) = Some (Inr (- of_nat (num b 0 ds)))"
proof -
  let ?n = "num b 0 ds"
  have "cstr m (s + 1) (map digit_byte ds @ t)" "m s = 45" using assms(1) by simp_all
  then have "kstrtoull_at m (s + 1) (of_nat b) = Some (Inr (of_nat ?n))"
    using assms by (intro kstrtoull_at_digits) auto
  then show ?thesis using narrow_int [of "- int ?n"] assms(8,9) \<open>m s = 45\<close>
    by (simp add: kstrtoint_def kstrtoll_def)
qed

section \<open>What the printers write\<close>

lemma mem_write_commute:
  "a \<notin> region p (length bs) \<Longrightarrow> mem_write (m(a := x)) p bs = (mem_write m p bs)(a := x)"
  by (induction bs arbitrary: m p) (auto simp: fun_upd_twist)

lemma mem_write_twice:
  assumes "length as = length bs" "length bs \<le> 2 ^ 32"
  shows "mem_write (mem_write m p as) p bs = mem_write m p bs"
proof
  fix a
  show "mem_write (mem_write m p as) p bs a = mem_write m p bs a"
  proof (cases "a \<in> region p (length bs)")
    case True
    then show ?thesis using assms by (auto simp: region_def mem_write_nth)
  next
    case False
    then show ?thesis using assms(1) by (simp add: mem_write_other)
  qed
qed

lemma unat_add_nat: "unat (p :: u32) + n < 2 ^ 32 \<Longrightarrow> unat (p + of_nat n) = unat p + n"
  by (simp add: unat_word_ariths unat_of_nat)

text \<open>The loop that turns the digits round, on bytes that do not wrap around the address space.\<close>

lemma invert_loop_rev:
  assumes "\<forall>i < length bs. m (low + of_nat i) = bs ! i" "unat low + length bs < 2 ^ 32"
    "bs \<noteq> [] \<or> low \<noteq> 0"
  shows "invert_loop m low (low + of_nat (length bs) - 1) = Some (mem_write m low (rev bs))"
  using assms
proof (induction "length bs" arbitrary: bs m low rule: less_induct)
  case less
  consider "bs = []" | x where "bs = [x]" | a mid z where "bs = a # mid @ [z]"
    by (metis append_butlast_last_id list.exhaust)
  then show ?case
  proof cases
    case 1
    then have "unat (low - 1) < unat low" using less.prems(3) unat_gt_0 [of low]
      by (simp add: unat_minus_one)
    then show ?thesis using 1 by (subst invert_loop.simps) (simp add: word_less_nat_alt)
  next
    case (2 x)
    then show ?thesis using less.prems(1) by (subst invert_loop.simps) (simp add: fun_upd_idem)
  next
    case (3 a mid z)
    let ?ptr = "low + of_nat (Suc (length mid))" and ?m = "m(low := z)"
    have at: "m low = a" "m ?ptr = z" using less.prems(1) 3
      by (auto dest: spec [of _ 0] spec [of _ "Suc (length mid)"] simp: nth_append)
    have ptr: "low + of_nat (length bs) - 1 = ?ptr" using 3 by simp
    have un: "unat ?ptr = unat low + Suc (length mid)" "unat (low + 1) = unat low + 1"
      using unat_add_nat [of low "Suc (length mid)"] unat_add_nat [of low 1] less.prems(2) 3 by simp_all
    have sz: "Suc (Suc (length mid)) \<le> 2 ^ 32" using less.prems(2) 3 by simp
    have out: "low \<notin> region (low + 1) (length mid)" "?ptr \<notin> region (low + 1) (length mid)"
      using region_notin [of "length mid" low] region_disjoint [of "length mid" 1 "low + 1"] sz
      by (auto simp: add.assoc)
    have inner: "\<forall>i < length mid. (?m(?ptr := a)) (low + 1 + of_nat i) = mid ! i"
    proof (intro allI impI)
      fix i assume i: "i < length mid"
      then have "low + 1 + of_nat i \<in> region (low + 1) (length mid)" by (rule region_mem)
      moreover have "m (low + of_nat (Suc i)) = mid ! i"
        using less.prems(1) 3 i by (auto dest: spec [of _ "Suc i"] simp: nth_append)
      ultimately show "(?m(?ptr := a)) (low + 1 + of_nat i) = mid ! i"
        using out by (auto simp: add.assoc)
    qed
    have "low + 1 + of_nat (length mid) - 1 = ?ptr - 1" by simp
    then have "invert_loop (?m(?ptr := a)) (low + 1) (?ptr - 1) = Some (mem_write (?m(?ptr := a)) (low + 1) (rev mid))"
      using less.hyps [of mid "?m(?ptr := a)" "low + 1", OF _ inner] 3 less.prems(2) un by force
    also have "mem_write (?m(?ptr := a)) (low + 1) (rev mid) = (mem_write ?m (low + 1) (rev mid))(?ptr := a)"
      using out by (intro mem_write_commute) simp
    also have "\<dots> = mem_write m low (rev bs)"
      using 3 by (simp add: mem_write_append add.assoc)
    finally have rec: "invert_loop (?m(?ptr := a)) (low + 1) (?ptr - 1) = Some (mem_write m low (rev bs))" .
    have "low < ?ptr" using un by (simp add: word_less_nat_alt)
    then show ?thesis unfolding ptr using rec at by (subst invert_loop.simps) (simp del: of_nat_Suc)
  qed
qed

text \<open>The common end of the printing functions.\<close>

lemma print_finish:
  assumes "unat p + length bs < 2 ^ 32" "bs \<noteq> []"
  shows "invert_loop ((mem_write m p bs)(p + of_nat (length bs) := 0)) p (p + of_nat (length bs) - 1)
    = Some (mem_write m p (rev bs @ [0]))"
proof -
  let ?q = "p + of_nat (length bs)" and ?m = "(mem_write m p bs)(p + of_nat (length bs) := 0)"
  have out: "?q \<notin> region p (length bs)" using region_disjoint [of "length bs" 1 p] assms(1) by auto
  have "\<forall>i < length bs. ?m (p + of_nat i) = bs ! i"
  proof (intro allI impI)
    fix i assume "i < length bs"
    then show "?m (p + of_nat i) = bs ! i"
      using mem_write_nth [of bs i m p] region_mem [of i "length bs" p] out assms(1) by auto
  qed
  then have "invert_loop ?m p (?q - 1) = Some (mem_write ?m p (rev bs))"
    using assms by (intro invert_loop_rev) auto
  also have "mem_write ?m p (rev bs) = (mem_write (mem_write m p bs) p (rev bs))(?q := 0)"
    using out by (intro mem_write_commute) simp
  also have "\<dots> = mem_write m p (rev bs @ [0])"
    using assms(1) by (simp add: mem_write_twice mem_write_append)
  finally show ?thesis .
qed

lemma int_div_mod_trunc:
  assumes "0 < b"
  shows "nat \<bar>v sdiv b\<bar> = nat \<bar>v\<bar> div nat b" "nat \<bar>v smod b\<bar> = nat \<bar>v\<bar> mod nat b" "\<bar>v smod b\<bar> < b"
proof -
  have q: "v sdiv b = sgn v * (\<bar>v\<bar> div b)" using assms by (simp add: signed_divide_int_def)
  have r: "v smod b = sgn v * (\<bar>v\<bar> mod b)" using assms by (simp add: signed_modulo_int_def)
  show "nat \<bar>v sdiv b\<bar> = nat \<bar>v\<bar> div nat b"
    using q assms by (cases "v = 0") (auto simp: abs_mult nat_div_distrib pos_imp_zdiv_nonneg_iff)
  show "nat \<bar>v smod b\<bar> = nat \<bar>v\<bar> mod nat b"
    using r assms by (cases "v = 0") (auto simp: abs_mult nat_mod_distrib)
  show "\<bar>v smod b\<bar> < b" using r assms by (cases "v = 0") (auto simp: abs_mult)
qed

lemma itoa_loop_digits:
  assumes "2 \<le> base" "base \<le> 36"
  shows "itoa_loop base m ptr val =
    Some (ptr + of_nat (length (rdigits (nat base) (nat \<bar>val\<bar>))),
      mem_write m ptr (map digit_byte (rdigits (nat base) (nat \<bar>val\<bar>))))"
proof (induction "nat \<bar>val\<bar>" arbitrary: m ptr val rule: less_induct)
  case less
  let ?b = "nat base" and ?n = "nat \<bar>val\<bar>" and ?v = "val sdiv base"
  let ?m = "m(ptr := digit_byte (?n mod ?b))"
  have q: "nat \<bar>?v\<bar> = ?n div ?b" "nat \<bar>val smod base\<bar> = ?n mod ?b" "\<bar>val smod base\<bar> < base"
    using int_div_mod_trunc [of base val] assms by simp_all
  have c: "digit_chars ! nat (35 + val smod base) = digit_byte (?n mod ?b)"
    using digit_chars_nth [of "val smod base"] q assms by simp
  have z: "?v = 0 \<longleftrightarrow> ?n < ?b"
  proof -
    have "?v = 0 \<longleftrightarrow> ?n div ?b = 0" using q(1) by auto
    then show ?thesis using assms by (simp add: div_eq_0_iff)
  qed
  show ?case
  proof (cases "?n < ?b")
    case True
    then show ?thesis using c z assms by (subst itoa_loop.simps) (simp add: Let_def rdigits.simps)
  next
    case False
    have "?n div ?b < ?n" using False assms by (intro div_less_dividend) auto
    then have "itoa_loop base ?m (ptr + 1) ?v = Some (ptr + 1 + of_nat (length (rdigits ?b (?n div ?b))),
        mem_write ?m (ptr + 1) (map digit_byte (rdigits ?b (?n div ?b))))"
      using less [of ?v] q(1) by simp
    moreover have "rdigits ?b ?n = ?n mod ?b # rdigits ?b (?n div ?b)"
      using False assms by (subst rdigits.simps) auto
    ultimately show ?thesis using c z False by (subst itoa_loop.simps) (simp add: Let_def add.assoc)
  qed
qed

text \<open>What \<^verbatim>\<open>itoa\<close> leaves in memory; a buffer of 34 bytes is enough for every number and base.\<close>

lemma itoa_writes:
  assumes "2 \<le> base" "base \<le> 36" "\<bar>val\<bar> \<le> 2 ^ 31" "unat str + 34 < 2 ^ 32"
  shows "itoa m val str base = Some (str, mem_write m str
    ((if val < 0 \<and> base = 10 then [45] else []) @ map digit_byte (digits (nat base) (nat \<bar>val\<bar>)) @ [0]))"
proof -
  let ?ds = "map digit_byte (rdigits (nat base) (nat \<bar>val\<bar>))"
  have "nat \<bar>val\<bar> < 2 ^ 32" using assms(3) by simp
  then have len: "length ?ds \<le> 32" using rdigits_length [of "nat base" "nat \<bar>val\<bar>" 32] assms by simp
  have fin: "itoa_loop base m' p val \<bind> (\<lambda>(ptr, m). map_option (Pair str) (invert_loop (m(ptr := 0)) p (ptr - 1)))
      = Some (str, mem_write m' p (rev ?ds @ [0]))" if "unat p + 33 < 2 ^ 32" for m' p
    using print_finish [of p ?ds m'] itoa_loop_digits [OF assms(1,2), of m' p val] that len by simp
  have rev: "rev ?ds = map digit_byte (digits (nat base) (nat \<bar>val\<bar>))" by (simp add: digits_def rev_map)
  have one: "unat (str + 1) = unat str + 1" using unat_add_nat [of str 1] assms(4) by simp
  show ?thesis
  proof (cases "val < 0 \<and> base = 10")
    case True
    then show ?thesis using fin [of "str + 1" "m(str := 45)"] rev one assms by (simp add: itoa_def)
  next
    case False
    then have "itoa m val str base = itoa_loop base m str val \<bind> (\<lambda>(ptr, m).
        map_option (Pair str) (invert_loop (m(ptr := 0)) str (ptr - 1)))"
      using assms(1,2) by (auto simp: itoa_def)
    then show ?thesis using fin [of str m] rev assms(4) False by auto
  qed
qed

lemma low_digits:
  fixes val :: u32
  shows "unat (val AND 0xF) = unat val mod 16" "unat (val AND 1) = unat val mod 2"
    "unat (drop_bit 4 val) = unat val div 16" "unat (drop_bit 1 val) = unat val div 2"
proof -
  have "val AND 0xF = take_bit 4 val" "val AND 1 = take_bit 1 val"
    by (simp_all add: take_bit_eq_mask mask_eq_exp_minus_1)
  then show "unat (val AND 0xF) = unat val mod 16" "unat (val AND 1) = unat val mod 2"
    by (simp_all add: take_bit_eq_mod unat_mod)
  show "unat (drop_bit 4 val) = unat val div 16" "unat (drop_bit 1 val) = unat val div 2"
    by (simp_all add: drop_bit_eq_div unat_div)
qed

lemma itoa_16_loop_digits:
  "itoa_16_loop m ptr val =
    Some (ptr + of_nat (length (rdigits 16 (unat val))),
      mem_write m ptr (map digit_byte (rdigits 16 (unat val))))"
proof (induction "unat val" arbitrary: m ptr val rule: less_induct)
  case less
  let ?n = "unat val" and ?v = "drop_bit 4 val"
  have "\<forall>d \<in> set [0..<16]. ascii ''0123456789abcdef'' ! d = digit_byte d" by code_simp
  then have c: "ascii ''0123456789abcdef'' ! unat (val AND 0xF) = digit_byte (?n mod 16)"
    using low_digits(1) [of val] by simp
  have z: "?v = 0 \<longleftrightarrow> ?n < 16"
    using low_digits(3) [of val] by (metis div_eq_0_iff unat_eq_zero zero_neq_numeral)
  show ?case
  proof (cases "?n < 16")
    case True
    then show ?thesis using c z by (subst itoa_16_loop.simps) (simp add: Let_def rdigits.simps)
  next
    case False
    then have "rdigits 16 ?n = ?n mod 16 # rdigits 16 (unat ?v)"
      using low_digits(3) [of val] by (subst rdigits.simps) simp
    moreover have "unat ?v < ?n" using False low_digits(3) [of val] by simp
    ultimately show ?thesis using c z False less [of ?v]
      by (subst itoa_16_loop.simps) (simp add: Let_def add.assoc)
  qed
qed

lemma itoa_2_loop_digits:
  "itoa_2_loop m ptr val =
    Some (ptr + of_nat (length (rdigits 2 (unat val))),
      mem_write m ptr (map digit_byte (rdigits 2 (unat val))))"
proof (induction "unat val" arbitrary: m ptr val rule: less_induct)
  case less
  let ?n = "unat val" and ?v = "drop_bit 1 val"
  have "val AND 1 \<noteq> 0 \<longleftrightarrow> ?n mod 2 = 1"
    using low_digits(2) [of val] by (metis mod2_eq_if unat_0 unat_eq_zero zero_neq_one)
  then have c: "(if val AND 1 \<noteq> 0 then 49 else 48) = digit_byte (?n mod 2)"
    by (auto simp: digit_byte_def mod2_eq_if)
  have z: "?v = 0 \<longleftrightarrow> ?n < 2"
    using low_digits(4) [of val] by (metis div_eq_0_iff unat_eq_zero zero_neq_numeral)
  show ?case
  proof (cases "?n < 2")
    case True
    then show ?thesis using c z by (subst itoa_2_loop.simps) (simp add: Let_def rdigits.simps)
  next
    case False
    then have "rdigits 2 ?n = ?n mod 2 # rdigits 2 (unat ?v)"
      using low_digits(4) [of val] by (subst rdigits.simps) simp
    moreover have "unat ?v < ?n" using False low_digits(4) [of val] by simp
    ultimately show ?thesis using c z False less [of ?v]
      by (subst itoa_2_loop.simps) (simp add: Let_def add.assoc)
  qed
qed

lemma itoa_16_writes:
  assumes "unat buf + 33 < 2 ^ 32"
  shows "itoa_16 m val buf = Some (buf, mem_write m buf (map digit_byte (digits 16 (unat val)) @ [0]))"
  using print_finish [of buf "map digit_byte (rdigits 16 (unat val))" m] assms
    rdigits_length [of 16 "unat val" 32] u32_bound [of val]
  by (simp add: itoa_16_def itoa_16_loop_digits digits_def rev_map)

lemma itoa_2_writes:
  assumes "unat buf + 33 < 2 ^ 32"
  shows "itoa_2 m val buf = Some (buf, mem_write m buf (map digit_byte (digits 2 (unat val)) @ [0]))"
  using print_finish [of buf "map digit_byte (rdigits 2 (unat val))" m] assms
    rdigits_length [of 2 "unat val" 32] u32_bound [of val]
  by (simp add: itoa_2_def itoa_2_loop_digits digits_def rev_map)

section \<open>The character classes\<close>

lemma ctype_length [simp]: "length ctype = 256"
  by (simp add: ctype_def)

lemma ctype_entries: "(\<forall>(n, x) \<in> set (enumerate 0 ctype). P n x) \<Longrightarrow> P (unat c) (ismask c)"
  using unsigned_less [of c]
  by (auto simp: ismask_def in_set_enumerate_eq dest!: bspec [of _ _ "(unat c, ctype ! unat c)"])

lemma isdigit_range: "isdigit c \<longleftrightarrow> unat c \<in> {48..57}"
  unfolding isdigit_def
  by (rule ctype_entries [of "\<lambda>n x. x AND CT_D \<noteq> 0 \<longleftrightarrow> n \<in> {48..57}"]) code_simp

text \<open>The comment on \<^verbatim>\<open>isspace\<close>: it is false for the byte that ends a string.\<close>

lemma isspace_nul: "\<not> isspace 0"
  by code_simp

section \<open>Properties\<close>

lemma digits_cstr:
  assumes "2 \<le> b" "b \<le> 36" "n < 2 ^ 32" "0 \<notin> set pre" "length pre \<le> 1"
  shows "cstr (mem_write m p (pre @ map digit_byte (digits b n) @ [0])) p (pre @ map digit_byte (digits b n))"
proof -
  have "length (digits b n) \<le> 32" using rdigits_length [of b n 32] assms by (simp add: digits_def)
  moreover have "digit_byte d \<noteq> 0" if "d \<in> set (digits b n)" for d
    using digits_less [OF assms(1) that] assms(2) digit_byte_facts [of d] by simp
  then have "0 \<notin> digit_byte ` set (digits b n)" by (metis imageE)
  ultimately show ?thesis
    using assms cstr_mem_write [of "pre @ map digit_byte (digits b n)" m p] by auto
qed

text \<open>
  C29: Printing and parsing.  For every base up to 16, every \<^verbatim>\<open>int\<close> that \<^verbatim>\<open>itoa\<close> prints (any sign in
  base 10, non-negative otherwise) is read back by \<^verbatim>\<open>kstrtoint\<close> in that base, and both return.
\<close>

theorem itoa_kstrtoint_roundtrip:
  assumes "2 \<le> base" "base \<le> 16" "- (2 ^ 31) \<le> val" "val < 2 ^ 31" "base = 10 \<or> 0 \<le> val"
    "unat str + 34 < 2 ^ 32"
  shows "\<exists>m'. itoa m val str base = Some (str, m') \<and> kstrtoint m' str (of_int base) = Some (Inr (of_int val))"
proof -
  let ?b = "nat base" and ?n = "nat \<bar>val\<bar>"
  let ?ds = "digits ?b ?n" and ?pre = "if val < 0 \<and> base = 10 then [45] else [] :: u8 list"
  let ?m = "mem_write m str (?pre @ map digit_byte ?ds @ [0])"
  have b: "of_int base = (of_nat ?b :: u32)" "2 \<le> ?b" "?b \<le> 16" using assms(1,2) by simp_all
  have n: "?n \<le> 2 ^ 31" "?n < 2 ^ 32" using assms(3,4) by simp_all
  have c: "cstr ?m str (?pre @ map digit_byte ?ds)" using b n by (intro digits_cstr) auto
  have lt: "\<forall>d \<in> set ?ds. d < ?b" using digits_less [OF b(2)] by blast
  have ds: "?ds \<noteq> []" "length ?ds < 2 ^ 31"
    using rdigits_length [OF b(2) n(2)] by (simp_all add: digits_def)
  note v = num_digits [OF b(2), of ?n]
  have "kstrtoint ?m str (of_int base) = Some (Inr (of_int val))"
  proof (cases "val < 0")
    case True
    then have "cstr ?m str (45 # map digit_byte ?ds @ [])" using c assms(5) by auto
    then have "kstrtoint ?m str (of_nat ?b) = Some (Inr (- of_nat (num ?b 0 ?ds)))"
      by (rule kstrtoint_negative [OF _ _ lt b(3,2) ds]) (use v n True in simp_all)
    then show ?thesis unfolding b(1) v using True by simp
  next
    case False
    then have "cstr ?m str (map digit_byte ?ds @ [])" using c by simp
    then have "kstrtoint ?m str (of_nat ?b) = Some (Inr (of_nat (num ?b 0 ?ds)))"
      by (rule kstrtoint_digits [OF _ _ lt b(3,2) ds]) (use v assms(4) False in simp_all)
    then show ?thesis unfolding b(1) v using False by simp
  qed
  moreover have "itoa m val str base = Some (str, ?m)" using assms by (intro itoa_writes) auto
  ultimately show ?thesis by blast
qed

theorem itoa_kstrtoint_roundtrip_witness:
  "\<exists>m'. itoa (\<lambda>_. 0) (-2147483648) 100 10 = Some (100, m')
    \<and> kstrtoint m' 100 10 = Some (Inr (- 2147483648))"
  using itoa_kstrtoint_roundtrip [of 10 "-2147483648" 100 "\<lambda>_. 0"] by simp

text \<open>
  The three printers agree.  On every value that fits in a non-negative \<^verbatim>\<open>int\<close>, \<^verbatim>\<open>itoa_16\<close> and
  \<^verbatim>\<open>itoa_2\<close>, which work with shifts on an unsigned number, leave the same memory as \<^verbatim>\<open>itoa\<close> in
  base 16 and 2, which divides a signed one.
\<close>

theorem itoa_variants_agree:
  assumes "0 \<le> val" "val < 2 ^ 31" "unat buf + 34 < 2 ^ 32"
  shows "itoa_16 m (of_int val) buf = itoa m val buf 16 \<and> itoa_2 m (of_int val) buf = itoa m val buf 2"
proof -
  have "unat (of_int val :: u32) = nat val"
    using assms(1,2) by (simp add: unsigned_of_int take_bit_int_eq_self)
  then show ?thesis using assms itoa_16_writes [of buf m] itoa_2_writes [of buf m]
      itoa_writes [of 16 val buf m] itoa_writes [of 2 val buf m]
    by simp
qed

theorem itoa_variants_agree_witness:
  "itoa_16 (\<lambda>_. 0) 48879 100 = itoa (\<lambda>_. 0) 48879 100 16 \<and> itoa_2 (\<lambda>_. 0) 48879 100 = itoa (\<lambda>_. 0) 48879 100 2"
  using itoa_variants_agree [of 48879 100 "\<lambda>_. 0"] by simp

text \<open>
  Overflow in \<^verbatim>\<open>kstrtoull\<close>.  A string of digits, possibly with a newline after it, is accepted
  whatever its value, and the result is the value modulo \<open>2 ^ 64\<close>: the error \<open>ERANGE\<close> that the
  comment on the function promises for larger values is not reported.
\<close>

theorem kstrtoull_wraps:
  assumes "cstr m s (map digit_byte ds @ t)" "t = [] \<or> t = [10]" "\<forall>d \<in> set ds. d < b"
    "2 \<le> b" "b \<le> 16" "ds \<noteq> []" "length ds < 2 ^ 31"
  shows "\<exists>v. kstrtoull m s (of_nat b) = Some (Inr v) \<and> unat v = num b 0 ds mod 2 ^ 64"
  using kstrtoull_digits [OF assms(1-3,5,4,6,7)] by (simp add: unat_of_nat)

text \<open>The string \<open>18446744073709551616\<close>, the decimal digits of \<open>2 ^ 64\<close>.\<close>

definition big_mem :: mem where
  "big_mem = mem_write (\<lambda>_. 0) 100 (map digit_byte (digits 10 (2 ^ 64)) @ [0])"

theorem kstrtoull_wraps_witness: "\<exists>v. kstrtoull big_mem 100 10 = Some (Inr v) \<and> unat v = 0"
proof -
  have ds: "digits 10 (2 ^ 64) = [1,8,4,4,6,7,4,4,0,7,3,7,0,9,5,5,1,6,1,6]"
    by (simp add: digits_def rdigits.simps)
  have "cstr big_mem 100 (map digit_byte [1,8,4,4,6,7,4,4,0,7,3,7,0,9,5,5,1,6,1,6])"
    unfolding big_mem_def ds by (intro cstr_mem_write) (simp_all add: digit_byte_def)
  then show ?thesis
    using kstrtoull_wraps [of big_mem 100 "[1,8,4,4,6,7,4,4,0,7,3,7,0,9,5,5,1,6,1,6]" "[]" 10] by simp
qed

end
