(* ===== verification/Decimal.thy ===== *)
theory Decimal
  imports Numbers
begin

text \<open>
  The first part of \<^verbatim>\<open>src/lib/vsprintf.c\<close>: the old parsing functions, and the conversion of numbers to
  decimal digits by multiplication and shift.  A function that stores characters through a pointer
  into a local array and returns the pointer after them is a function that returns the characters.

  The file holds two versions of \<^verbatim>\<open>put_dec\<close>.  The condition that chooses between them tests
  \<^verbatim>\<open>BITS_PER_LONG_LONG\<close>, which no header defines, so the kernel is built with the first one, whose
  loop for large numbers has an empty body.  The lemmas show that both print the decimal digits, the
  first one below \<open>10 ^ 9\<close> only: from there on it does not return.
\<close>

section \<open>The old parsing functions\<close>

partial_function (option) skip_spaces :: "mem \<Rightarrow> u32 \<Rightarrow> u32 option" where
  "skip_spaces m str = (if isspace (m str) then skip_spaces m (str + 1) else Some str)"

text \<open>The result is the value and the end of the digits.\<close>

definition simple_strtoull :: "mem \<Rightarrow> u32 \<Rightarrow> u32 \<Rightarrow> (u64 \<times> u32) option" where
  "simple_strtoull m cp base =
     (case fixup_radix m cp base of (cp, base) \<Rightarrow>
        parse_integer m cp base \<bind> (\<lambda>(rv, res). Some (res, cp + (rv AND NOT KSTRTOX_OVERFLOW))))"

definition simple_strtoul :: "mem \<Rightarrow> u32 \<Rightarrow> u32 \<Rightarrow> (u32 \<times> u32) option" where
  "simple_strtoul m cp base = map_option (\<lambda>(v, e). (ucast v, e)) (simple_strtoull m cp base)"

definition simple_strtol :: "mem \<Rightarrow> u32 \<Rightarrow> u32 \<Rightarrow> (u32 \<times> u32) option" where
  "simple_strtol m cp base =
     (if m cp = 45 then map_option (\<lambda>(v, e). (- v, e)) (simple_strtoul m (cp + 1) base)
      else simple_strtoul m cp base)"

definition simple_strtoll :: "mem \<Rightarrow> u32 \<Rightarrow> u32 \<Rightarrow> (u64 \<times> u32) option" where
  "simple_strtoll m cp base =
     (if m cp = 45 then map_option (\<lambda>(v, e). (- v, e)) (simple_strtoull m (cp + 1) base)
      else simple_strtoull m cp base)"

text \<open>\<^verbatim>\<open>skip_atoi\<close> returns the number and the position after it.\<close>

partial_function (option) skip_atoi :: "mem \<Rightarrow> u32 \<Rightarrow> u32 \<Rightarrow> (u32 \<times> u32) option" where
  "skip_atoi m s i =
     (if isdigit (m s) then skip_atoi m (s + 1) (i * 10 + scast (m s) - 48) else Some (i, s))"

section \<open>Decimal digits\<close>

text \<open>Multiplication in 64 bits and shift, and the character of what is left of a division by ten.\<close>

definition mul_shift :: "u64 \<Rightarrow> nat \<Rightarrow> u32 \<Rightarrow> u32" where
  "mul_shift c k q = ucast (drop_bit k (ucast q * c))"

definition rest_char :: "u32 \<Rightarrow> u32 \<Rightarrow> u8" where
  "rest_char q r = ucast (q - 10 * r + 48)"

definition put_dec_full9 :: "u32 \<Rightarrow> u8 list" where
  "put_dec_full9 q0 =
     (let r1 = mul_shift 0x1999999a 32 q0;
          q2 = mul_shift 0x1999999a 32 r1;
          r3 = mul_shift 0x1999999a 32 q2;
          q4 = mul_shift 0x1999999a 32 r3;
          r5 = mul_shift 0x1999999a 32 q4;
          q6 = drop_bit 16 (r5 * 0x199a);
          r7 = drop_bit 11 (q6 * 0xcd);
          q8 = drop_bit 11 (r7 * 0xcd)
      in [rest_char q0 r1, rest_char r1 q2, rest_char q2 r3, rest_char r3 q4, rest_char q4 r5,
          rest_char r5 q6, rest_char q6 r7, rest_char r7 q8, ucast (q8 + 48)])"

text \<open>The end of \<^verbatim>\<open>put_dec_trunc8\<close>, for at most four digits, and its loop.\<close>

definition put_dec_trunc4 :: "u32 \<Rightarrow> u8 list" where
  "put_dec_trunc4 r =
     (let q = drop_bit 16 (r * 0x199a)
      in rest_char r q #
         (if q = 0 then []
          else
            let r = drop_bit 11 (q * 0xcd)
            in rest_char q r #
               (if r = 0 then []
                else
                  let q = drop_bit 11 (r * 0xcd)
                  in rest_char r q # (if q = 0 then [] else [ucast (q + 48)]))))"

function put_dec_trunc8 :: "u32 \<Rightarrow> u8 list" where
  "put_dec_trunc8 r =
     (if r \<ge> 10000 then
        let q = r + 48; r = mul_shift 0x1999999a 32 r
        in ucast (q - 10 * r) # put_dec_trunc8 r
      else put_dec_trunc4 r)"
  by pat_completeness auto

text \<open>The loop \<^verbatim>\<open>while (n >= 1000*1000*1000) ;\<close>, and the first \<^verbatim>\<open>put_dec\<close>.\<close>

partial_function (option) spin :: "u64 \<Rightarrow> unit option" where
  "spin n = (if n \<ge> 1000000000 then spin n else Some ())"

definition put_dec :: "u64 \<Rightarrow> u8 list option" where
  "put_dec n =
     (if n \<ge> 100000000 then
        spin n \<bind> (\<lambda>_.
          if n \<ge> 100000000 then Some (put_dec_full9 (ucast n)) else Some (put_dec_trunc8 (ucast n)))
      else Some (put_dec_trunc8 (ucast n)))"

text \<open>The second \<^verbatim>\<open>put_dec\<close>, which splits the number into 16-bit parts.\<close>

definition put_dec_full4 :: "u32 \<Rightarrow> u8 list" where
  "put_dec_full4 q0 =
     (let r1 = drop_bit 15 (q0 * 0xccd);
          q2 = drop_bit 11 (r1 * 0xcd);
          r3 = drop_bit 11 (q2 * 0xcd)
      in [rest_char q0 r1, rest_char r1 q2, rest_char q2 r3, ucast (r3 + 48)])"

definition put_dec_helper4 :: "u32 \<Rightarrow> u8 list \<times> u32" where
  "put_dec_helper4 x =
     (let q = mul_shift 0x346DC5D7 43 x in (put_dec_full4 (x - q * 10000), q))"

fun strip_zeros :: "u8 list \<Rightarrow> u8 list" where
  "strip_zeros [] = []"
| "strip_zeros (c # cs) = (let ds = strip_zeros cs in if ds = [] \<and> c = 48 then [] else c # ds)"

definition put_dec_64 :: "u64 \<Rightarrow> u8 list" where
  "put_dec_64 n =
     (if n < 100000000 then put_dec_trunc8 (ucast n)
      else
        let d1 = drop_bit 16 (ucast n); h = ucast (drop_bit 32 n); d2 = h AND 0xFFFF; d3 = drop_bit 16 h;
            (b1, q) = put_dec_helper4 (656 * d3 + 7296 * d2 + 5536 * d1 + (ucast n AND 0xFFFF));
            (b2, q) = put_dec_helper4 (q + (7671 * d3 + 9496 * d2 + 6 * d1));
            (b3, q) = put_dec_helper4 (q + (4749 * d3 + 42 * d2));
            q = q + 281 * d3
        in if q \<noteq> 0 then b1 @ b2 @ b3 @ put_dec_trunc8 q else strip_zeros (b1 @ b2 @ b3))"

text \<open>\<^verbatim>\<open>num_to_str\<close> returns the number of characters stored.\<close>

definition num_to_str :: "mem \<Rightarrow> u32 \<Rightarrow> int \<Rightarrow> u64 \<Rightarrow> (int \<times> mem) option" where
  "num_to_str m buf sz n =
     (if n \<le> 9 then Some [ucast (48 + n)] else put_dec n) \<bind> (\<lambda>tmp.
       if int (length tmp) > sz then Some (0, m)
       else Some (int (length tmp), mem_write m buf (rev tmp)))"

section \<open>Division by multiplication\<close>

lemma mul_shift_nat:
  assumes "c < 2 ^ 32" "32 \<le> k"
  shows "unat (mul_shift (of_nat c) k q) = unat q * c div 2 ^ k"
proof -
  have "unat q * c < 2 ^ 32 * 2 ^ 32" using assms(1) u32_bound [of q] by (intro mult_strict_mono) auto
  then have p: "unat q * c < 2 ^ 64" by simp
  have eq: "ucast q * (of_nat c :: u64) = of_nat (unat q * c)" by simp
  have "unat (ucast q * (of_nat c :: u64)) = unat q * c"
    unfolding eq using p by (simp add: unsigned_of_nat take_bit_nat_eq_self del: of_nat_mult)
  moreover have "unat q * c div 2 ^ k \<le> unat q * c div 2 ^ 32"
    using assms(2) by (intro div_le_mono2 power_increasing) auto
  moreover have "unat q * c div 2 ^ 32 < 2 ^ 32" using p by (simp add: less_mult_imp_div_less)
  ultimately show ?thesis
    by (simp add: mul_shift_def unsigned_ucast_eq unat_drop take_bit_nat_eq_self)
qed

lemma div_approx:
  assumes "(x mod d) * c + (x div d) * e < n" "c * d = n + e"
  shows "x * c div n = (x :: nat) div d"
proof (rule div_nat_eqI)
  have x: "x = (x div d) * d + x mod d" by simp
  have "x * c = ((x div d) * d + x mod d) * c" by simp
  also have "\<dots> = (x div d) * (c * d) + (x mod d) * c" by (simp only: algebra_simps)
  also have "\<dots> = n * (x div d) + ((x mod d) * c + (x div d) * e)" unfolding assms(2) by (simp add: algebra_simps)
  finally have "x * c = n * (x div d) + ((x mod d) * c + (x div d) * e)" .
  then show "n * (x div d) \<le> x * c" "x * c < n * Suc (x div d)" using assms(1) by simp_all
qed

lemma less_10_cases: "(b :: nat) < 10 \<Longrightarrow> b \<in> {0,1,2,3,4,5,6,7,8,9}"
  by auto

lemma div10_full:
  assumes "(x :: nat) < 1073741829"
  shows "x * 429496730 div 2 ^ 32 = x div 10"
proof (rule div_approx)
  define a b where "a = x div 10" and "b = x mod 10"
  then have "10 * a + b < 1073741829" "b \<in> {0,1,2,3,4,5,6,7,8,9}" using assms less_10_cases [of b] by simp_all
  then show "x mod 10 * 429496730 + x div 10 * 4 < 2 ^ 32" unfolding a_def [symmetric] b_def [symmetric] by auto
qed simp

lemma div10_16: "(x :: nat) < 10000 \<Longrightarrow> x * 6554 div 2 ^ 16 = x div 10"
proof (rule div_approx)
  assume "x < 10000"
  then have "x div 10 < 1000" "x mod 10 < 10" by auto
  then show "x mod 10 * 6554 + x div 10 * 4 < 2 ^ 16" by simp
qed simp

lemma div10_15: "(x :: nat) < 10000 \<Longrightarrow> x * 3277 div 2 ^ 15 = x div 10"
proof (rule div_approx)
  assume "x < 10000"
  then have "x div 10 < 1000" "x mod 10 < 10" by auto
  then show "x mod 10 * 3277 + x div 10 * 2 < 2 ^ 15" by simp
qed simp

lemma div10_11: "(x :: nat) < 1000 \<Longrightarrow> x * 205 div 2 ^ 11 = x div 10"
proof (rule div_approx)
  assume "x < 1000"
  then have "x div 10 < 100" "x mod 10 < 10" by auto
  then show "x mod 10 * 205 + x div 10 * 2 < 2 ^ 11" by simp
qed simp

lemma div10000: "(x :: nat) \<le> 1125520955 \<Longrightarrow> x * 879609303 div 2 ^ 43 = x div 10000"
proof (rule div_approx)
  assume "x \<le> 1125520955"
  then have "x div 10000 \<le> 112552" "x mod 10000 \<le> 9999" by auto
  then show "x mod 10000 * 879609303 + x div 10000 * 7792 < 2 ^ 43" by simp
qed simp

text \<open>The same on machine words.\<close>

lemma mul_shift_div10: "unat q < 1073741829 \<Longrightarrow> unat (mul_shift 0x1999999a 32 q) = unat q div 10"
  using mul_shift_nat [of 429496730 32 q] div10_full [of "unat q"] by simp

lemma mul_shift_div10000: "unat q \<le> 1125520955 \<Longrightarrow> unat (mul_shift 0x346DC5D7 43 q) = unat q div 10000"
  using mul_shift_nat [of 879609303 43 q] div10000 [of "unat q"] by simp

lemma mul_shift_less:
  assumes "q \<ge> 10000"
  shows "unat (mul_shift 0x1999999a 32 q) < unat q"
proof -
  have q: "10000 \<le> unat q" using assms by (simp add: word_le_nat_alt)
  have "unat q * 429496730 < unat q * 2 ^ 32" using q by simp
  then have "unat q * 429496730 div 2 ^ 32 < unat q" by (simp only: less_mult_imp_div_less)
  then show ?thesis using mul_shift_nat [of 429496730 32 q] by simp
qed

termination put_dec_trunc8
  by (relation "measure unat") (simp_all add: mul_shift_less)

declare put_dec_trunc8.simps [simp del]

lemma small_mult: "unat (q :: u32) * unat c < 2 ^ 32 \<Longrightarrow> unat (q * c) = unat q * unat c"
  by (simp add: unat_word_ariths(2))

lemma word_div10:
  "unat q < 10000 \<Longrightarrow> unat (drop_bit 16 (q * 0x199a) :: u32) = unat q div 10"
  "unat q < 10000 \<Longrightarrow> unat (drop_bit 15 (q * 0xccd) :: u32) = unat q div 10"
  "unat q < 1000 \<Longrightarrow> unat (drop_bit 11 (q * 0xcd) :: u32) = unat q div 10"
  using small_mult [of q "0x199a"] small_mult [of q "0xccd"] small_mult [of q "0xcd"]
    div10_16 [of "unat q"] div10_15 [of "unat q"] div10_11 [of "unat q"]
  by (simp_all add: unat_drop)

lemma rest_char_digit:
  assumes "unat r = unat q div 10"
  shows "rest_char q r = digit_byte (unat q mod 10)"
proof -
  have "q = of_nat (10 * (unat q div 10) + unat q mod 10)" by simp
  also have "\<dots> = 10 * r + of_nat (unat q mod 10)" unfolding assms [symmetric] by simp
  finally have "q - 10 * r = of_nat (unat q mod 10)" by (simp only: diff_eq_eq add.commute)
  then have "q - 10 * r + 48 = of_nat (unat q mod 10 + 48)" by simp
  then have "rest_char q r = ucast (of_nat (unat q mod 10 + 48) :: u32)" by (simp only: rest_char_def)
  moreover have "\<forall>d \<in> set [0..<10]. ucast (of_nat (d + 48) :: u32) = digit_byte d" by code_simp
  then have "ucast (of_nat (unat q mod 10 + 48) :: u32) = digit_byte (unat q mod 10)" by (rule bspec) simp
  ultimately show ?thesis by simp
qed

lemma last_char_digit: "unat q < 10 \<Longrightarrow> ucast (q + 48 :: u32) = digit_byte (unat q)"
  using rest_char_digit [of 0 q] by (simp add: rest_char_def)

section \<open>The digits\<close>

fun ldigits :: "nat \<Rightarrow> nat \<Rightarrow> nat list" where
  "ldigits 0 x = []"
| "ldigits (Suc k) x = x mod 10 # ldigits k (x div 10)"

lemma rdigits_ldigits: "10 ^ k \<le> x \<Longrightarrow> rdigits 10 x = ldigits k x @ rdigits 10 (x div 10 ^ k)"
proof (induction k arbitrary: x)
  case (Suc k)
  have "10 \<le> x" using Suc.prems by (simp add: order_trans [of 10 "10 * 10 ^ k"])
  moreover have "10 ^ k \<le> x div 10" using Suc.prems by (simp add: less_eq_div_iff_mult_less_eq mult.commute)
  ultimately show ?case using Suc.IH [of "x div 10"] by (simp add: rdigits.simps [of 10 x] div_mult2_eq)
qed simp

lemma ldigits_add: "ldigits (j + k) x = ldigits j x @ ldigits k (x div 10 ^ j)"
  by (induction j arbitrary: x) (simp_all add: div_mult2_eq)

lemma ldigits_mod: "k \<le> j \<Longrightarrow> ldigits k (x mod 10 ^ j) = ldigits k x"
proof (induction k arbitrary: x j)
  case (Suc k)
  then obtain i where j: "j = Suc i" "k \<le> i" by (cases j) auto
  have "x mod 10 ^ j mod 10 = x mod 10" by (simp add: j mod_mod_cancel)
  moreover have "x mod 10 ^ j div 10 = (x div 10) mod 10 ^ i" by (simp add: j mod_mult2_eq)
  ultimately show ?case using Suc.IH [OF j(2)] by simp
qed simp

lemma strip_ldigits: "0 < x \<Longrightarrow> x < 10 ^ k \<Longrightarrow> strip_zeros (map digit_byte (ldigits k x)) = map digit_byte (rdigits 10 x)"
proof (induction k arbitrary: x)
  case (Suc k)
  have z: "strip_zeros (map digit_byte (ldigits k 0)) = []"
    by (induction k) (simp_all add: digit_byte_def)
  show ?case
  proof (cases "x < 10")
    case True
    moreover have "\<forall>d \<in> set [1..<10]. digit_byte d \<noteq> 48" by code_simp
    ultimately have "digit_byte x \<noteq> 48" using Suc.prems by simp
    then show ?thesis using True z by (simp add: rdigits.simps)
  next
    case False
    then have "0 < x div 10" "x div 10 < 10 ^ k" using Suc.prems by (simp_all add: div_greater_zero_iff less_mult_imp_div_less)
    then show ?thesis using Suc.IH [of "x div 10"] False by (simp add: rdigits.simps [of 10 x])
  qed
qed simp

lemma ldigits_4: "ldigits 4 x = [x mod 10, x div 10 mod 10, x div 10 div 10 mod 10, x div 10 div 10 div 10 mod 10]"
proof -
  have "(4 :: nat) = Suc (Suc (Suc (Suc 0)))" by simp
  then show ?thesis by (simp only: ldigits.simps)
qed

lemma ldigits_9:
  "ldigits 9 x =
     [x mod 10, x div 10 mod 10, x div 10 div 10 mod 10, x div 10 div 10 div 10 mod 10,
      x div 10 div 10 div 10 div 10 mod 10, x div 10 div 10 div 10 div 10 div 10 mod 10,
      x div 10 div 10 div 10 div 10 div 10 div 10 mod 10, x div 10 div 10 div 10 div 10 div 10 div 10 div 10 mod 10,
      x div 10 div 10 div 10 div 10 div 10 div 10 div 10 div 10 mod 10]"
proof -
  have "(9 :: nat) = Suc (Suc (Suc (Suc (Suc (Suc (Suc (Suc (Suc 0))))))))" by simp
  then show ?thesis by (simp only: ldigits.simps)
qed

lemma full9_digits:
  assumes "unat q < 10 ^ 9"
  shows "put_dec_full9 q = map digit_byte (ldigits 9 (unat q))"
proof -
  define r1 where "r1 = mul_shift 0x1999999a 32 q"
  define q2 where "q2 = mul_shift 0x1999999a 32 r1"
  define r3 where "r3 = mul_shift 0x1999999a 32 q2"
  define q4 where "q4 = mul_shift 0x1999999a 32 r3"
  define r5 where "r5 = mul_shift 0x1999999a 32 q4"
  define q6 where "q6 = drop_bit 16 (r5 * 0x199a)"
  define r7 where "r7 = drop_bit 11 (q6 * 0xcd)"
  define q8 where "q8 = drop_bit 11 (r7 * 0xcd)"
  have 1: "unat r1 = unat q div 10" "unat r1 < 100000000"
    using assms mul_shift_div10 [of q] by (simp_all add: r1_def)
  have 2: "unat q2 = unat r1 div 10" "unat q2 < 10000000"
    using 1(2) mul_shift_div10 [of r1] by (simp_all add: q2_def)
  have 3: "unat r3 = unat q2 div 10" "unat r3 < 1000000"
    using 2(2) mul_shift_div10 [of q2] by (simp_all add: r3_def)
  have 4: "unat q4 = unat r3 div 10" "unat q4 < 100000"
    using 3(2) mul_shift_div10 [of r3] by (simp_all add: q4_def)
  have 5: "unat r5 = unat q4 div 10" "unat r5 < 10000"
    using 4(2) mul_shift_div10 [of q4] by (simp_all add: r5_def)
  have 6: "unat q6 = unat r5 div 10" "unat q6 < 1000" using 5(2) word_div10(1) [of r5] by (simp_all add: q6_def)
  have 7: "unat r7 = unat q6 div 10" "unat r7 < 100" using 6(2) word_div10(3) [of q6] by (simp_all add: r7_def)
  have 8: "unat q8 = unat r7 div 10" "unat q8 < 10" using 7(2) word_div10(3) [of r7] by (simp_all add: q8_def)
  have "put_dec_full9 q = [rest_char q r1, rest_char r1 q2, rest_char q2 r3, rest_char r3 q4, rest_char q4 r5,
      rest_char r5 q6, rest_char q6 r7, rest_char r7 q8, ucast (q8 + 48)]"
    by (simp add: put_dec_full9_def Let_def r1_def q2_def r3_def q4_def r5_def q6_def r7_def q8_def)
  also have "\<dots> = map digit_byte [unat q mod 10, unat r1 mod 10, unat q2 mod 10, unat r3 mod 10, unat q4 mod 10,
      unat r5 mod 10, unat q6 mod 10, unat r7 mod 10, unat q8 mod 10]"
    using 8(2) last_char_digit [OF 8(2)]
    by (simp add: rest_char_digit [OF 1(1)] rest_char_digit [OF 2(1)] rest_char_digit [OF 3(1)] rest_char_digit [OF 4(1)]
        rest_char_digit [OF 5(1)] rest_char_digit [OF 6(1)] rest_char_digit [OF 7(1)] rest_char_digit [OF 8(1)])
  finally show ?thesis
    by (simp only: ldigits_9 list.map 1(1) 2(1) 3(1) 4(1) 5(1) 6(1) 7(1) 8(1))
qed

lemma full4_digits:
  assumes "unat q < 10000"
  shows "put_dec_full4 q = map digit_byte (ldigits 4 (unat q))"
proof -
  define r1 where "r1 = drop_bit 15 (q * 0xccd)"
  define q2 where "q2 = drop_bit 11 (r1 * 0xcd)"
  define r3 where "r3 = drop_bit 11 (q2 * 0xcd)"
  have 1: "unat r1 = unat q div 10" "unat r1 < 1000" using assms word_div10(2) [of q] by (simp_all add: r1_def)
  have 2: "unat q2 = unat r1 div 10" "unat q2 < 100" using 1(2) word_div10(3) [of r1] by (simp_all add: q2_def)
  have 3: "unat r3 = unat q2 div 10" "unat r3 < 10" using 2(2) word_div10(3) [of q2] by (simp_all add: r3_def)
  have "put_dec_full4 q = [rest_char q r1, rest_char r1 q2, rest_char q2 r3, ucast (r3 + 48)]"
    by (simp add: put_dec_full4_def Let_def r1_def q2_def r3_def)
  also have "\<dots> = map digit_byte [unat q mod 10, unat r1 mod 10, unat q2 mod 10, unat r3 mod 10]"
    using 3(2) last_char_digit [OF 3(2)]
    by (simp add: rest_char_digit [OF 1(1)] rest_char_digit [OF 2(1)] rest_char_digit [OF 3(1)])
  finally show ?thesis by (simp only: ldigits_4 list.map 1(1) 2(1) 3(1))
qed

lemma rdigits_step: "rdigits 10 x = x mod 10 # (if x div 10 = 0 then [] else rdigits 10 (x div 10))"
  by (cases "x < 10") (simp_all add: rdigits.simps [of 10 x])

lemma trunc4_digits:
  assumes "unat r < 10000"
  shows "put_dec_trunc4 r = map digit_byte (rdigits 10 (unat r))"
proof -
  define q where "q = drop_bit 16 (r * 0x199a)"
  define r1 where "r1 = drop_bit 11 (q * 0xcd)"
  define q2 where "q2 = drop_bit 11 (r1 * 0xcd)"
  have 1: "unat q = unat r div 10" "unat q < 1000" using assms word_div10(1) [of r] by (simp_all add: q_def)
  have 2: "unat r1 = unat q div 10" "unat r1 < 100" using 1(2) word_div10(3) [of q] by (simp_all add: r1_def)
  have 3: "unat q2 = unat r1 div 10" "unat q2 < 10" using 2(2) word_div10(3) [of r1] by (simp_all add: q2_def)
  have z: "w = 0 \<longleftrightarrow> unat w = 0" for w :: u32 by (simp add: unat_eq_0)
  have "put_dec_trunc4 r = rest_char r q #
      (if unat q = 0 then [] else rest_char q r1 #
        (if unat r1 = 0 then [] else rest_char r1 q2 # (if unat q2 = 0 then [] else [ucast (q2 + 48)])))"
    by (simp add: put_dec_trunc4_def Let_def q_def [symmetric] r1_def [symmetric] q2_def [symmetric] unat_eq_0)
  also have "\<dots> = map digit_byte (rdigits 10 (unat r))"
    using 3(2) last_char_digit [OF 3(2)]
    by (simp add: rest_char_digit [OF 1(1)] rest_char_digit [OF 2(1)] rest_char_digit [OF 3(1)]
        rdigits_step [of "unat r"] rdigits_step [of "unat q"] rdigits_step [of "unat r1"]
        rdigits_step [of "unat q2"] 1(1) [symmetric] 2(1) [symmetric] 3(1) [symmetric] del: unat_eq_0)
  finally show ?thesis .
qed

lemma trunc8_digits: "unat r < 1073741829 \<Longrightarrow> put_dec_trunc8 r = map digit_byte (rdigits 10 (unat r))"
proof (induction r rule: put_dec_trunc8.induct)
  case (1 r)
  show ?case
  proof (cases "r \<ge> 10000")
    case True
    let ?r = "mul_shift 0x1999999a 32 r"
    have big: "10000 \<le> unat r" using True by (simp add: word_le_nat_alt)
    have r: "unat ?r = unat r div 10" by (rule mul_shift_div10 [OF 1(2)])
    then have "put_dec_trunc8 ?r = map digit_byte (rdigits 10 (unat r div 10))"
      using 1(1) [OF True refl refl] 1(2) by simp
    moreover have "ucast (r + 48 - 10 * ?r) = digit_byte (unat r mod 10)"
      using rest_char_digit [OF r] by (simp add: rest_char_def algebra_simps)
    ultimately show ?thesis
      using True big by (simp add: put_dec_trunc8.simps [of r] rdigits.simps [of 10 "unat r"])
  next
    case False
    then have "unat r < 10000" by (simp add: word_le_nat_alt)
    then show ?thesis using False by (simp add: put_dec_trunc8.simps [of r] trunc4_digits)
  qed
qed

text \<open>The empty loop ends only when it is not entered.\<close>

lemma spin_below: "spin n = Some u \<Longrightarrow> n < 1000000000"
proof (rule spin.raw_induct [of "\<lambda>n u. n < 1000000000"])
  fix spin' :: "u64 \<Rightarrow> unit option" and n u
  assume "\<And>n u. spin' n = Some u \<Longrightarrow> n < 1000000000" "(if 1000000000 \<le> n then spin' n else Some ()) = Some u"
  then show "n < 1000000000" by (cases "1000000000 \<le> n") auto
qed

lemma spin_iff: "spin n = (if n < 1000000000 then Some () else None)"
proof (cases "n < 1000000000")
  case True
  then show ?thesis by (subst spin.simps) (auto simp: not_le [symmetric])
next
  case False
  then show ?thesis using spin_below [of n] by (cases "spin n") auto
qed

lemma helper4_digits:
  assumes "unat x \<le> 1125520955"
  shows "put_dec_helper4 x = (map digit_byte (ldigits 4 (unat x)), of_nat (unat x div 10000))"
proof -
  let ?q = "mul_shift 0x346DC5D7 43 x"
  have q: "unat ?q = unat x div 10000" by (rule mul_shift_div10000 [OF assms])
  have "x = of_nat (unat x div 10000 * 10000 + unat x mod 10000)" by simp
  also have "\<dots> = ?q * 10000 + of_nat (unat x mod 10000)" unfolding q [symmetric] by simp
  finally have "x - ?q * 10000 = of_nat (unat x mod 10000)" by (simp only: diff_eq_eq add.commute)
  then have r: "unat (x - ?q * 10000) = unat x mod 10000"
    by (simp add: unsigned_of_nat take_bit_nat_eq_self)
  then have "put_dec_full4 (x - ?q * 10000) = map digit_byte (ldigits 4 (unat x mod 10 ^ 4))"
    by (simp add: full4_digits)
  moreover have "?q = of_nat (unat x div 10000)" unfolding q [symmetric] by simp
  moreover have "ldigits 4 (unat x mod 10 ^ 4) = ldigits 4 (unat x)" by (rule ldigits_mod) simp
  ultimately show ?thesis by (simp add: put_dec_helper4_def Let_def)
qed

lemma decimal_parts:
  fixes D0 D1 D2 D3 :: nat
  assumes "n = D0 + 65536 * D1 + 4294967296 * D2 + 281474976710656 * D3"
    "q0 = 656 * D3 + 7296 * D2 + 5536 * D1 + D0" "q1 = q0 div 10000 + (7671 * D3 + 9496 * D2 + 6 * D1)"
    "q2 = q1 div 10000 + (4749 * D3 + 42 * D2)" "q3 = q2 div 10000 + 281 * D3"
  shows "n = q0 mod 10000 + 10000 * (q1 mod 10000 + 10000 * (q2 mod 10000 + 10000 * q3))"
proof -
  define c0 r0 c1 r1 c2 r2 where "c0 = q0 div 10000" and "r0 = q0 mod 10000" and "c1 = q1 div 10000"
    and "r1 = q1 mod 10000" and "c2 = q2 div 10000" and "r2 = q2 mod 10000"
  note d = this
  have e: "q0 = 10000 * c0 + r0" "q1 = 10000 * c1 + r1" "q2 = 10000 * c2 + r2" by (simp_all add: d)
  note a = assms [folded d]
  have "r2 + 10000 * q3 = q2 + 2810000 * D3" using e(3) a(5) by simp
  then have "r1 + 10000 * (r2 + 10000 * q3) = q1 + (28147490000 * D3 + 420000 * D2)" using e(2) a(4) by simp
  then have "r0 + 10000 * (r1 + 10000 * (r2 + 10000 * q3)) = n" using e(1) a(1-3) by simp
  then show ?thesis unfolding d [symmetric] by simp
qed

lemma split_add: "(x :: nat) < m \<Longrightarrow> (x + m * y) mod m = x" "x < m \<Longrightarrow> (x + m * y) div m = y"
  by simp_all

lemma ldigits_parts:
  assumes "n = a + 10000 * (b + 10000 * (c + 10000 * d))" "a < 10000" "b < 10000" "c < 10000"
  shows "ldigits 12 n = ldigits 4 a @ ldigits 4 b @ ldigits 4 c" "n div 10 ^ 12 = d"
proof -
  have p: "(10 :: nat) ^ 4 = 10000" by simp
  have 1: "n mod 10 ^ 4 = a" "n div 10 ^ 4 = b + 10000 * (c + 10000 * d)"
    unfolding p assms(1) by (simp_all only: split_add [OF assms(2)])
  have 2: "n div 10 ^ 4 mod 10 ^ 4 = b" "n div 10 ^ 4 div 10 ^ 4 = c + 10000 * d"
    unfolding 1(2) unfolding p by (simp_all only: split_add [OF assms(3)])
  have 3: "n div 10 ^ 4 div 10 ^ 4 mod 10 ^ 4 = c" "n div 10 ^ 4 div 10 ^ 4 div 10 ^ 4 = d"
    unfolding 2(2) unfolding p by (simp_all only: split_add [OF assms(4)])
  have "ldigits 12 n = ldigits 4 n @ ldigits 4 (n div 10 ^ 4) @ ldigits 4 (n div 10 ^ 4 div 10 ^ 4)"
    using ldigits_add [of 4 8 n] ldigits_add [of 4 4 "n div 10 ^ 4"] by simp
  moreover have "ldigits 4 n = ldigits 4 a" using ldigits_mod [of 4 4 n] 1(1) by simp
  moreover have "ldigits 4 (n div 10 ^ 4) = ldigits 4 b" using ldigits_mod [of 4 4 "n div 10 ^ 4"] 2(1) by simp
  moreover have "ldigits 4 (n div 10 ^ 4 div 10 ^ 4) = ldigits 4 c"
    using ldigits_mod [of 4 4 "n div 10 ^ 4 div 10 ^ 4"] 3(1) by simp
  ultimately show "ldigits 12 n = ldigits 4 a @ ldigits 4 b @ ldigits 4 c" by simp
  have "n div 10 ^ 12 = n div 10 ^ 4 div 10 ^ 4 div 10 ^ 4" by (simp add: div_mult2_eq [symmetric])
  then show "n div 10 ^ 12 = d" using 3(2) by simp
qed

lemma low_half: "unat (w AND 0xFFFF :: u32) = unat w mod 65536"
proof -
  have "w AND 0xFFFF = take_bit 16 w" by (simp add: take_bit_eq_mask mask_eq_exp_minus_1)
  then have "unat (w AND 0xFFFF) = take_bit 16 (unat w)" by (simp only: unsigned_take_bit_eq)
  then show ?thesis by (simp add: take_bit_eq_mod)
qed

lemma scaled_split: "k * x = k * (x mod m) + k * m * (x div m :: nat)"
proof -
  have "k * x = k * (m * (x div m) + x mod m)" by simp
  then show ?thesis by (simp only: algebra_simps)
qed

lemma word_parts:
  fixes n :: u64
  shows "\<exists>D0 D1 D2 D3. unat n = D0 + 65536 * D1 + 4294967296 * D2 + 281474976710656 * D3 \<and>
    D0 < 65536 \<and> D1 < 65536 \<and> D2 < 65536 \<and> D3 < 65536 \<and>
    (ucast n AND 0xFFFF :: u32) = of_nat D0 \<and> drop_bit 16 (ucast n :: u32) = of_nat D1 \<and>
    (ucast (drop_bit 32 n) AND 0xFFFF :: u32) = of_nat D2 \<and> drop_bit 16 (ucast (drop_bit 32 n) :: u32) = of_nat D3"
proof -
  let ?l = "ucast n :: u32" and ?h = "ucast (drop_bit 32 n) :: u32"
  have w: "w = of_nat (unat w)" for w :: u32 by simp
  have lt: "unat n < 2 ^ 64" using unsigned_less [of n] by simp
  have l: "unat ?l = unat n mod 4294967296" by (simp add: unsigned_ucast_eq take_bit_eq_mod)
  have "unat n div 2 ^ 32 < 2 ^ 32" using lt by (simp add: less_mult_imp_div_less)
  then have h: "unat ?h = unat n div 4294967296"
    by (simp add: unsigned_ucast_eq unat_drop take_bit_nat_eq_self)
  have "unat ?l < 65536 * 65536" "unat ?h < 65536 * 65536" using u32_bound [of ?l] u32_bound [of ?h] by simp_all
  then have lt: "unat ?l div 65536 < 65536" "unat ?h div 65536 < 65536"
    by (simp_all only: less_mult_imp_div_less)
  have "unat n = unat ?l mod 65536 + 65536 * (unat ?l div 65536) + 4294967296 * (unat ?h mod 65536)
      + 281474976710656 * (unat ?h div 65536)"
    using l h scaled_split [of 4294967296 "unat ?h" 65536] scaled_split [of 1 "unat n" 4294967296] by simp
  then show ?thesis
    using lt w [of "?l AND 0xFFFF"] w [of "drop_bit 16 ?l"] w [of "?h AND 0xFFFF"] w [of "drop_bit 16 ?h"]
    by (intro exI [of _ "unat ?l mod 65536"] exI [of _ "unat ?l div 65536"] exI [of _ "unat ?h mod 65536"]
        exI [of _ "unat ?h div 65536"]) (simp add: low_half unat_drop)
qed

lemma helper4_of_nat:
  assumes "x \<le> 1125520955"
  shows "put_dec_helper4 (of_nat x) = (map digit_byte (ldigits 4 (x mod 10000)), of_nat (x div 10000))"
proof -
  have u: "unat (of_nat x :: u32) = x" using assms by (simp add: unsigned_of_nat take_bit_nat_eq_self)
  have "ldigits 4 x = ldigits 4 (x mod 10 ^ 4)" by (rule ldigits_mod [symmetric]) simp
  then show ?thesis using helper4_digits [of "of_nat x", unfolded u] assms by simp
qed

lemma put_dec_64_digits: "put_dec_64 n = map digit_byte (rdigits 10 (unat n))"
proof (cases "n < 100000000")
  case True
  then have lt: "unat n < 100000000" by (simp add: word_less_nat_alt)
  then have "unat (ucast n :: u32) = unat n" by (simp add: unsigned_ucast_eq take_bit_nat_eq_self)
  then show ?thesis using True lt trunc8_digits [of "ucast n"] by (simp add: put_dec_64_def)
next
  case False
  then have big: "100000000 \<le> unat n" by (simp add: word_less_nat_alt)
  obtain D0 D1 D2 D3 where D: "unat n = D0 + 65536 * D1 + 4294967296 * D2 + 281474976710656 * D3"
    "D0 < 65536" "D1 < 65536" "D2 < 65536" "D3 < 65536"
    "(ucast n AND 0xFFFF :: u32) = of_nat D0" "drop_bit 16 (ucast n :: u32) = of_nat D1"
    "(ucast (drop_bit 32 n) AND 0xFFFF :: u32) = of_nat D2" "drop_bit 16 (ucast (drop_bit 32 n) :: u32) = of_nat D3"
    using word_parts [of n] by blast
  define q0 where "q0 = 656 * D3 + 7296 * D2 + 5536 * D1 + D0"
  define q1 where "q1 = q0 div 10000 + (7671 * D3 + 9496 * D2 + 6 * D1)"
  define q2 where "q2 = q1 div 10000 + (4749 * D3 + 42 * D2)"
  define q3 where "q3 = q2 div 10000 + 281 * D3"
  have "q0 \<le> 884001615" using D(2-5) by (simp add: q0_def)
  then have b0: "q0 \<le> 1125520955" "q0 div 10000 \<le> 88400" by simp_all
  have b1: "q1 \<le> 1125520955" using b0(2) D(2-5) by (simp add: q1_def)
  then have "q1 div 10000 \<le> 112552" by simp
  then have b2: "q2 \<le> 314090737" using D(2-5) by (simp add: q2_def)
  then have "q2 div 10000 \<le> 31409" by simp
  then have b3: "q3 < 100000000" using D(2-5) by (simp add: q3_def)
  have n: "unat n = q0 mod 10000 + 10000 * (q1 mod 10000 + 10000 * (q2 mod 10000 + 10000 * q3))"
    using decimal_parts [OF D(1) q0_def q1_def q2_def q3_def] .
  note l = ldigits_parts [OF n, simplified]
  let ?b = "\<lambda>q. map digit_byte (ldigits 4 (q mod 10000))"
  have u3: "unat (of_nat q3 :: u32) = q3" using b3 by (simp add: unsigned_of_nat take_bit_nat_eq_self)
  have e: "656 * of_nat D3 + 7296 * of_nat D2 + 5536 * of_nat D1 + of_nat D0 = (of_nat q0 :: u32)"
    "of_nat (q0 div 10000) + (7671 * of_nat D3 + 9496 * of_nat D2 + 6 * of_nat D1) = (of_nat q1 :: u32)"
    "of_nat (q1 div 10000) + (4749 * of_nat D3 + 42 * of_nat D2) = (of_nat q2 :: u32)"
    "of_nat (q2 div 10000) + 281 * of_nat D3 = (of_nat q3 :: u32)"
    by (simp add: q0_def, simp add: q1_def, simp add: q2_def, simp add: q3_def)
  have h: "put_dec_helper4 (of_nat q2) = (?b q2, of_nat (q2 div 10000))" using helper4_of_nat [of q2] b2 by simp
  have out: "put_dec_64 n = (if q3 \<noteq> 0 then ?b q0 @ ?b q1 @ ?b q2 @ put_dec_trunc8 (of_nat q3)
      else strip_zeros (?b q0 @ ?b q1 @ ?b q2))"
    using False u3 unfolding put_dec_64_def
    by (auto simp: D(6-9) Let_def e helper4_of_nat [OF b0(1)] helper4_of_nat [OF b1] h)
  have lo: "map digit_byte (ldigits 12 (unat n)) = ?b q0 @ ?b q1 @ ?b q2" using l(1) by simp
  show ?thesis
  proof (cases "q3 = 0")
    case True
    then have "unat n < 10 ^ 12" using l(2) by simp
    then show ?thesis using out True strip_ldigits [of "unat n" 12] big lo by simp
  next
    case False
    then have "10 ^ 12 \<le> unat n" using l(2) by (cases "unat n < 10 ^ 12") auto
    then have "rdigits 10 (unat n) = ldigits 12 (unat n) @ rdigits 10 q3"
      using rdigits_ldigits [of 12 "unat n"] l(2) by simp
    then show ?thesis using out False lo trunc8_digits [of "of_nat q3"] u3 b3 by simp
  qed
qed

lemma put_dec_digits:
  "put_dec n = (if unat n < 10 ^ 9 then Some (map digit_byte (rdigits 10 (unat n))) else None)"
proof -
  have u: "unat (ucast n :: u32) = unat n" if "unat n < 10 ^ 9"
    using that by (simp add: unsigned_ucast_eq take_bit_nat_eq_self)
  show ?thesis
  proof (cases "100000000 \<le> unat n")
    case big: True
    have "put_dec_full9 (ucast n) = map digit_byte (rdigits 10 (unat n))" if lt: "unat n < 10 ^ 9"
    proof -
      have "rdigits 10 (unat n) = ldigits 8 (unat n) @ [unat n div 10 ^ 8]"
        using rdigits_ldigits [of 8 "unat n"] big lt by (simp add: rdigits.simps [of 10 "unat n div 100000000"])
      also have "\<dots> = ldigits 9 (unat n)" using ldigits_add [of 8 1 "unat n"] lt by simp
      finally show ?thesis using full9_digits [of "ucast n"] u lt by simp
    qed
    then show ?thesis using big by (simp add: put_dec_def spin_iff word_le_nat_alt word_less_nat_alt)
  next
    case False
    then show ?thesis using trunc8_digits [of "ucast n"] u by (simp add: put_dec_def word_le_nat_alt)
  qed
qed

section \<open>Properties\<close>

text \<open>
  C28: The conversion to decimal.  The \<^verbatim>\<open>put_dec\<close> that is compiled prints the decimal digits of every
  number below \<open>10 ^ 9\<close>, last digit first, and does not return for any other number.  The one that is
  left out prints the digits of every 64-bit number.
\<close>

theorem put_dec_decimal:
  "put_dec n = (if unat n < 10 ^ 9 then Some (put_dec_64 n) else None) \<and>
   put_dec_64 n = map digit_byte (rdigits 10 (unat n))"
  by (simp add: put_dec_64_digits put_dec_digits)

end
