(* ===== verification/VSprintf.thy ===== *)
theory VSprintf
  imports Decimal
begin

text \<open>
  Formatted printing: the second part of \<^verbatim>\<open>src/lib/vsprintf.c\<close>, on the memory of theory \<open>CString\<close>.
  The arguments of a variadic function lie on the stack as words, and \<open>args i\<close> is the \<open>i\<close>-th of them;
  a \<^verbatim>\<open>long long\<close> takes two.  The output position and the memory are passed as a pair, and a function
  that may run for ever returns an option.  The literal \<^verbatim>\<open>"(null)"\<close> lies at address \<open>nul\<close>.

  The lemmas show that every function writes a list of bytes at the output position, cut off at the end
  of the buffer.  The property at the end gives the result of \<^verbatim>\<open>vsnprintf\<close>.
\<close>

section \<open>Format specifications\<close>

abbreviation (input) ZEROPAD :: u8 where "ZEROPAD \<equiv> 1"
abbreviation (input) SIGN :: u8 where "SIGN \<equiv> 2"
abbreviation (input) PLUS :: u8 where "PLUS \<equiv> 4"
abbreviation (input) SPACE :: u8 where "SPACE \<equiv> 8"
abbreviation (input) LEFT :: u8 where "LEFT \<equiv> 16"
abbreviation (input) SMALL :: u8 where "SMALL \<equiv> 32"
abbreviation (input) SPECIAL :: u8 where "SPECIAL \<equiv> 64"

datatype format_type =
    FORMAT_TYPE_NONE | FORMAT_TYPE_WIDTH | FORMAT_TYPE_PRECISION | FORMAT_TYPE_CHAR | FORMAT_TYPE_STR
  | FORMAT_TYPE_PTR | FORMAT_TYPE_PERCENT_CHAR | FORMAT_TYPE_INVALID | FORMAT_TYPE_LONG_LONG
  | FORMAT_TYPE_ULONG | FORMAT_TYPE_LONG | FORMAT_TYPE_UBYTE | FORMAT_TYPE_BYTE | FORMAT_TYPE_USHORT
  | FORMAT_TYPE_SHORT | FORMAT_TYPE_UINT | FORMAT_TYPE_INT | FORMAT_TYPE_NRCHARS | FORMAT_TYPE_SIZE_T
  | FORMAT_TYPE_PTRDIFF

text \<open>The width and the precision are 16-bit numbers, read as signed ones.\<close>

record printf_spec =
  ftype :: format_type
  flags :: u8
  base :: u8
  qualifier :: u8
  field_width :: u16
  precision :: u16

section \<open>Output\<close>

type_synonym out = "u32 \<times> mem"

text \<open>\<^verbatim>\<open>if (buf < end) *buf = c; ++buf;\<close>\<close>

definition emit :: "u32 \<Rightarrow> u8 \<Rightarrow> out \<Rightarrow> out" where
  "emit e c o1 = (case o1 of (p, m) \<Rightarrow> (p + 1, if p < e then m(p := c) else m))"

text \<open>The loop \<^verbatim>\<open>while (--spec.field_width >= 0)\<close>; it returns the width it ends with.\<close>

function pad_loop :: "u32 \<Rightarrow> u8 \<Rightarrow> u16 \<Rightarrow> out \<Rightarrow> u16 \<times> out" where
  "pad_loop e c w o1 = (let w = w - 1 in if 0 \<le> sint w then pad_loop e c w (emit e c o1) else (w, o1))"
  by pat_completeness auto

lemma sint_pred: "0 \<le> sint (w :: u16) \<Longrightarrow> sint (w - 1) = sint w - 1"
proof -
  assume "0 \<le> sint w"
  moreover have "sint w < 2 ^ 15" using sint_lt [of w] by simp
  moreover have "w - 1 = of_int (sint w - 1)" by simp
  ultimately show ?thesis by (simp add: signed_of_int signed_take_bit_int_eq_self del: of_int_diff)
qed

lemma sint_pred2: "0 \<le> sint (w - 1 :: u16) \<Longrightarrow> sint (w - 2) = sint (w - 1) - 1"
  using sint_pred [of "w - 1"] by simp

termination pad_loop
  by (relation "measure (\<lambda>(e, c, w, o1). nat (sint (w - 1) + 1))") (auto simp: sint_pred2)

declare pad_loop.simps [simp del]

text \<open>The loop \<^verbatim>\<open>while (i <= --spec.precision)\<close>.\<close>

function zero_loop :: "u32 \<Rightarrow> nat \<Rightarrow> u16 \<Rightarrow> out \<Rightarrow> out" where
  "zero_loop e i pr o1 =
     (let pr = pr - 1 in if int i \<le> sint pr then zero_loop e i pr (emit e 48 o1) else o1)"
  by pat_completeness auto
termination zero_loop
  by (relation "measure (\<lambda>(e, i, w, o1). nat (sint (w - 1) + 1))") (auto simp: sint_pred2)

declare zero_loop.simps [simp del]

fun emit_all :: "u32 \<Rightarrow> u8 list \<Rightarrow> out \<Rightarrow> out" where
  "emit_all e [] o1 = o1"
| "emit_all e (c # cs) o1 = emit_all e cs (emit e c o1)"

section \<open>Numbers\<close>

definition upper_digits :: "u8 list" where
  "upper_digits = ascii ''0123456789ABCDEF''"

text \<open>The \<^verbatim>\<open>do\<close> loop for the digits in base 8 or 16, last one first.\<close>

definition digit_shift :: "u8 \<Rightarrow> nat" where
  "digit_shift b = (if b = 16 then 4 else 3)"

function digit_loop :: "u8 \<Rightarrow> u8 \<Rightarrow> u64 \<Rightarrow> u8 list" where
  "digit_loop b locase n =
     (upper_digits ! unat (ucast n AND (b - 1)) OR locase) #
       (let n = drop_bit (digit_shift b) n in if n \<noteq> 0 then digit_loop b locase n else [])"
  by pat_completeness auto
termination digit_loop
proof (relation "measure (\<lambda>(b, l, n). unat n)", goal_cases)
  case (2 b l n x)
  have "n \<noteq> 0" using 2 by auto
  then have "0 < unat n" by (simp add: unat_gt_0)
  moreover have "2 \<le> (2 :: nat) ^ digit_shift b" by (simp add: digit_shift_def)
  then have "unat n div 2 ^ digit_shift b \<le> unat n div 2" by (intro div_le_mono2) auto
  ultimately show ?case using 2 by (simp add: unat_drop)
qed simp

declare digit_loop.simps [simp del]

text \<open>The characters of a number, last one first.\<close>

definition number_digits :: "u8 \<Rightarrow> u8 \<Rightarrow> u64 \<Rightarrow> u8 list option" where
  "number_digits b locase n =
     (if n < ucast b then Some [upper_digits ! unat n OR locase]
      else if b \<noteq> 10 then Some (digit_loop b locase n)
      else put_dec n)"

text \<open>The sign character, or 0, with the magnitude and the width that is left.\<close>

definition number_sign :: "printf_spec \<Rightarrow> u64 \<Rightarrow> u8 \<times> u64 \<times> u16" where
  "number_sign spec n =
     (let w = field_width spec
      in if flags spec AND SIGN \<noteq> 0 then
           if sint n < 0 then (45, - n, w - 1)
           else if flags spec AND PLUS \<noteq> 0 then (43, n, w - 1)
           else if flags spec AND SPACE \<noteq> 0 then (32, n, w - 1)
           else (0, n, w)
         else (0, n, w))"

definition number :: "u32 \<Rightarrow> u64 \<Rightarrow> printf_spec \<Rightarrow> out \<Rightarrow> out option" where
  "number e n0 spec o1 =
     (let need_pfx = flags spec AND SPECIAL \<noteq> 0 \<and> base spec \<noteq> 10;
          is_zero = n0 = 0;
          locase = flags spec AND SMALL;
          fl = (if flags spec AND LEFT \<noteq> 0 then flags spec AND NOT ZEROPAD else flags spec);
          (sign, n, w) = number_sign spec n0;
          w = (if need_pfx then if base spec = 16 then w - 2 else if \<not> is_zero then w - 1 else w else w)
      in number_digits (base spec) locase n \<bind> (\<lambda>tmp.
           let i = length tmp;
               pr = (if int i > sint (precision spec) then of_nat i else precision spec);
               w = w - pr;
               (w, o1) = (if fl AND (ZEROPAD + LEFT) = 0 then pad_loop e 32 w o1 else (w, o1));
               o1 = (if sign \<noteq> 0 then emit e sign o1 else o1);
               o1 = (if need_pfx \<and> (base spec = 16 \<or> \<not> is_zero) then emit e 48 o1 else o1);
               o1 = (if need_pfx \<and> base spec = 16 then emit e (0x58 OR locase) o1 else o1);
               (w, o1) = (if fl AND LEFT = 0 then pad_loop e (if fl AND ZEROPAD \<noteq> 0 then 48 else 32) w o1
                          else (w, o1));
               o1 = zero_loop e i pr o1;
               o1 = emit_all e (rev tmp) o1
           in Some (snd (pad_loop e 32 w o1))))"

section \<open>Strings and pointers\<close>

text \<open>The loop \<^verbatim>\<open>while (len < spec.field_width--)\<close>.\<close>

partial_function (option) space_loop :: "u32 \<Rightarrow> int \<Rightarrow> u16 \<Rightarrow> out \<Rightarrow> (u16 \<times> out) option" where
  "space_loop e len w o1 =
     (if len < sint w then space_loop e len (w - 1) (emit e 32 o1) else Some (w - 1, o1))"

fun copy_loop :: "nat \<Rightarrow> u32 \<Rightarrow> u32 \<Rightarrow> out \<Rightarrow> out" where
  "copy_loop 0 e s o1 = o1"
| "copy_loop (Suc n) e s o1 = copy_loop n e (s + 1) (emit e (snd o1 s) o1)"

definition string :: "u32 \<Rightarrow> u32 \<Rightarrow> u32 \<Rightarrow> printf_spec \<Rightarrow> out \<Rightarrow> out option" where
  "string nul e s spec o1 =
     (let s = (if s < 1024 then nul else s)
      in strnlen (snd o1) s (scast (precision spec)) \<bind> (\<lambda>n.
           let len = sint n
           in (if flags spec AND LEFT = 0 then space_loop e len (field_width spec) o1
               else Some (field_width spec, o1)) \<bind> (\<lambda>(w, o1).
                space_loop e len w (copy_loop (nat len) e s o1) \<bind> (\<lambda>(w, o1). Some o1))))"

text \<open>\<^verbatim>\<open>fmt\<close> points to the character after the \<^verbatim>\<open>p\<close>; 75 is \<^verbatim>\<open>K\<close>.\<close>

definition pointer :: "u32 \<Rightarrow> u32 \<Rightarrow> u32 \<Rightarrow> u32 \<Rightarrow> printf_spec \<Rightarrow> out \<Rightarrow> out option" where
  "pointer nul fmt e ptr spec o1 =
     (let default_width = (if flags spec AND SPECIAL \<noteq> 0 then 10 else 8)
      in if ptr = 0 \<and> snd o1 fmt \<noteq> 75 then
           string nul e nul (if field_width spec = - 1 then spec\<lparr>field_width := default_width\<rparr> else spec) o1
         else
           let spec = spec\<lparr>flags := flags spec OR SMALL\<rparr>;
               spec = (if field_width spec = - 1 then
                         spec\<lparr>field_width := default_width, flags := flags spec OR ZEROPAD\<rparr>
                       else spec)
           in number e (ucast ptr) (spec\<lparr>base := 16\<rparr>) o1)"

section \<open>Decoding a format\<close>

partial_function (option) scan_text :: "mem \<Rightarrow> u32 \<Rightarrow> u32 option" where
  "scan_text m fmt = (if m fmt \<noteq> 0 \<and> m fmt \<noteq> 37 then scan_text m (fmt + 1) else Some fmt)"

definition flag_of :: "u8 \<Rightarrow> u8 option" where
  "flag_of c =
     (if c = 45 then Some LEFT else if c = 43 then Some PLUS else if c = 32 then Some SPACE
      else if c = 35 then Some SPECIAL else if c = 48 then Some ZEROPAD else None)"

partial_function (option) flags_loop :: "mem \<Rightarrow> u32 \<Rightarrow> u8 \<Rightarrow> (u32 \<times> u8) option" where
  "flags_loop m fmt fl =
     (let fmt = fmt + 1
      in case flag_of (m fmt) of
           None \<Rightarrow> Some (fmt, fl)
         | Some b \<Rightarrow> flags_loop m fmt (fl OR b))"

text \<open>The conversion, from the \<^verbatim>\<open>switch\<close> on the conversion character on.\<close>

definition number_type :: "printf_spec \<Rightarrow> format_type" where
  "number_type spec =
     (let sg = flags spec AND SIGN \<noteq> 0
      in if qualifier spec = 76 then FORMAT_TYPE_LONG_LONG
         else if qualifier spec = 108 then if sg then FORMAT_TYPE_LONG else FORMAT_TYPE_ULONG
         else if tolower_fast (qualifier spec) = 122 then FORMAT_TYPE_SIZE_T
         else if qualifier spec = 116 then FORMAT_TYPE_PTRDIFF
         else if qualifier spec = 72 then if sg then FORMAT_TYPE_BYTE else FORMAT_TYPE_UBYTE
         else if qualifier spec = 104 then if sg then FORMAT_TYPE_SHORT else FORMAT_TYPE_USHORT
         else if sg then FORMAT_TYPE_INT else FORMAT_TYPE_UINT)"

text \<open>The second component tells whether the character is consumed.\<close>

definition decode_conv :: "u8 \<Rightarrow> printf_spec \<Rightarrow> printf_spec \<times> bool" where
  "decode_conv c spec =
     (let spec = spec\<lparr>base := 10\<rparr>;
          num = (\<lambda>spec. (spec\<lparr>ftype := number_type spec\<rparr>, True))
      in if c = 99 then (spec\<lparr>ftype := FORMAT_TYPE_CHAR\<rparr>, True)
         else if c = 115 then (spec\<lparr>ftype := FORMAT_TYPE_STR\<rparr>, True)
         else if c = 112 then (spec\<lparr>ftype := FORMAT_TYPE_PTR\<rparr>, False)
         else if c = 110 then (spec\<lparr>ftype := FORMAT_TYPE_NRCHARS\<rparr>, True)
         else if c = 37 then (spec\<lparr>ftype := FORMAT_TYPE_PERCENT_CHAR\<rparr>, True)
         else if c = 111 then num (spec\<lparr>base := 8\<rparr>)
         else if c = 120 then num (spec\<lparr>flags := flags spec OR SMALL, base := 16\<rparr>)
         else if c = 88 then num (spec\<lparr>base := 16\<rparr>)
         else if c = 100 \<or> c = 105 then num (spec\<lparr>flags := flags spec OR SIGN\<rparr>)
         else if c = 117 then num spec
         else (spec\<lparr>ftype := FORMAT_TYPE_INVALID\<rparr>, False))"

definition is_qualifier :: "u8 \<Rightarrow> bool" where
  "is_qualifier c \<longleftrightarrow> c = 104 \<or> tolower_fast c = 108 \<or> tolower_fast c = 122 \<or> c = 116"

text \<open>A doubled \<^verbatim>\<open>l\<close> is \<^verbatim>\<open>L\<close>, and a doubled \<^verbatim>\<open>h\<close> is \<^verbatim>\<open>H\<close>.\<close>

definition decode_qualifier :: "mem \<Rightarrow> u32 \<Rightarrow> printf_spec \<Rightarrow> u32 \<times> printf_spec" where
  "decode_qualifier m fmt spec =
     (let (fmt, q) =
            (if is_qualifier (m fmt) then
               if m fmt = m (fmt + 1) \<and> m fmt = 108 then (fmt + 2, 76)
               else if m fmt = m (fmt + 1) \<and> m fmt = 104 then (fmt + 2, 72)
               else (fmt + 1, m fmt)
             else (fmt, 255));
          (spec, used) = decode_conv (m fmt) (spec\<lparr>qualifier := q\<rparr>)
      in (if used then fmt + 1 else fmt, spec))"

definition decode_precision :: "mem \<Rightarrow> u32 \<Rightarrow> printf_spec \<Rightarrow> (u32 \<times> printf_spec) option" where
  "decode_precision m fmt spec =
     (let spec = spec\<lparr>precision := - 1\<rparr>
      in if m fmt = 46 then
           let fmt = fmt + 1
           in if isdigit (m fmt) then
                skip_atoi m fmt 0 \<bind> (\<lambda>(n, fmt).
                  let pr = (ucast n :: u16)
                  in Some (decode_qualifier m fmt (spec\<lparr>precision := if sint pr < 0 then 0 else pr\<rparr>)))
              else if m fmt = 42 then Some (fmt + 1, spec\<lparr>ftype := FORMAT_TYPE_PRECISION\<rparr>)
              else Some (decode_qualifier m fmt spec)
         else Some (decode_qualifier m fmt spec))"

definition decode_width :: "mem \<Rightarrow> u32 \<Rightarrow> printf_spec \<Rightarrow> (u32 \<times> printf_spec) option" where
  "decode_width m fmt spec =
     (let spec = spec\<lparr>field_width := - 1\<rparr>
      in if isdigit (m fmt) then
           skip_atoi m fmt 0 \<bind> (\<lambda>(n, fmt). decode_precision m fmt (spec\<lparr>field_width := ucast n\<rparr>))
         else if m fmt = 42 then Some (fmt + 1, spec\<lparr>ftype := FORMAT_TYPE_WIDTH\<rparr>)
         else decode_precision m fmt spec)"

text \<open>\<^verbatim>\<open>format_decode\<close> returns the position after the token instead of the length of the token.\<close>

definition format_decode :: "mem \<Rightarrow> u32 \<Rightarrow> printf_spec \<Rightarrow> (u32 \<times> printf_spec) option" where
  "format_decode m start spec =
     (if ftype spec = FORMAT_TYPE_WIDTH then
        let spec = (if sint (field_width spec) < 0 then
                      spec\<lparr>field_width := - field_width spec, flags := flags spec OR LEFT\<rparr>
                    else spec)
        in decode_precision m start (spec\<lparr>ftype := FORMAT_TYPE_NONE\<rparr>)
      else if ftype spec = FORMAT_TYPE_PRECISION then
        let spec = (if sint (precision spec) < 0 then spec\<lparr>precision := 0\<rparr> else spec)
        in Some (decode_qualifier m start (spec\<lparr>ftype := FORMAT_TYPE_NONE\<rparr>))
      else
        let spec = spec\<lparr>ftype := FORMAT_TYPE_NONE\<rparr>
        in scan_text m start \<bind> (\<lambda>fmt.
             if fmt \<noteq> start \<or> m fmt = 0 then Some (fmt, spec)
             else flags_loop m fmt 0 \<bind> (\<lambda>(fmt, fl). decode_width m fmt (spec\<lparr>flags := fl\<rparr>))))"

section \<open>Printing\<close>

definition spec0 :: printf_spec where
  "spec0 = \<lparr>ftype = FORMAT_TYPE_NONE, flags = 0, base = 0, qualifier = 0, field_width = 0, precision = 0\<rparr>"

text \<open>The number of a numeric conversion, and the number of argument words it takes.\<close>

definition number_arg :: "printf_spec \<Rightarrow> (nat \<Rightarrow> u32) \<Rightarrow> nat \<Rightarrow> u64 \<times> nat" where
  "number_arg spec args i =
     (case ftype spec of
        FORMAT_TYPE_LONG_LONG \<Rightarrow> (ucast (args i) OR push_bit 32 (ucast (args (i + 1))), i + 2)
      | FORMAT_TYPE_ULONG \<Rightarrow> (ucast (args i), i + 1)
      | FORMAT_TYPE_LONG \<Rightarrow> (scast (args i), i + 1)
      | FORMAT_TYPE_SIZE_T \<Rightarrow> (if flags spec AND SIGN \<noteq> 0 then scast (args i) else ucast (args i), i + 1)
      | FORMAT_TYPE_PTRDIFF \<Rightarrow> (scast (args i), i + 1)
      | FORMAT_TYPE_UBYTE \<Rightarrow> (ucast (ucast (args i) :: u8), i + 1)
      | FORMAT_TYPE_BYTE \<Rightarrow> (scast (ucast (args i) :: u8), i + 1)
      | FORMAT_TYPE_USHORT \<Rightarrow> (ucast (ucast (args i) :: u16), i + 1)
      | FORMAT_TYPE_SHORT \<Rightarrow> (scast (ucast (args i) :: u16), i + 1)
      | FORMAT_TYPE_INT \<Rightarrow> (scast (args i), i + 1)
      | _ \<Rightarrow> (ucast (args i), i + 1))"

text \<open>The loop \<^verbatim>\<open>while (--spec.field_width > 0)\<close> around a single character.\<close>

function char_pad :: "u32 \<Rightarrow> u16 \<Rightarrow> out \<Rightarrow> u16 \<times> out" where
  "char_pad e w o1 = (let w = w - 1 in if 0 < sint w then char_pad e w (emit e 32 o1) else (w, o1))"
  by pat_completeness auto
termination char_pad
  by (relation "measure (\<lambda>(e, w, o1). nat (sint (w - 1) + 1))") (auto simp: sint_pred2)

declare char_pad.simps [simp del]

definition print_char :: "u32 \<Rightarrow> printf_spec \<Rightarrow> u32 \<Rightarrow> out \<Rightarrow> out" where
  "print_char e spec c o1 =
     (let (w, o1) = (if flags spec AND LEFT = 0 then char_pad e (field_width spec) o1 else (field_width spec, o1));
          o1 = emit e (ucast c) o1
      in snd (char_pad e w o1))"

text \<open>A piece of plain text, from \<open>old_fmt\<close> up to \<open>fmt\<close>.\<close>

definition print_text :: "u32 \<Rightarrow> u32 \<Rightarrow> u32 \<Rightarrow> out \<Rightarrow> out" where
  "print_text e old_fmt fmt o1 =
     (case o1 of (str, m) \<Rightarrow>
        let copy = fmt - old_fmt;
            m = (if str < e then memcpy m str old_fmt (if sint copy > sint (e - str) then e - str else copy) else m)
        in (str + (fmt - old_fmt), m))"

definition store_word :: "u32 \<Rightarrow> u32 \<Rightarrow> mem \<Rightarrow> mem" where
  "store_word a w m =
     mem_write m a [ucast w, ucast (drop_bit 8 w), ucast (drop_bit 16 w), ucast (drop_bit 24 w)]"

partial_function (option) skip_alnum :: "mem \<Rightarrow> u32 \<Rightarrow> u32 option" where
  "skip_alnum m fmt = (if isalnum (m fmt) then skip_alnum m (fmt + 1) else Some fmt)"

text \<open>The body of the loop, from \<open>format_decode\<close> on: it returns the next position in the format, the
  specification, the number of arguments taken and the output.\<close>

definition print_step ::
    "u32 \<Rightarrow> u32 \<Rightarrow> u32 \<Rightarrow> (nat \<Rightarrow> u32) \<Rightarrow> u32 \<Rightarrow> printf_spec \<Rightarrow> nat \<Rightarrow> out \<Rightarrow> (u32 \<times> printf_spec \<times> nat \<times> out) option" where
  "print_step nul buf e args old_fmt spec i o1 =
     format_decode (snd o1) old_fmt spec \<bind> (\<lambda>(fmt, spec).
       case ftype spec of
         FORMAT_TYPE_NONE \<Rightarrow> Some (fmt, spec, i, print_text e old_fmt fmt o1)
       | FORMAT_TYPE_WIDTH \<Rightarrow> Some (fmt, spec\<lparr>field_width := ucast (args i)\<rparr>, i + 1, o1)
       | FORMAT_TYPE_PRECISION \<Rightarrow> Some (fmt, spec\<lparr>precision := ucast (args i)\<rparr>, i + 1, o1)
       | FORMAT_TYPE_CHAR \<Rightarrow> Some (fmt, spec, i + 1, print_char e spec (args i) o1)
       | FORMAT_TYPE_STR \<Rightarrow> string nul e (args i) spec o1 \<bind> (\<lambda>o1. Some (fmt, spec, i + 1, o1))
       | FORMAT_TYPE_PTR \<Rightarrow>
           pointer nul (fmt + 1) e (args i) spec o1 \<bind> (\<lambda>o1.
             skip_alnum (snd o1) fmt \<bind> (\<lambda>fmt. Some (fmt, spec, i + 1, o1)))
       | FORMAT_TYPE_PERCENT_CHAR \<Rightarrow> Some (fmt, spec, i, emit e 37 o1)
       | FORMAT_TYPE_INVALID \<Rightarrow> Some (fmt, spec, i, emit e 37 o1)
       | FORMAT_TYPE_NRCHARS \<Rightarrow> Some (fmt, spec, i + 1, fst o1, store_word (args i) (fst o1 - buf) (snd o1))
       | _ \<Rightarrow>
           (case number_arg spec args i of (n, i) \<Rightarrow>
              number e n spec o1 \<bind> (\<lambda>o1. Some (fmt, spec, i, o1))))"

partial_function (option) vsnprintf_loop ::
    "u32 \<Rightarrow> u32 \<Rightarrow> u32 \<Rightarrow> (nat \<Rightarrow> u32) \<Rightarrow> u32 \<Rightarrow> printf_spec \<Rightarrow> nat \<Rightarrow> out \<Rightarrow> out option" where
  "vsnprintf_loop nul buf e args fmt spec i o1 =
     (if snd o1 fmt = 0 then Some o1
      else print_step nul buf e args fmt spec i o1 \<bind> (\<lambda>(fmt, spec, i, o1).
             vsnprintf_loop nul buf e args fmt spec i o1))"

definition vsnprintf :: "u32 \<Rightarrow> mem \<Rightarrow> u32 \<Rightarrow> u32 \<Rightarrow> u32 \<Rightarrow> (nat \<Rightarrow> u32) \<Rightarrow> (u32 \<times> mem) option" where
  "vsnprintf nul m buf sz fmt args =
     (if sint sz < 0 then Some (0, m)
      else
        let e = buf + sz; (e, sz) = (if e < buf then (- 1, - 1 - buf) else (e, sz))
        in vsnprintf_loop nul buf e args fmt spec0 0 (buf, m) \<bind> (\<lambda>(str, m).
             Some (str - buf, if sz > 0 then if str < e then m(str := 0) else m(e - 1 := 0) else m)))"

definition vscnprintf :: "u32 \<Rightarrow> mem \<Rightarrow> u32 \<Rightarrow> u32 \<Rightarrow> u32 \<Rightarrow> (nat \<Rightarrow> u32) \<Rightarrow> (u32 \<times> mem) option" where
  "vscnprintf nul m buf sz fmt args =
     vsnprintf nul m buf sz fmt args \<bind> (\<lambda>(i, m).
       Some (if i < sz then i else if sz \<noteq> 0 then sz - 1 else 0, m))"

definition vsprintf :: "u32 \<Rightarrow> mem \<Rightarrow> u32 \<Rightarrow> u32 \<Rightarrow> (nat \<Rightarrow> u32) \<Rightarrow> (u32 \<times> mem) option" where
  "vsprintf nul m buf fmt args = vsnprintf nul m buf 0x7FFFFFFF fmt args"

text \<open>The variadic functions call those above with the words that follow their last parameter.\<close>

definition snprintf :: "u32 \<Rightarrow> mem \<Rightarrow> u32 \<Rightarrow> u32 \<Rightarrow> u32 \<Rightarrow> (nat \<Rightarrow> u32) \<Rightarrow> (u32 \<times> mem) option" where
  "snprintf nul m buf sz fmt args = vsnprintf nul m buf sz fmt args"

definition scnprintf :: "u32 \<Rightarrow> mem \<Rightarrow> u32 \<Rightarrow> u32 \<Rightarrow> u32 \<Rightarrow> (nat \<Rightarrow> u32) \<Rightarrow> (u32 \<times> mem) option" where
  "scnprintf nul m buf sz fmt args = vscnprintf nul m buf sz fmt args"

definition sprintf :: "u32 \<Rightarrow> mem \<Rightarrow> u32 \<Rightarrow> u32 \<Rightarrow> (nat \<Rightarrow> u32) \<Rightarrow> (u32 \<times> mem) option" where
  "sprintf nul m buf fmt args = vsnprintf nul m buf 0x7FFFFFFF fmt args"

end
