(* ===== verification/Printf_Output.thy ===== *)
theory Printf_Output
  imports VSprintf
begin

text \<open>
  What \<^verbatim>\<open>vsnprintf\<close> prints.  The functions with names in \<open>_out\<close> give the bytes that a conversion prints
  as a list, and those with names in \<open>_l\<close> read the format from a list; neither mentions a buffer.  The
  lemmas show that the functions of theory \<open>VSprintf\<close> write these bytes, cut off at the end of the buffer.
\<close>

section \<open>Writing a list of bytes\<close>

lemma emit_all_append: "emit_all e (as @ bs) o1 = emit_all e bs (emit_all e as o1)"
  by (induction as arbitrary: o1) simp_all

lemma emit_all_fst: "fst (emit_all e cs o1) = fst o1 + of_nat (length cs)"
  by (induction cs arbitrary: o1) (simp_all add: emit_def split: prod.splits)

lemma word_succ_nat: "unat (p :: u32) + 1 < 2 ^ 32 \<Longrightarrow> unat (p + 1) = unat p + 1"
  using unat_add_nat [of p 1] by simp

lemma emit_all_frame:
  assumes "buf \<le> p" "unat p + length cs < 2 ^ 32" "a \<notin> {buf..<e}"
  shows "snd (emit_all e cs (p, m)) a = m a"
  using assms
proof (induction cs arbitrary: p m)
  case (Cons c cs)
  have p: "unat (p + 1) = unat p + 1" using Cons.prems(2) by (intro word_succ_nat) simp
  then have "buf \<le> p + 1" using Cons.prems(1) by (simp add: word_le_nat_alt)
  moreover have "a \<noteq> p" if "p < e" using that Cons.prems(1,3) by auto
  ultimately show ?case
    using Cons.IH [of "p + 1" "if p < e then m(p := c) else m"] Cons.prems(2,3) p by (auto simp: emit_def)
qed simp

lemma emit_all_writes:
  assumes "unat p + length cs < 2 ^ 32"
  shows "emit_all e cs (p, m) = (p + of_nat (length cs), mem_write m p (take (unat e - unat p) cs))"
  using assms
proof (induction cs arbitrary: p m)
  case (Cons c cs)
  have p: "unat (p + 1) = unat p + 1" using Cons.prems by (intro word_succ_nat) simp
  show ?case
  proof (cases "p < e")
    case True
    then have "unat e - unat p = Suc (unat e - unat (p + 1))" using p by (simp add: word_less_nat_alt)
    then show ?thesis using True Cons.IH [of "p + 1"] Cons.prems p by (simp add: emit_def algebra_simps)
  next
    case False
    then have "unat e - unat p = 0" "unat e - unat (p + 1) = 0" using p by (simp_all add: word_less_nat_alt)
    then show ?thesis using False Cons.IH [of "p + 1"] Cons.prems p by (simp add: emit_def algebra_simps)
  qed
qed simp

section \<open>Padding\<close>

definition padn :: "u16 \<Rightarrow> nat" where
  "padn w = nat (sint (w - 1) + 1)"

definition padw :: "u16 \<Rightarrow> u16" where
  "padw w = (if 0 \<le> sint (w - 1) then - 1 else w - 1)"

lemma pad_loop_emits: "pad_loop e c w o1 = (padw w, emit_all e (replicate (padn w) c) o1)"
proof (induction e c w o1 rule: pad_loop.induct)
  case (1 e c w o1)
  show ?case
  proof (cases "0 \<le> sint (w - 1)")
    case True
    then have "padn w = Suc (padn (w - 1))" by (simp add: padn_def sint_pred2)
    moreover have "padw (w - 1) = padw w"
    proof (cases "sint (w - 1) = 0")
      case True
      then have "w - 1 = 0" by (metis signed_0 signed_word_eqI)
      then show ?thesis by (simp add: padw_def)
    next
      case False
      then show ?thesis using \<open>0 \<le> sint (w - 1)\<close> by (simp add: padw_def sint_pred2)
    qed
    ultimately show ?thesis using 1 True by (simp add: pad_loop.simps [of e c w])
  next
    case False
    then show ?thesis by (simp add: pad_loop.simps [of e c w] padn_def padw_def)
  qed
qed

lemma zero_loop_emits: "zero_loop e i pr o1 = emit_all e (replicate (nat (sint (pr - 1) + 1 - int i)) 48) o1"
proof (induction e i pr o1 rule: zero_loop.induct)
  case (1 e i pr o1)
  show ?case
  proof (cases "int i \<le> sint (pr - 1)")
    case True
    then have "nat (sint (pr - 1) + 1 - int i) = Suc (nat (sint (pr - 1 - 1) + 1 - int i))" by (simp add: sint_pred2)
    then show ?thesis using 1 True by (simp add: zero_loop.simps [of e i pr])
  next
    case False
    then show ?thesis by (simp add: zero_loop.simps [of e i pr])
  qed
qed

lemma char_pad_emits:
  "char_pad e w o1 = (if 0 < sint (w - 1) then 0 else w - 1, emit_all e (replicate (nat (sint (w - 1))) 32) o1)"
proof (induction e w o1 rule: char_pad.induct)
  case (1 e w o1)
  show ?case
  proof (cases "0 < sint (w - 1)")
    case True
    then have n: "nat (sint (w - 1)) = Suc (nat (sint (w - 1 - 1)))" by (simp add: sint_pred2)
    have "w - 1 - 1 = 0" if "\<not> 0 < sint (w - 1 - 1)"
    proof -
      have "sint (w - 1 - 1) = 0" using that True by (simp add: sint_pred2)
      then show ?thesis by (metis signed_0 signed_word_eqI)
    qed
    then show ?thesis using 1 True n by (auto simp: char_pad.simps [of e w])
  next
    case False
    then show ?thesis by (simp add: char_pad.simps [of e w])
  qed
qed

section \<open>The bytes of a conversion\<close>

definition number_out :: "u64 \<Rightarrow> printf_spec \<Rightarrow> u8 list option" where
  "number_out n0 spec =
     (let need_pfx = flags spec AND SPECIAL \<noteq> 0 \<and> base spec \<noteq> 10;
          is_zero = n0 = 0;
          locase = flags spec AND SMALL;
          fl = (if flags spec AND LEFT \<noteq> 0 then flags spec AND NOT ZEROPAD else flags spec);
          (sign, n, w) = number_sign spec n0;
          w = (if need_pfx then if base spec = 16 then w - 2 else if \<not> is_zero then w - 1 else w else w)
      in number_digits (base spec) locase n \<bind> (\<lambda>tmp.
           let i = length tmp;
               pr = (if int i > sint (precision spec) then of_nat i else precision spec);
               w1 = w - pr;
               w2 = (if fl AND (ZEROPAD + LEFT) = 0 then padw w1 else w1);
               w3 = (if fl AND LEFT = 0 then padw w2 else w2)
           in Some ((if fl AND (ZEROPAD + LEFT) = 0 then replicate (padn w1) 32 else [])
                @ (if sign \<noteq> 0 then [sign] else [])
                @ (if need_pfx \<and> (base spec = 16 \<or> \<not> is_zero) then [48] else [])
                @ (if need_pfx \<and> base spec = 16 then [0x58 OR locase] else [])
                @ (if fl AND LEFT = 0 then replicate (padn w2) (if fl AND ZEROPAD \<noteq> 0 then 48 else 32) else [])
                @ replicate (nat (sint (pr - 1) + 1 - int i)) 48
                @ rev tmp @ replicate (padn w3) 32)))"

text \<open>The optional parts as lists.\<close>

lemma emit_if: "(if c then emit e x o1 else o1) = emit_all e (if c then [x] else []) o1"
  by simp

lemma pad_if:
  "(if c then pad_loop e x w o1 else (w, o1)) =
     (if c then padw w else w, emit_all e (if c then replicate (padn w) x else []) o1)"
  by (simp add: pad_loop_emits)

lemma number_emits: "number e n spec o1 = map_option (\<lambda>cs. emit_all e cs o1) (number_out n spec)"
proof -
  obtain sign n' w where s: "number_sign spec n = (sign, n', w)" by (cases "number_sign spec n")
  show ?thesis
  proof (cases "number_digits (base spec) (flags spec AND SMALL) n'")
    case None
    then show ?thesis by (simp add: number_def number_out_def Let_def s)
  next
    case (Some tmp)
    show ?thesis
      by (simp add: number_def number_out_def Let_def s Some pad_if emit_if zero_loop_emits pad_loop_emits
          emit_all_append split del: if_split)
  qed
qed

definition char_out :: "printf_spec \<Rightarrow> u32 \<Rightarrow> u8 list" where
  "char_out spec c =
     (let w = field_width spec;
          w1 = (if flags spec AND LEFT = 0 then if 0 < sint (w - 1) then 0 else w - 1 else w)
      in (if flags spec AND LEFT = 0 then replicate (nat (sint (w - 1))) 32 else [])
         @ [ucast c] @ replicate (nat (sint (w1 - 1))) 32)"

lemma print_char_emits: "print_char e spec c o1 = emit_all e (char_out spec c) o1"
  by (auto simp: print_char_def char_out_def Let_def char_pad_emits emit_all_append)

text \<open>The bytes of a string, of which at most \<^verbatim>\<open>precision\<close> are printed.\<close>

definition space_after :: "int \<Rightarrow> u16 \<Rightarrow> u16" where
  "space_after len w = (if len < sint w then of_int (len - 1) else w - 1)"

definition string_out :: "u8 list \<Rightarrow> printf_spec \<Rightarrow> u8 list option" where
  "string_out cs spec =
     (let t = take (unat (scast (precision spec) :: u32)) cs; len = int (length t);
          w = field_width spec;
          w1 = (if flags spec AND LEFT = 0 then space_after len w else w)
      in if length t < 2 ^ 31 then
           Some ((if flags spec AND LEFT = 0 then replicate (nat (sint w - len)) 32 else [])
             @ t @ replicate (nat (sint w1 - len)) 32)
         else None)"

lemma space_loop_emits:
  assumes "0 \<le> len"
  shows "space_loop e len w o1 = Some (space_after len w, emit_all e (replicate (nat (sint w - len)) 32) o1)"
proof (induction "nat (sint w - len)" arbitrary: w o1)
  case 0
  then show ?case by (subst space_loop.simps) (simp add: space_after_def)
next
  case (Suc n)
  then have lt: "len < sint w" by simp
  then have p: "sint (w - 1) = sint w - 1" using assms by (intro sint_pred) simp
  then have n: "n = nat (sint (w - 1) - len)" using Suc(2) by simp
  have "space_after len (w - 1) = space_after len w"
  proof (cases "len = sint w - 1")
    case True
    then have "of_int (len - 1) = w - 1 - 1" by simp
    then show ?thesis using True p lt by (simp add: space_after_def)
  next
    case False
    then show ?thesis using lt p by (simp add: space_after_def)
  qed
  then show ?case using Suc(1) [OF n] lt Suc(2) [symmetric] n by (subst space_loop.simps) simp
qed

lemma copy_loop_emits:
  assumes "\<forall>i < n. m (s + of_nat i) = cs ! i" "\<forall>i < n. s + of_nat i \<notin> {buf..<e}" "n \<le> length cs"
    "buf \<le> p" "unat p + n < 2 ^ 32"
  shows "copy_loop n e s (p, m) = emit_all e (take n cs) (p, m)"
  using assms
proof (induction n arbitrary: s cs p m)
  case (Suc n)
  obtain c cs' where cs: "cs = c # cs'" using Suc.prems(3) by (cases cs) auto
  have c: "m s = c" using Suc.prems(1) cs by force
  have p: "unat (p + 1) = unat p + 1" using Suc.prems(5) by (intro word_succ_nat) simp
  let ?m = "if p < e then m(p := c) else m"
  have same: "?m a = m a" if "a \<notin> {buf..<e}" for a using that Suc.prems(4) by auto
  have 1: "\<forall>i < n. ?m (s + 1 + of_nat i) = cs' ! i"
  proof (intro allI impI)
    fix i assume "i < n"
    then have "s + of_nat (Suc i) \<notin> {buf..<e}" "m (s + of_nat (Suc i)) = cs' ! i"
      using Suc.prems(1,2) cs by (auto simp del: of_nat_Suc)
    then show "?m (s + 1 + of_nat i) = cs' ! i" using same by (simp add: add.assoc)
  qed
  have 2: "\<forall>i < n. s + 1 + of_nat i \<notin> {buf..<e}"
  proof (intro allI impI)
    fix i assume "i < n"
    then have "s + of_nat (Suc i) \<notin> {buf..<e}" using Suc.prems(2) by (auto simp del: of_nat_Suc)
    then show "s + 1 + of_nat i \<notin> {buf..<e}" by (simp add: algebra_simps)
  qed
  have 3: "buf \<le> p + 1" using p Suc.prems(4) by (simp add: word_le_nat_alt)
  have "copy_loop n e (s + 1) (p + 1, ?m) = emit_all e (take n cs') (p + 1, ?m)"
    using Suc.IH [OF 1 2 _ 3] Suc.prems(3,5) cs p by simp
  then show ?case using c by (simp add: cs emit_def)
qed simp

lemma strnlen_loop_cstr:
  assumes "cstr m s cs" "k \<le> length cs" "k \<le> unat n"
  shows "strnlen_loop m s n (of_nat k) = Some (of_nat (min (unat n) (length cs)))"
  using assms(2,3)
proof (induction "min (unat n) (length cs) - k" arbitrary: k)
  case 0
  then have "k = min (unat n) (length cs)" by simp
  moreover have "(of_nat (unat n) :: u32) = n" by simp
  ultimately show ?case
    using assms(1) by (subst strnlen_loop.simps) (auto simp: cstr_nth min_def)
next
  case (Suc j)
  then have k: "k < unat n" "k < length cs" by auto
  have "unat (of_nat k :: u32) = k" using k(1) u32_bound [of n] by (simp add: unsigned_of_nat take_bit_nat_eq_self)
  then have "(of_nat k :: u32) < n" using k(1) by (simp add: word_less_nat_alt)
  moreover have "m (s + of_nat k) = cs ! k" "cs ! k \<noteq> 0"
    using assms(1) k(2) nth_mem [OF k(2)] unfolding cstr_nth by metis+
  moreover have "strnlen_loop m s n (of_nat (Suc k)) = Some (of_nat (min (unat n) (length cs)))"
    using Suc(1) [of "Suc k"] Suc(2) k by simp
  ultimately show ?case by (subst strnlen_loop.simps) (simp add: add.commute)
qed

lemma string_emits:
  assumes s: "cstr m s cs" "1024 \<le> s" "region s (length cs) \<inter> {buf..<e} = {}"
    and out: "string_out cs spec = Some out" and p: "buf \<le> p" "unat p + length out < 2 ^ 32"
  shows "string nul e s spec (p, m) = Some (emit_all e out (p, m))"
proof -
  let ?n = "scast (precision spec) :: u32" and ?w = "field_width spec"
  define l where "l = min (length cs) (unat ?n)"
  define pre where "pre = (if flags spec AND LEFT = 0 then replicate (nat (sint ?w - int l)) (32 :: u8) else [])"
  define w1 where "w1 = (if flags spec AND LEFT = 0 then space_after (int l) ?w else ?w)"
  define o1 where "o1 = emit_all e pre (p, m)"
  have t: "take l cs = take (unat ?n) cs" by (simp add: l_def min_def)
  have lt: "l < 2 ^ 31" and out: "out = pre @ take l cs @ replicate (nat (sint w1 - int l)) 32"
    using out by (simp_all add: string_out_def Let_def pre_def w1_def t flip: l_def split: if_splits)
  have len: "strnlen m s ?n = Some (of_nat l)"
    using strnlen_loop_cstr [OF s(1), of 0 ?n] by (simp add: strnlen_def l_def min.commute)
  have sl: "sint (of_nat l :: u32) = int l"
    using lt by (subst signed_of_nat) (simp add: signed_take_bit_int_eq_self)
  have un: "unat (fst o1) = unat p + length pre"
    unfolding o1_def emit_all_fst fst_conv using p(2) out by (intro unat_add_nat) simp
  have ge: "buf \<le> fst o1" using un p(1) by (simp only: word_le_nat_alt)
  have out1: "s + of_nat i \<notin> {buf..<e}" if "i < l" for i
    using s(3) region_mem [of i "length cs" s] that by (auto simp: l_def)
  have in1: "snd o1 (s + of_nat i) = cs ! i" if "i < l" for i
  proof -
    have "snd o1 (s + of_nat i) = m (s + of_nat i)"
      unfolding o1_def using out1 [OF that] p out by (intro emit_all_frame [of buf]) auto
    then show ?thesis using s(1) that by (simp add: cstr_nth l_def)
  qed
  have "copy_loop l e s (fst o1, snd o1) = emit_all e (take l cs) (fst o1, snd o1)"
  proof (rule copy_loop_emits [where buf = buf])
    show "unat (fst o1) + l < 2 ^ 32" using un p(2) out by (simp add: l_def)
  qed (use in1 out1 ge in \<open>auto simp: l_def\<close>)
  then have copy: "copy_loop l e s o1 = emit_all e (take l cs) o1" by (simp only: prod.collapse)
  have first: "(if flags spec AND LEFT = 0 then space_loop e (int l) ?w (p, m) else Some (?w, (p, m))) = Some (w1, o1)"
    by (simp add: space_loop_emits w1_def o1_def pre_def)
  have "\<not> s < 1024" using s(2) by (simp add: not_less)
  then show ?thesis
    using len space_loop_emits [of "int l" e w1 "emit_all e (take l cs) o1"]
    by (simp add: string_def Let_def sl first [folded sl] copy out emit_all_append flip: o1_def split del: if_split)
qed

lemma word_range_region:
  assumes "unat buf + n < 2 ^ 32"
  shows "region buf n = {buf..<buf + of_nat n}"
proof -
  have e: "unat (buf + of_nat n) = unat buf + n" using assms by (rule unat_add_nat)
  have "a \<in> region buf n" if "buf \<le> a" "a < buf + of_nat n" for a
  proof -
    have "unat a - unat buf < n" using that e by (simp add: word_le_nat_alt word_less_nat_alt)
    then have "buf + of_nat (unat a - unat buf) \<in> region buf n" by (rule region_mem)
    moreover have "buf + of_nat (unat a - unat buf) = a"
      using that(1) by (simp add: word_le_nat_alt of_nat_diff)
    ultimately show ?thesis by simp
  qed
  moreover have "buf \<le> a \<and> a < buf + of_nat n" if mem: "a \<in> region buf n" for a
  proof -
    obtain i where i: "i < n" "a = buf + of_nat i" using mem by (auto simp: region_def)
    then have "unat a = unat buf + i" using assms by (simp add: unat_add_nat)
    then show ?thesis using e i(1) by (simp add: word_le_nat_alt word_less_nat_alt)
  qed
  ultimately show ?thesis by auto
qed

text \<open>Plain text of the format.\<close>

lemma print_text_emits:
  assumes m: "\<forall>i < length pre. m (f + of_nat i) = pre ! i"
    and dis: "region f (length pre) \<inter> {buf..<e} = {}"
    and p: "buf \<le> p" "unat p + length pre < 2 ^ 32" and small: "length pre < 2 ^ 31" "unat e - unat p < 2 ^ 31"
  shows "print_text e f (f + of_nat (length pre)) (p, m) = emit_all e pre (p, m)"
proof -
  let ?k = "length pre" and ?d = "unat e - unat p"
  have k: "sint (of_nat ?k :: u32) = int ?k"
    using small(1) by (subst signed_of_nat) (simp add: signed_take_bit_int_eq_self)
  have w: "emit_all e pre (p, m) = (p + of_nat ?k, mem_write m p (take ?d pre))"
    by (rule emit_all_writes [OF p(2)])
  show ?thesis
  proof (cases "p < e")
    case True
    have d: "e - p = of_nat ?d" using True by (simp add: word_less_nat_alt of_nat_diff)
    have ds: "sint (e - p) = int ?d"
      unfolding d using small(2) by (subst signed_of_nat) (simp add: signed_take_bit_int_eq_self)
    let ?n = "min ?k ?d"
    have c: "(if sint (of_nat ?k :: u32) > sint (e - p) then e - p else of_nat ?k) = of_nat ?n"
      unfolding k ds unfolding d by (simp add: min_def)
    have un: "unat (of_nat ?n :: u32) = ?n"
      using small(1) by (simp add: unsigned_of_nat take_bit_nat_eq_self min_less_iff_disj)
    have "region p ?n \<subseteq> {buf..<e}"
    proof
      fix a assume "a \<in> region p ?n"
      then obtain i where i: "i < ?n" "a = p + of_nat i" by (auto simp: region_def)
      then have "unat a = unat p + i" using p(2) by (simp add: unat_add_nat)
      moreover have "unat p + i < unat e" using i(1) by linarith
      ultimately show "a \<in> {buf..<e}" using p(1) by (simp add: word_le_nat_alt word_less_nat_alt)
    qed
    moreover have "region f ?n \<subseteq> region f ?k" by (auto simp: region_def)
    ultimately have "region p ?n \<inter> region f ?n = {}" using dis by auto
    then have "memcpy_loop ?n m p f = mem_write m p (map (\<lambda>i. m (f + of_nat i)) [0..<?n])"
      by (rule memcpy_loop_eq)
    moreover have "map (\<lambda>i. m (f + of_nat i)) [0..<?n] = take ?d pre"
      using m by (intro nth_equalityI) auto
    ultimately show ?thesis using True w un by (simp add: print_text_def Let_def c memcpy_def)
  next
    case False
    then have "?d = 0" by (simp add: word_less_nat_alt)
    then show ?thesis using False w by (simp add: print_text_def)
  qed
qed

section \<open>Reading the format from a list\<close>

definition hd0 :: "u8 list \<Rightarrow> u8" where
  "hd0 cs = (case cs of [] \<Rightarrow> 0 | c # cs \<Rightarrow> c)"

fun flags_l :: "u8 list \<Rightarrow> u8 \<Rightarrow> u8 list \<times> u8" where
  "flags_l [] fl = ([], fl)"
| "flags_l (c # cs) fl = (case flag_of c of None \<Rightarrow> (c # cs, fl) | Some b \<Rightarrow> flags_l cs (fl OR b))"

fun atoi_l :: "u8 list \<Rightarrow> u32 \<Rightarrow> u32 \<times> u8 list" where
  "atoi_l [] i = (i, [])"
| "atoi_l (c # cs) i = (if isdigit c then atoi_l cs (i * 10 + scast c - 48) else (i, c # cs))"

definition qualifier_l :: "u8 list \<Rightarrow> printf_spec \<Rightarrow> u8 list \<times> printf_spec" where
  "qualifier_l cs spec =
     (let (cs, q) =
            (if is_qualifier (hd0 cs) then
               if hd0 cs = hd0 (tl cs) \<and> hd0 cs = 108 then (tl (tl cs), 76)
               else if hd0 cs = hd0 (tl cs) \<and> hd0 cs = 104 then (tl (tl cs), 72)
               else (tl cs, hd0 cs)
             else (cs, 255));
          (spec, used) = decode_conv (hd0 cs) (spec\<lparr>qualifier := q\<rparr>)
      in (if used then tl cs else cs, spec))"

definition precision_l :: "u8 list \<Rightarrow> printf_spec \<Rightarrow> u8 list \<times> printf_spec" where
  "precision_l cs spec =
     (let spec = spec\<lparr>precision := - 1\<rparr>
      in if hd0 cs = 46 then
           let cs = tl cs
           in if isdigit (hd0 cs) then
                (case atoi_l cs 0 of (n, cs) \<Rightarrow>
                   let pr = (ucast n :: u16)
                   in qualifier_l cs (spec\<lparr>precision := if sint pr < 0 then 0 else pr\<rparr>))
              else if hd0 cs = 42 then (tl cs, spec\<lparr>ftype := FORMAT_TYPE_PRECISION\<rparr>)
              else qualifier_l cs spec
         else qualifier_l cs spec)"

definition width_l :: "u8 list \<Rightarrow> printf_spec \<Rightarrow> u8 list \<times> printf_spec" where
  "width_l cs spec =
     (let spec = spec\<lparr>field_width := - 1\<rparr>
      in if isdigit (hd0 cs) then
           (case atoi_l cs 0 of (n, cs) \<Rightarrow> precision_l cs (spec\<lparr>field_width := ucast n\<rparr>))
         else if hd0 cs = 42 then (tl cs, spec\<lparr>ftype := FORMAT_TYPE_WIDTH\<rparr>)
         else precision_l cs spec)"

definition decode_l :: "u8 list \<Rightarrow> printf_spec \<Rightarrow> u8 list \<times> printf_spec" where
  "decode_l cs spec =
     (if ftype spec = FORMAT_TYPE_WIDTH then
        let spec = (if sint (field_width spec) < 0 then
                      spec\<lparr>field_width := - field_width spec, flags := flags spec OR LEFT\<rparr>
                    else spec)
        in precision_l cs (spec\<lparr>ftype := FORMAT_TYPE_NONE\<rparr>)
      else if ftype spec = FORMAT_TYPE_PRECISION then
        let spec = (if sint (precision spec) < 0 then spec\<lparr>precision := 0\<rparr> else spec)
        in qualifier_l cs (spec\<lparr>ftype := FORMAT_TYPE_NONE\<rparr>)
      else
        let spec = spec\<lparr>ftype := FORMAT_TYPE_NONE\<rparr>
        in if hd0 cs \<noteq> 37 then (dropWhile (\<lambda>c. c \<noteq> 37) cs, spec)
           else (case flags_l (tl cs) 0 of (cs, fl) \<Rightarrow> width_l cs (spec\<lparr>flags := fl\<rparr>)))"

text \<open>The position \<open>f'\<close> with the rest \<open>cs'\<close> is reached from the position \<open>f\<close> with the rest \<open>cs\<close>.\<close>

definition moved :: "u32 \<Rightarrow> u8 list \<Rightarrow> u32 \<Rightarrow> u8 list \<Rightarrow> bool" where
  "moved f cs f' cs' \<longleftrightarrow> (\<exists>pre. cs = pre @ cs' \<and> f' = f + of_nat (length pre))"

lemma moved_refl [simp]: "moved f cs f cs"
  by (simp add: moved_def)

lemma moved_trans: "moved f cs f' cs' \<Longrightarrow> moved f' cs' f'' cs'' \<Longrightarrow> moved f cs f'' cs''"
  by (auto simp: moved_def add.assoc)

lemma moved_Cons: "moved (f + 1) cs f' cs' \<Longrightarrow> moved f (c # cs) f' cs'"
proof -
  assume "moved (f + 1) cs f' cs'"
  then obtain pre where "cs = pre @ cs'" "f' = f + 1 + of_nat (length pre)" by (auto simp: moved_def)
  then show ?thesis unfolding moved_def by (intro exI [of _ "c # pre"]) (simp add: add.assoc)
qed

lemma moved_tl: "hd0 cs \<noteq> 0 \<Longrightarrow> moved f cs (f + 1) (tl cs)"
  by (cases cs) (auto simp: hd0_def intro: moved_Cons)

lemma cstr_hd: "cstr m f cs \<Longrightarrow> m f = hd0 cs"
  by (cases cs) (simp_all add: hd0_def)

lemma cstr_tl: "cstr m f cs \<Longrightarrow> hd0 cs \<noteq> 0 \<Longrightarrow> cstr m (f + 1) (tl cs)"
  by (cases cs) (simp_all add: hd0_def)

lemma cstr_suffix: "cstr m f (pre @ cs) \<Longrightarrow> cstr m (f + of_nat (length pre)) cs"
  by (induction pre arbitrary: f) (simp_all add: add.assoc [symmetric])

lemma moved_cstr: "cstr m f cs \<Longrightarrow> moved f cs f' cs' \<Longrightarrow> cstr m f' cs'"
  by (auto simp: moved_def intro: cstr_suffix)

lemma flags_loop_l:
  "cstr m (f + 1) cs \<Longrightarrow> flags_l cs fl = (cs', fl') \<Longrightarrow>
    \<exists>f'. flags_loop m f fl = Some (f', fl') \<and> moved (f + 1) cs f' cs'"
proof (induction cs fl arbitrary: f rule: flags_l.induct)
  case (1 fl)
  then show ?case by (subst flags_loop.simps) (simp add: flag_of_def)
next
  case (2 c cs fl)
  then show ?case
  proof (cases "flag_of c")
    case None
    then show ?thesis using 2 by (subst flags_loop.simps) simp
  next
    case (Some b)
    have "cstr m (f + 1 + 1) cs" using 2(2) by simp
    moreover have "flags_l cs (fl OR b) = (cs', fl')" using 2(3) Some by simp
    ultimately obtain f' where "flags_loop m (f + 1) (fl OR b) = Some (f', fl')" "moved (f + 1 + 1) cs f' cs'"
      using 2(1) [OF Some, of "f + 1"] by blast
    then show ?thesis using Some 2(2) moved_Cons [of "f + 1" cs f' cs' c] by (subst flags_loop.simps) simp
  qed
qed

lemma skip_atoi_l:
  "cstr m f cs \<Longrightarrow> atoi_l cs i = (n, cs') \<Longrightarrow> \<exists>f'. skip_atoi m f i = Some (n, f') \<and> moved f cs f' cs'"
proof (induction cs i arbitrary: f rule: atoi_l.induct)
  case (1 i)
  have "\<not> isdigit 0" by (simp add: isdigit_range)
  then show ?case using 1 by (subst skip_atoi.simps) simp
next
  case (2 c cs i)
  then show ?case
  proof (cases "isdigit c")
    case True
    then obtain f' where "skip_atoi m (f + 1) (i * 10 + scast c - 48) = Some (n, f')" "moved (f + 1) cs f' cs'"
      using 2 by fastforce
    then show ?thesis using True 2(2) by (subst skip_atoi.simps) (auto intro: moved_Cons)
  next
    case False
    then show ?thesis using 2 by (subst skip_atoi.simps) auto
  qed
qed

lemma scan_text_l:
  "cstr m f cs \<Longrightarrow> \<exists>f'. scan_text m f = Some f' \<and> moved f cs f' (dropWhile (\<lambda>c. c \<noteq> 37) cs)"
proof (induction cs arbitrary: f)
  case Nil
  then show ?case by (subst scan_text.simps) simp
next
  case (Cons c cs)
  then show ?case
  proof (cases "c = 37")
    case False
    then obtain f' where "scan_text m (f + 1) = Some f'" "moved (f + 1) cs f' (dropWhile (\<lambda>c. c \<noteq> 37) cs)"
      using Cons by fastforce
    then show ?thesis using False Cons.prems by (subst scan_text.simps) (auto intro: moved_Cons)
  qed (subst scan_text.simps, simp)
qed

lemma decode_conv_used: "decode_conv c spec = (spec', True) \<Longrightarrow> c \<noteq> 0"
  by (auto simp: decode_conv_def Let_def split: if_splits)

lemma is_qualifier_0: "\<not> is_qualifier 0"
  by (simp add: is_qualifier_def tolower_fast_def)

lemma decode_qualifier_l:
  assumes "cstr m f cs" "qualifier_l cs spec = (cs', spec')"
  shows "\<exists>f'. decode_qualifier m f spec = (f', spec') \<and> moved f cs f' cs'"
proof -
  have qual: "\<exists>f1 cs1 q. (if is_qualifier (m f) then
               if m f = m (f + 1) \<and> m f = 108 then (f + 2, 76)
               else if m f = m (f + 1) \<and> m f = 104 then (f + 2, 72)
               else (f + 1, m f)
             else (f, 255)) = (f1, q) \<and>
      (if is_qualifier (hd0 cs) then
               if hd0 cs = hd0 (tl cs) \<and> hd0 cs = 108 then (tl (tl cs), 76)
               else if hd0 cs = hd0 (tl cs) \<and> hd0 cs = 104 then (tl (tl cs), 72)
               else (tl cs, hd0 cs)
             else (cs, 255)) = (cs1, q) \<and> moved f cs f1 cs1"
  proof (cases "is_qualifier (hd0 cs)")
    case True
    then have nz: "hd0 cs \<noteq> 0" using is_qualifier_0 by auto
    have 1: "m f = hd0 cs" "m (f + 1) = hd0 (tl cs)" "moved f cs (f + 1) (tl cs)"
      using cstr_hd [OF assms(1)] cstr_hd [OF cstr_tl [OF assms(1) nz]] moved_tl [OF nz] by auto
    have "moved f cs (f + 2) (tl (tl cs))" if "hd0 (tl cs) \<noteq> 0"
      using moved_trans [OF 1(3) moved_tl [OF that]] by (simp add: add.assoc)
    then show ?thesis using True 1 nz by auto
  next
    case False
    then show ?thesis using cstr_hd [OF assms(1)] by simp
  qed
  then obtain f1 cs1 q where q: "(if is_qualifier (m f) then
               if m f = m (f + 1) \<and> m f = 108 then (f + 2, 76)
               else if m f = m (f + 1) \<and> m f = 104 then (f + 2, 72)
               else (f + 1, m f)
             else (f, 255)) = (f1, q)"
      "(if is_qualifier (hd0 cs) then
               if hd0 cs = hd0 (tl cs) \<and> hd0 cs = 108 then (tl (tl cs), 76)
               else if hd0 cs = hd0 (tl cs) \<and> hd0 cs = 104 then (tl (tl cs), 72)
               else (tl cs, hd0 cs)
             else (cs, 255)) = (cs1, q)" "moved f cs f1 cs1" by blast
  obtain s u where c: "decode_conv (hd0 cs1) (spec\<lparr>qualifier := q\<rparr>) = (s, u)" by fastforce
  have "m f1 = hd0 cs1" using cstr_hd [OF moved_cstr [OF assms(1) q(3)]] .
  then have d: "decode_qualifier m f spec = (if u then f1 + 1 else f1, s)"
    using c by (simp add: decode_qualifier_def q(1))
  have l: "cs' = (if u then tl cs1 else cs1)" "spec' = s"
    using assms(2) c by (simp_all add: qualifier_l_def q(2))
  have "moved f cs (if u then f1 + 1 else f1) cs'"
    using q(3) moved_trans [OF q(3) moved_tl] decode_conv_used c l(1) by (cases u) auto
  then show ?thesis using d l(2) by simp
qed

lemma decode_precision_l:
  assumes "cstr m f cs" "precision_l cs spec = (cs', spec')"
  shows "\<exists>f'. decode_precision m f spec = Some (f', spec') \<and> moved f cs f' cs'"
proof (cases "hd0 cs = 46")
  case True
  let ?s = "spec\<lparr>precision := - 1\<rparr>"
  have nz: "hd0 cs \<noteq> 0" using True by simp
  have 1: "m f = 46" "m (f + 1) = hd0 (tl cs)" "moved f cs (f + 1) (tl cs)" "cstr m (f + 1) (tl cs)"
    using True cstr_hd [OF assms(1)] cstr_hd [OF cstr_tl [OF assms(1) nz]] moved_tl [OF nz] cstr_tl [OF assms(1) nz]
    by auto
  consider "isdigit (hd0 (tl cs))" | "\<not> isdigit (hd0 (tl cs))" "hd0 (tl cs) = 42"
    | "\<not> isdigit (hd0 (tl cs))" "hd0 (tl cs) \<noteq> 42" by blast
  then show ?thesis
  proof cases
    case a: 1
    obtain n cs1 where n: "atoi_l (tl cs) 0 = (n, cs1)" by fastforce
    obtain f1 where f1: "skip_atoi m (f + 1) 0 = Some (n, f1)" "moved (f + 1) (tl cs) f1 cs1"
      using skip_atoi_l [OF 1(4) n] by blast
    let ?t = "?s\<lparr>precision := if sint (ucast n :: u16) < 0 then 0 else ucast n\<rparr>"
    have "qualifier_l cs1 ?t = (cs', spec')" using assms(2) True a n by (simp add: precision_l_def Let_def)
    then obtain f' where "decode_qualifier m f1 ?t = (f', spec')" "moved f1 cs1 f' cs'"
      using decode_qualifier_l [OF moved_cstr [OF 1(4) f1(2)]] by blast
    then show ?thesis
      using 1 a f1 moved_trans [OF 1(3) moved_trans [OF f1(2)]] by (simp add: decode_precision_def Let_def)
  next
    case b: 2
    then have "moved f cs (f + 2) (tl (tl cs))"
      using moved_trans [OF 1(3) moved_tl] by (simp add: add.assoc)
    then show ?thesis using assms(2) True 1 b by (auto simp: decode_precision_def precision_l_def Let_def add.assoc)
  next
    case c: 3
    then have "qualifier_l (tl cs) ?s = (cs', spec')" using assms(2) True by (simp add: precision_l_def Let_def)
    then obtain f' where "decode_qualifier m (f + 1) ?s = (f', spec')" "moved (f + 1) (tl cs) f' cs'"
      using decode_qualifier_l [OF 1(4)] by blast
    then show ?thesis using 1 c moved_trans [OF 1(3)] by (simp add: decode_precision_def Let_def)
  qed
next
  case False
  then have "qualifier_l cs (spec\<lparr>precision := - 1\<rparr>) = (cs', spec')" using assms(2) by (simp add: precision_l_def Let_def)
  then show ?thesis
    using decode_qualifier_l [OF assms(1)] cstr_hd [OF assms(1)] False by (auto simp: decode_precision_def Let_def)
qed

lemma decode_width_l:
  assumes "cstr m f cs" "width_l cs spec = (cs', spec')"
  shows "\<exists>f'. decode_width m f spec = Some (f', spec') \<and> moved f cs f' cs'"
proof -
  let ?s = "spec\<lparr>field_width := - 1\<rparr>"
  have hd: "m f = hd0 cs" by (rule cstr_hd [OF assms(1)])
  consider "isdigit (hd0 cs)" | "\<not> isdigit (hd0 cs)" "hd0 cs = 42" | "\<not> isdigit (hd0 cs)" "hd0 cs \<noteq> 42" by blast
  then show ?thesis
  proof cases
    case 1
    obtain n cs1 where n: "atoi_l cs 0 = (n, cs1)" by fastforce
    obtain f1 where f1: "skip_atoi m f 0 = Some (n, f1)" "moved f cs f1 cs1"
      using skip_atoi_l [OF assms(1) n] by blast
    have "precision_l cs1 (?s\<lparr>field_width := ucast n\<rparr>) = (cs', spec')"
      using assms(2) 1 n by (simp add: width_l_def Let_def)
    then obtain f' where "decode_precision m f1 (?s\<lparr>field_width := ucast n\<rparr>) = Some (f', spec')" "moved f1 cs1 f' cs'"
      using decode_precision_l [OF moved_cstr [OF assms(1) f1(2)]] by blast
    then show ?thesis using 1 hd f1 moved_trans [OF f1(2)] by (simp add: decode_width_def Let_def)
  next
    case 2
    then show ?thesis using assms(2) hd moved_tl [of cs f] by (auto simp: decode_width_def width_l_def Let_def)
  next
    case 3
    then show ?thesis
      using assms hd decode_precision_l [OF assms(1), of ?s] by (auto simp: decode_width_def width_l_def Let_def)
  qed
qed

lemma format_decode_l:
  assumes "cstr m f cs" "decode_l cs spec = (cs', spec')"
  shows "\<exists>f'. format_decode m f spec = Some (f', spec') \<and> moved f cs f' cs'"
proof -
  consider "ftype spec = FORMAT_TYPE_WIDTH" | "ftype spec = FORMAT_TYPE_PRECISION"
    | "ftype spec \<notin> {FORMAT_TYPE_WIDTH, FORMAT_TYPE_PRECISION}" "hd0 cs = 37"
    | "ftype spec \<notin> {FORMAT_TYPE_WIDTH, FORMAT_TYPE_PRECISION}" "hd0 cs \<noteq> 37" by blast
  then show ?thesis
  proof cases
    case 1
    then show ?thesis
      using assms(2) decode_precision_l [OF assms(1)] by (auto simp: format_decode_def decode_l_def Let_def)
  next
    case 2
    then show ?thesis
      using assms(2) decode_qualifier_l [OF assms(1)] by (auto simp: format_decode_def decode_l_def Let_def)
  next
    case 3
    have nz: "hd0 cs \<noteq> 0" using 3 by simp
    have hd: "m f = 37" using 3 cstr_hd [OF assms(1)] by simp
    have s: "scan_text m f = Some f" using hd by (subst scan_text.simps) simp
    obtain cs1 fl where fl: "flags_l (tl cs) 0 = (cs1, fl)" by fastforce
    obtain f1 where f1: "flags_loop m f 0 = Some (f1, fl)" "moved (f + 1) (tl cs) f1 cs1"
      using flags_loop_l [OF cstr_tl [OF assms(1) nz] fl] by blast
    have c1: "cstr m f1 cs1" by (rule moved_cstr [OF cstr_tl [OF assms(1) nz] f1(2)])
    have "width_l cs1 (spec\<lparr>ftype := FORMAT_TYPE_NONE, flags := fl\<rparr>) = (cs', spec')"
      using assms(2) 3 fl by (simp add: decode_l_def Let_def)
    then obtain f' where "decode_width m f1 (spec\<lparr>ftype := FORMAT_TYPE_NONE, flags := fl\<rparr>) = Some (f', spec')"
        "moved f1 cs1 f' cs'"
      using decode_width_l [OF c1] by blast
    then show ?thesis
      using 3 s hd f1 moved_trans [OF moved_tl [OF nz] moved_trans [OF f1(2)]] by (simp add: format_decode_def Let_def)
  next
    case 4
    obtain f' where f': "scan_text m f = Some f'" "moved f cs f' (dropWhile (\<lambda>c. c \<noteq> 37) cs)"
      using scan_text_l [OF assms(1)] by blast
    obtain pre where pre: "cs = pre @ dropWhile (\<lambda>c. c \<noteq> 37) cs" "f' = f + of_nat (length pre)"
      using f'(2) by (auto simp: moved_def)
    have "f' \<noteq> f \<or> m f' = 0"
    proof (cases "pre = []")
      case True
      have "cs = []"
      proof (cases cs)
        case (Cons c ds)
        then have "length (c # ds) = length (dropWhile (\<lambda>c. c \<noteq> 37) ds)"
          using pre(1) True 4(2) by (simp add: hd0_def)
        then show ?thesis using length_dropWhile_le [of "\<lambda>c. c \<noteq> 37" ds] by simp
      qed simp
      then show ?thesis using assms(1) pre(2) True by simp
    next
      case False
      have "length pre < 2 ^ 32" using cstr_length [OF assms(1)] pre(1) by (metis length_append trans_less_add1 le_add1 le_less_trans)
      then have "(of_nat (length pre) :: u32) \<noteq> 0" using False by (simp add: word_of_nat_eq_0_iff nat_dvd_not_less)
      then show ?thesis using pre(2) by simp
    qed
    then show ?thesis using assms(2) 4 f' by (auto simp: format_decode_def decode_l_def Let_def)
  qed
qed

section \<open>The output of a format\<close>

definition null_text :: "u8 list" where
  "null_text = ascii ''(null)''"

text \<open>\<open>strs\<close> gives the strings that the arguments point to.\<close>

definition arg_string :: "(u32 \<Rightarrow> u8 list option) \<Rightarrow> u32 \<Rightarrow> u8 list option" where
  "arg_string strs s = (if s < 1024 then Some null_text else strs s)"

definition pointer_out :: "u8 \<Rightarrow> u32 \<Rightarrow> printf_spec \<Rightarrow> u8 list option" where
  "pointer_out c ptr spec =
     (let default_width = (if flags spec AND SPECIAL \<noteq> 0 then 10 else 8)
      in if ptr = 0 \<and> c \<noteq> 75 then
           string_out null_text (if field_width spec = - 1 then spec\<lparr>field_width := default_width\<rparr> else spec)
         else
           let spec = spec\<lparr>flags := flags spec OR SMALL\<rparr>;
               spec = (if field_width spec = - 1 then
                         spec\<lparr>field_width := default_width, flags := flags spec OR ZEROPAD\<rparr>
                       else spec)
           in number_out (ucast ptr) (spec\<lparr>base := 16\<rparr>))"

definition step_out :: "(u32 \<Rightarrow> u8 list option) \<Rightarrow> (nat \<Rightarrow> u32) \<Rightarrow> u8 list \<Rightarrow> printf_spec \<Rightarrow> nat \<Rightarrow>
    (u8 list \<times> u8 list \<times> printf_spec \<times> nat) option" where
  "step_out strs args cs spec i =
     (case decode_l cs spec of (rest, spec) \<Rightarrow>
        (case ftype spec of
          FORMAT_TYPE_NONE \<Rightarrow> Some (take (length cs - length rest) cs, rest, spec, i)
        | FORMAT_TYPE_WIDTH \<Rightarrow> Some ([], rest, spec\<lparr>field_width := ucast (args i)\<rparr>, i + 1)
        | FORMAT_TYPE_PRECISION \<Rightarrow> Some ([], rest, spec\<lparr>precision := ucast (args i)\<rparr>, i + 1)
        | FORMAT_TYPE_CHAR \<Rightarrow> Some (char_out spec (args i), rest, spec, i + 1)
        | FORMAT_TYPE_STR \<Rightarrow>
            arg_string strs (args i) \<bind> (\<lambda>s. string_out s spec \<bind> (\<lambda>ps. Some (ps, rest, spec, i + 1)))
        | FORMAT_TYPE_PTR \<Rightarrow>
            pointer_out (hd0 (tl rest)) (args i) spec \<bind> (\<lambda>ps. Some (ps, dropWhile isalnum rest, spec, i + 1))
        | FORMAT_TYPE_PERCENT_CHAR \<Rightarrow> Some ([37], rest, spec, i)
        | FORMAT_TYPE_INVALID \<Rightarrow> Some ([37], rest, spec, i)
        | FORMAT_TYPE_NRCHARS \<Rightarrow> None
        | _ \<Rightarrow>
            (case number_arg spec args i of (n, i) \<Rightarrow>
               number_out n spec \<bind> (\<lambda>ps. Some (ps, rest, spec, i)))))"

text \<open>The whole output; \<open>None\<close> when the format stores through a \<^verbatim>\<open>%n\<close>, prints a decimal that does not
  come to an end, or follows a pointer to no string.\<close>

partial_function (option) format_out ::
    "(u32 \<Rightarrow> u8 list option) \<Rightarrow> (nat \<Rightarrow> u32) \<Rightarrow> u8 list \<Rightarrow> printf_spec \<Rightarrow> nat \<Rightarrow> u8 list option" where
  "format_out strs args cs spec i =
     (if cs = [] then Some []
      else step_out strs args cs spec i \<bind> (\<lambda>(ps, cs, spec, i).
             format_out strs args cs spec i \<bind> (\<lambda>qs. Some (ps @ qs))))"

section \<open>What is written is the output\<close>

text \<open>The strings lie in memory outside the buffer \<open>B\<close>.\<close>

definition printable :: "u32 set \<Rightarrow> u32 \<Rightarrow> (u32 \<Rightarrow> u8 list option) \<Rightarrow> mem \<Rightarrow> bool" where
  "printable B nul strs m \<longleftrightarrow>
     1024 \<le> nul \<and> cstr m nul null_text \<and> region nul (Suc (length null_text)) \<inter> B = {} \<and>
     (\<forall>p s. strs p = Some s \<longrightarrow> cstr m p s \<and> region p (Suc (length s)) \<inter> B = {})"

lemma cstr_frame:
  assumes "cstr m f cs" "region f (Suc (length cs)) \<inter> B = {}" "\<And>a. a \<notin> B \<Longrightarrow> m' a = m a"
  shows "cstr m' f cs"
proof -
  have "cstr m f cs = cstr m' f cs" using assms(2,3) by (intro cstr_cong) (metis disjoint_iff)
  then show ?thesis using assms(1) by simp
qed

lemma printable_frame:
  assumes "printable B nul strs m" "\<And>a. a \<notin> B \<Longrightarrow> m' a = m a"
  shows "printable B nul strs m'"
  using assms(1) cstr_frame [where B = B and m = m and m' = m'] assms(2) unfolding printable_def by simp

lemma moved_region:
  assumes "moved f cs f' cs'" "region f (Suc (length cs)) \<inter> B = {}"
  shows "region f' (Suc (length cs')) \<inter> B = {}"
proof -
  obtain pre where "cs = pre @ cs'" "f' = f + of_nat (length pre)" using assms(1) by (auto simp: moved_def)
  then have "region f (Suc (length cs)) = region f (length pre) \<union> region f' (Suc (length cs'))"
    using region_add [of f "length pre" "Suc (length cs')"] by simp
  then show ?thesis using assms(2) by auto
qed

lemma decode_conv_ptr: "decode_conv c spec = (spec', u) \<Longrightarrow> ftype spec' = FORMAT_TYPE_PTR \<Longrightarrow> c = 112 \<and> \<not> u"
  by (auto simp: decode_conv_def number_type_def Let_def split: if_splits)

lemma qualifier_l_ptr: "qualifier_l cs spec = (cs', spec') \<Longrightarrow> ftype spec' = FORMAT_TYPE_PTR \<Longrightarrow> hd0 cs' = 112"
  by (auto simp: qualifier_l_def split: prod.splits if_splits dest!: decode_conv_ptr)

lemma precision_l_ptr: "precision_l cs spec = (cs', spec') \<Longrightarrow> ftype spec' = FORMAT_TYPE_PTR \<Longrightarrow> hd0 cs' = 112"
  by (auto simp: precision_l_def Let_def split: prod.splits if_splits dest: qualifier_l_ptr)

lemma decode_l_ptr: "decode_l cs spec = (cs', spec') \<Longrightarrow> ftype spec' = FORMAT_TYPE_PTR \<Longrightarrow> hd0 cs' = 112"
  by (auto simp: decode_l_def width_l_def Let_def split: prod.splits if_splits
      dest: qualifier_l_ptr precision_l_ptr)

lemma skip_alnum_l:
  "cstr m f cs \<Longrightarrow> \<exists>f'. skip_alnum m f = Some f' \<and> moved f cs f' (dropWhile isalnum cs)"
proof (induction cs arbitrary: f)
  case Nil
  have "\<not> isalnum 0" by code_simp
  then show ?case using Nil by (subst skip_alnum.simps) simp
next
  case (Cons c cs)
  then show ?case
  proof (cases "isalnum c")
    case True
    then obtain f' where "skip_alnum m (f + 1) = Some f'" "moved (f + 1) cs f' (dropWhile isalnum cs)"
      using Cons by fastforce
    then show ?thesis using True Cons.prems by (subst skip_alnum.simps) (auto intro: moved_Cons)
  qed (subst skip_alnum.simps, simp)
qed

lemma arg_string_emits:
  assumes "printable {buf..<e} nul strs m" "arg_string strs s = Some cs" "string_out cs spec = Some ps"
    "buf \<le> p" "unat p + length ps < 2 ^ 32"
  shows "string nul e s spec (p, m) = Some (emit_all e ps (p, m))"
proof -
  define s' where "s' = (if s < 1024 then nul else s)"
  have "region s' (length cs) \<subseteq> region s' (Suc (length cs))"
    using region_add [of s' "length cs" 1] by auto
  moreover have s': "1024 \<le> s'" "cstr m s' cs" "region s' (Suc (length cs)) \<inter> {buf..<e} = {}"
    using assms(1,2) by (simp_all add: s'_def printable_def arg_string_def not_less split: if_splits del: region_Suc)
  ultimately have dis: "region s' (length cs) \<inter> {buf..<e} = {}" by blast
  have "string nul e s spec (p, m) = string nul e s' spec (p, m)"
    using s'(1) by (simp add: string_def s'_def split: if_splits)
  then show ?thesis using string_emits [OF s'(2,1) dis assms(3-5)] by simp
qed

lemma pointer_emits:
  assumes "printable {buf..<e} nul strs m" "pointer_out (m f) ptr spec = Some ps"
    "buf \<le> p" "unat p + length ps < 2 ^ 32"
  shows "pointer nul f e ptr spec (p, m) = Some (emit_all e ps (p, m))"
proof (cases "ptr = 0 \<and> m f \<noteq> 75")
  case True
  have "1024 \<le> nul" using assms(1) by (simp add: printable_def)
  then have "string nul e nul sp (p, m) = string nul e 0 sp (p, m)" for sp by (simp add: string_def)
  then show ?thesis
    using True assms(2) arg_string_emits [OF assms(1) _ _ assms(3,4), of 0 null_text]
    by (simp add: pointer_def pointer_out_def Let_def arg_string_def)
next
  case False
  then show ?thesis
    using assms(2) by (auto simp: pointer_def pointer_out_def Let_def number_emits split: if_splits)
qed

lemma print_step_out:
  assumes step: "step_out strs args cs spec i = Some (ps, rest, spec', i')"
    and cs: "cstr m f cs" "region f (Suc (length cs)) \<inter> {buf..<e} = {}" and pr: "printable {buf..<e} nul strs m"
    and p: "buf \<le> p" "unat p + length ps < 2 ^ 32" and small: "length ps < 2 ^ 31" "unat e - unat p < 2 ^ 31"
  shows "\<exists>f'. print_step nul buf e args f spec i (p, m) = Some (f', spec', i', emit_all e ps (p, m)) \<and> moved f cs f' rest"
proof -
  obtain cs1 sp where d: "decode_l cs spec = (cs1, sp)" by (cases "decode_l cs spec")
  obtain f1 where f1: "format_decode m f spec = Some (f1, sp)" "moved f cs f1 cs1"
    using format_decode_l [OF cs(1) d] by blast
  note D = print_step_def step_out_def d f1(1)
  show ?thesis
  proof (cases "ftype sp = FORMAT_TYPE_NONE \<or> ftype sp = FORMAT_TYPE_PTR")
    case False
    then show ?thesis
      using step f1(2) arg_string_emits [OF pr _ _ p]
      by (cases "ftype sp")
        (auto simp: D print_char_emits number_emits split: prod.splits bind_splits)
  next
    case True
    then consider (plain) "ftype sp = FORMAT_TYPE_NONE" | (ptr) "ftype sp = FORMAT_TYPE_PTR" by blast
    then show ?thesis
    proof cases
      case plain
      obtain pre where pre: "cs = pre @ cs1" "f1 = f + of_nat (length pre)" using f1(2) by (auto simp: moved_def)
      then have "take (length cs - length cs1) cs = pre" by simp
      then have ps: "ps = pre" "rest = cs1" "spec' = sp" "i' = i" using step plain by (simp_all add: D)
      have "\<forall>j < length pre. m (f + of_nat j) = pre ! j"
        using cs(1) pre(1) by (auto simp: cstr_nth nth_append)
      moreover have "region f (length pre) \<inter> {buf..<e} = {}"
        using cs(2) region_add [of f "length pre" "Suc (length cs1)"] pre(1) by auto
      ultimately have "print_text e f f1 (p, m) = emit_all e ps (p, m)"
        using print_text_emits [of pre m f buf e p] p small pre(2) ps(1) by simp
      then show ?thesis using f1(2) ps plain by (simp add: D)
    next
      case ptr
      have c1: "cstr m f1 cs1" using moved_cstr [OF cs(1) f1(2)] .
      obtain cs2 where cs2: "cs1 = 112 # cs2" using decode_l_ptr [OF d ptr] by (cases cs1) (auto simp: hd0_def)
      then have "m (f1 + 1) = hd0 (tl cs1)" using c1 cstr_hd [of m "f1 + 1" cs2] by simp
      then have po: "pointer_out (m (f1 + 1)) (args i) sp = Some ps" "rest = dropWhile isalnum cs1" "spec' = sp" "i' = i + 1"
        using step ptr by (auto simp: D split: bind_splits)
      have "cstr (snd (emit_all e ps (p, m))) f1 cs1"
        using cstr_frame [OF c1 moved_region [OF f1(2) cs(2)]] emit_all_frame [OF p] by blast
      then show ?thesis
        using skip_alnum_l [of "snd (emit_all e ps (p, m))" f1 cs1] pointer_emits [OF pr po(1) p] ptr po(2-4)
          moved_trans [OF f1(2)] by (auto simp: D)
    qed
  qed
qed

lemma format_out_writes:
  assumes "format_out strs args cs spec i = Some out" "cstr m f cs" "region f (Suc (length cs)) \<inter> {buf..<e} = {}"
    "printable {buf..<e} nul strs m" "buf \<le> p" "unat p + length out < 2 ^ 32" "length out < 2 ^ 31" "unat e - unat buf < 2 ^ 31"
  shows "vsnprintf_loop nul buf e args f spec i (p, m) = Some (emit_all e out (p, m))"
  using assms
proof (induction arbitrary: f m p rule: format_out.raw_induct [rotated, consumes 1, case_names step])
  case (step format_out strs args cs spec i out f m p)
  show ?case
  proof (cases "cs = []")
    case True
    then show ?thesis using step.hyps step.prems by (subst vsnprintf_loop.simps) simp
  next
    case False
    then obtain ps rest spec' i' qs where
      st: "step_out strs args cs spec i = Some (ps, rest, spec', i')" "format_out strs args rest spec' i' = Some qs" and
      out: "out = ps @ qs"
      using step.hyps by (auto split: bind_splits)
    have le: "unat buf \<le> unat p" using step.prems(4) by (simp add: word_le_nat_alt)
    have small: "unat e - unat p < 2 ^ 31" "length ps < 2 ^ 31" "unat p + length ps < 2 ^ 32"
      using le step.prems out by auto
    obtain f' where f': "print_step nul buf e args f spec i (p, m) = Some (f', spec', i', emit_all e ps (p, m))"
      "moved f cs f' rest"
      using print_step_out [OF st(1) step.prems(1-4) small(3,2,1)] by blast
    define p' where "p' = fst (emit_all e ps (p, m))"
    define m' where "m' = snd (emit_all e ps (p, m))"
    have o: "emit_all e ps (p, m) = (p', m')" by (simp add: p'_def m'_def)
    have p': "unat p' = unat p + length ps"
      unfolding p'_def emit_all_fst fst_conv using small(3) by (intro unat_add_nat)
    have same: "m' a = m a" if "a \<notin> {buf..<e}" for a
      unfolding m'_def using emit_all_frame [OF step.prems(4) small(3) that] .
    have "vsnprintf_loop nul buf e args f' spec' i' (p', m') = Some (emit_all e qs (p', m'))"
    proof (rule step.IH [OF st(2)])
      show "cstr m' f' rest"
        using cstr_frame [OF moved_cstr [OF step.prems(1) f'(2)] moved_region [OF f'(2) step.prems(2)]] same by blast
      show "region f' (Suc (length rest)) \<inter> {buf..<e} = {}" using moved_region [OF f'(2) step.prems(2)] .
      show "printable {buf..<e} nul strs m'" using printable_frame [OF step.prems(3)] same by blast
      show "buf \<le> p'" using p' le by (simp add: word_le_nat_alt)
    qed (use p' step.prems out in simp_all)
    moreover have "m f \<noteq> 0" using False step.prems(1) by (cases cs) auto
    ultimately show ?thesis
      by (subst vsnprintf_loop.simps) (simp add: f'(1) o out emit_all_append)
  qed
qed

lemma mem_write_snoc: "mem_write m p (bs @ [b]) = (mem_write m p bs)(p + of_nat (length bs) := b)"
  by (simp add: mem_write_append)

text \<open>The bytes that end up in a buffer of \<open>sz\<close> bytes.\<close>

definition fitted :: "nat \<Rightarrow> u8 list \<Rightarrow> u8 list" where
  "fitted sz out = (if sz = 0 then [] else take (sz - 1) out @ [0])"

lemma fitted_length: "length (fitted sz out) \<le> sz"
  by (auto simp: fitted_def)

lemma fitted_frame: "a \<notin> region buf sz \<Longrightarrow> mem_write m buf (fitted sz out) a = m a"
  using region_add [of buf "length (fitted sz out)" "sz - length (fitted sz out)"] fitted_length [of sz out]
  by (intro mem_write_other) auto

lemma fitted_nth:
  assumes "0 < sz" "sz < 2 ^ 31"
  shows "(\<forall>i < min (length out) (sz - 1). mem_write m buf (fitted sz out) (buf + of_nat i) = out ! i) \<and>
    mem_write m buf (fitted sz out) (buf + of_nat (min (length out) (sz - 1))) = 0"
proof -
  define k where "k = min (length out) (sz - 1)"
  have len: "length (fitted sz out) = Suc k" using assms(1) by (simp add: fitted_def k_def)
  have "mem_write m buf (fitted sz out) (buf + of_nat i) = fitted sz out ! i" if "i \<le> k" for i
    using that len assms(2) by (intro mem_write_nth) (auto simp: k_def)
  moreover have "fitted sz out ! i = (if i < k then out ! i else 0)" if "i \<le> k" for i
    using that assms(1) by (auto simp: fitted_def nth_append k_def)
  ultimately show ?thesis unfolding k_def [symmetric] by simp
qed

lemma terminated_write:
  fixes m :: mem and buf :: u32
  assumes "0 < sz" "unat buf + sz < 2 ^ 32" "unat buf + length out < 2 ^ 32"
  defines "e \<equiv> buf + of_nat sz" and "str \<equiv> buf + of_nat (length out)" and "m' \<equiv> mem_write m buf (take sz out)"
  shows "(if str < e then m'(str := 0) else m'(e - 1 := 0)) = mem_write m buf (fitted sz out)"
proof -
  have "unat e = unat buf + sz" "unat str = unat buf + length out"
    using unat_add_nat [OF assms(2)] unat_add_nat [OF assms(3)] by (simp_all add: e_def str_def)
  then have lt: "str < e \<longleftrightarrow> length out < sz" by (simp add: word_less_nat_alt)
  show ?thesis
  proof (cases "length out < sz")
    case True
    then have "take (sz - 1) out = out" by simp
    then show ?thesis using lt True assms(1) by (simp add: fitted_def mem_write_snoc m'_def str_def)
  next
    case False
    let ?t = "take (sz - 1) out"
    have t: "take sz out = ?t @ [out ! (sz - 1)]"
      using False assms(1) take_Suc_conv_app_nth [of "sz - 1" out] by simp
    have last: "e - 1 = buf + of_nat (length ?t)" using False assms(1) by (simp add: e_def of_nat_diff)
    show ?thesis
      using lt False assms(1) unfolding m'_def t last by (simp add: fitted_def mem_write_snoc)
  qed
qed

lemma vsnprintf_writes:
  assumes out: "format_out strs args cs spec0 0 = Some out" and cs: "cstr m fmt cs"
    and dis: "region fmt (Suc (length cs)) \<inter> region buf sz = {}" and pr: "printable (region buf sz) nul strs m"
    and room: "sz < 2 ^ 31" "unat buf + sz < 2 ^ 32" "length out < 2 ^ 31" "unat buf + length out < 2 ^ 32"
  shows "vsnprintf nul m buf (of_nat sz) fmt args = Some (of_nat (length out), mem_write m buf (fitted sz out))"
proof -
  let ?e = "buf + of_nat sz :: u32"
  have e: "unat ?e = unat buf + sz" using room(2) by (rule unat_add_nat)
  note r = word_range_region [OF room(2)]
  have loop: "vsnprintf_loop nul buf ?e args fmt spec0 0 (buf, m) = Some (emit_all ?e out (buf, m))"
    by (rule format_out_writes [OF out cs dis [unfolded r] pr [unfolded r] order_refl room(4,3)]) (use e room(1) in simp)
  have nn: "sint (of_nat sz :: u32) = int sz"
    using room(1) by (subst signed_of_nat) (simp add: signed_take_bit_int_eq_self)
  have wrap: "\<not> ?e < buf" using e by (simp add: word_less_nat_alt)
  have sz: "0 < (of_nat sz :: u32) \<longleftrightarrow> 0 < sz"
    using room(1) by (simp add: word_less_nat_alt unat_of_nat)
  show ?thesis
    using terminated_write [OF _ room(2,4)] loop e
    by (cases "sz = 0") (simp_all add: vsnprintf_def Let_def nn wrap sz emit_all_writes [OF room(4)] fitted_def)
qed

end
