(* ===== verification/Printf_Spec.thy ===== *)
theory Printf_Spec
  imports Printf_Output
begin

text \<open>
  What the callers of the formatted printing rely on: the whole of \<^verbatim>\<open>vsnprintf\<close> against the output of
  the format, and the text of a decimal conversion.
\<close>

lemma number_digits_decimal:
  assumes "unat n < 10 ^ 9"
  shows "number_digits 10 0 n = Some (map digit_byte (rdigits 10 (unat n)))"
proof (cases "unat n < 10")
  case True
  have "\<forall>k \<in> set [0..<10]. upper_digits ! k = digit_byte k" by code_simp
  then have "upper_digits ! unat n = digit_byte (unat n)" using True by auto
  moreover have "n < 10" using True by (simp add: word_less_nat_alt)
  ultimately show ?thesis using True by (simp add: number_digits_def rdigits.simps)
next
  case False
  then have "\<not> n < 10" by (simp add: word_less_nat_alt)
  then show ?thesis using assms by (simp add: number_digits_def put_dec_digits)
qed

text \<open>A field that is too narrow is not padded.\<close>

lemma unpadded:
  assumes "0 < k" "k \<le> 40"
  shows "padn (- of_nat k) = 0" "padw (- of_nat k) = - of_nat (Suc k)"
proof -
  have "\<forall>k \<in> set [1..<41]. padn (- of_nat k) = 0 \<and> padw (- of_nat k) = - of_nat (Suc k)" by code_simp
  then show "padn (- of_nat k) = 0" "padw (- of_nat k) = - of_nat (Suc k)" using assms by (auto simp del: of_nat_Suc)
qed

lemma no_zeros:
  assumes "0 < k" "k \<le> 40"
  shows "nat (sint (of_nat k - 1 :: u16) + 1 - int k) = 0"
proof -
  have "\<forall>k \<in> set [1..<41]. nat (sint (of_nat k - 1 :: u16) + 1 - int k) = 0" by code_simp
  then show ?thesis using assms by simp
qed

text \<open>The text of a signed number, and of the specification that \<^verbatim>\<open>%d\<close> is decoded to.\<close>

definition decimal_text :: "int \<Rightarrow> u8 list" where
  "decimal_text v = (if v < 0 then [45] else []) @ map digit_byte (digits 10 (nat \<bar>v\<bar>))"

definition spec_d :: printf_spec where
  "spec_d = \<lparr>ftype = FORMAT_TYPE_INT, flags = SIGN, base = 10, qualifier = - 1, field_width = - 1, precision = - 1\<rparr>"

lemma rdigits_length_10: "n < 10 ^ k \<Longrightarrow> 0 < k \<Longrightarrow> length (rdigits 10 n) \<le> k"
proof (induction k arbitrary: n)
  case (Suc k)
  show ?case
  proof (cases "n < 10")
    case False
    then have "n div 10 < 10 ^ k" "0 < k" using Suc.prems by (auto intro: gr0I)
    then show ?thesis using Suc.IH [of "n div 10"] False by (simp add: rdigits.simps [of 10 n])
  qed (simp add: rdigits.simps)
qed simp

lemma decimal_text_length:
  assumes "\<bar>v\<bar> < 10 ^ 9"
  shows "length (decimal_text v) \<le> 10"
proof -
  have "length (rdigits 10 (nat \<bar>v\<bar>)) \<le> 9" using assms by (intro rdigits_length_10) simp_all
  then show ?thesis by (auto simp: decimal_text_def digits_def)
qed

lemma spec_d_flags:
  "SIGN AND SPECIAL = 0" "SIGN AND SMALL = 0" "SIGN AND LEFT = 0" "SIGN AND ZEROPAD = 0" "SIGN AND (ZEROPAD + LEFT) = 0"
  "SIGN AND SIGN \<noteq> 0" "SIGN AND PLUS = 0" "SIGN AND SPACE = 0"
  by code_simp+

lemma unat_word_of_int: "0 \<le> v \<Longrightarrow> v < 2 ^ 64 \<Longrightarrow> unat (word_of_int v :: u64) = nat v"
  by (simp add: unat_eq_nat_uint uint_word_of_int_eq take_bit_int_eq_self)

lemma magnitude: "unat (if sint n < 0 then - n else n :: u64) = nat \<bar>sint n\<bar>"
  using unat_word_of_int [of "- sint n"] unat_word_of_int [of "sint n"] sint_ge [of n] sint_lt [of n]
  by (cases "sint n < 0") simp_all

lemma number_out_decimal:
  assumes "\<bar>sint n\<bar> < 10 ^ 9"
  shows "number_out n spec_d = Some (decimal_text (sint n))"
proof -
  define n' where "n' = (if sint n < 0 then - n else n)"
  define ds where "ds = map digit_byte (rdigits 10 (unat n'))"
  define j where "j = length ds + (if sint n < 0 then 2 else 1)"
  have un: "unat n' = nat \<bar>sint n\<bar>" unfolding n'_def by (rule magnitude)
  then have d: "number_digits 10 0 n' = Some ds"
    unfolding ds_def using assms by (intro number_digits_decimal) simp
  have "unat n' < 2 ^ 30" using un assms by simp
  then have len: "length ds \<le> 30" using rdigits_length [of 10 "unat n'" 30] by (simp add: ds_def)
  have s: "number_sign spec_d n = (if sint n < 0 then 45 else 0, n', - of_nat (j - length ds))"
    by (simp add: number_sign_def spec_d_def spec_d_flags n'_def j_def)
  have p: "nat (sint (of_nat (length ds) - 1 :: u16) + 1 - int (length ds)) = 0"
    using len by (intro no_zeros) (simp_all add: ds_def)
  have w: "- of_nat (j - length ds) - of_nat (length ds) = - (of_nat j :: u16)"
    by (simp add: j_def)
  have j: "0 < j" "j \<le> 40" "Suc j \<le> 40" "Suc (Suc j) \<le> 40" using len by (simp_all add: j_def)
  note pad = unpadded [OF j(1,2)] unpadded [OF zero_less_Suc j(3)] unpadded [OF zero_less_Suc j(4)]
  have [simp]: "flags spec_d = SIGN" "base spec_d = 10" "precision spec_d = - 1" by (simp_all add: spec_d_def)
  have "rev ds = map digit_byte (digits 10 (nat \<bar>sint n\<bar>))" by (simp add: ds_def digits_def un rev_map)
  then show ?thesis
    by (simp add: number_out_def Let_def s d w pad p spec_d_flags decimal_text_def del: of_nat_add of_nat_Suc)
qed

lemma decode_d: "decode_l [37, 100] spec0 = ([], spec_d)"
  by code_simp

lemma format_d:
  assumes "\<bar>sint (args 0)\<bar> < 10 ^ 9"
  shows "format_out strs args [37, 100] spec0 0 = Some (decimal_text (sint (args 0)))"
proof -
  have "sint (scast (args 0) :: u64) = sint (args 0)" by (simp add: sint_up_scast is_up)
  then have "number_out (scast (args 0)) spec_d = Some (decimal_text (sint (args 0)))"
    using number_out_decimal [of "scast (args 0)"] assms by simp
  moreover have "ftype spec_d = FORMAT_TYPE_INT" by (simp add: spec_d_def)
  ultimately have "step_out strs args [37, 100] spec0 0 = Some (decimal_text (sint (args 0)), [], spec_d, 1)"
    by (simp add: step_out_def decode_d number_arg_def)
  moreover have "format_out strs args [] spec_d 1 = Some []" by (subst format_out.simps) simp
  ultimately show ?thesis by (subst format_out.simps) simp
qed

lemma number_out_endless:
  assumes "10 ^ 9 \<le> \<bar>sint n\<bar>"
  shows "number_out n spec_d = None"
proof -
  let ?n = "if sint n < 0 then - n else n"
  have n: "10 ^ 9 \<le> unat ?n" using assms magnitude [of n] by simp
  then have "\<not> ?n < 10" by (simp add: word_less_nat_alt)
  then have "number_digits 10 0 ?n = None" using n by (simp only: number_digits_def put_dec_digits) simp
  then show ?thesis
    by (simp add: number_out_def number_sign_def spec_d_def Let_def spec_d_flags split: if_splits)
qed

lemma vsnprintf_endless:
  assumes "10 ^ 9 \<le> \<bar>sint (args 0)\<bar>" "cstr m fmt [37, 100]" "sz < 2 ^ 31"
  shows "vsnprintf nul m buf (of_nat sz) fmt args = None"
proof -
  have "sint (scast (args 0) :: u64) = sint (args 0)" by (simp add: sint_up_scast is_up)
  then have n: "number_out (scast (args 0)) spec_d = None"
    using number_out_endless [of "scast (args 0)"] assms(1) by simp
  obtain f where f: "format_decode m fmt spec0 = Some (f, spec_d)" using format_decode_l [OF assms(2) decode_d] by blast
  have "ftype spec_d = FORMAT_TYPE_INT" by (simp add: spec_d_def)
  then have "print_step nul buf e args fmt spec0 0 (buf, m) = None" for e
    using n by (simp add: print_step_def f number_arg_def number_emits)
  moreover have "m fmt \<noteq> 0" using assms(2) by simp
  ultimately have "vsnprintf_loop nul buf e args fmt spec0 0 (buf, m) = None" for e
    by (subst vsnprintf_loop.simps) simp
  moreover have "sint (of_nat sz :: u32) = int sz"
    using assms(3) by (subst signed_of_nat) (simp add: signed_take_bit_int_eq_self)
  ultimately show ?thesis by (simp add: vsnprintf_def Let_def)
qed

text \<open>
  C26: \<^verbatim>\<open>vsnprintf\<close> and \<^verbatim>\<open>vscnprintf\<close> return, and store the output of the format in the buffer: as much of it
  as leaves room for a terminating zero, which is always there when the buffer has a size.  Nothing outside
  the \<^verbatim>\<open>size\<close> bytes of the buffer changes.  \<^verbatim>\<open>vsnprintf\<close> returns the length of the whole output, also when it
  does not fit, and \<^verbatim>\<open>vscnprintf\<close> the number of characters stored.  Assumed: the format, its string arguments and
  the string for a null pointer lie outside the buffer, and the output fits below the end of memory.
\<close>

theorem vsnprintf_formats:
  assumes "format_out strs args cs spec0 0 = Some out" "cstr m fmt cs"
    "region fmt (Suc (length cs)) \<inter> region buf sz = {}" "printable (region buf sz) nul strs m"
    "sz < 2 ^ 31" "unat buf + sz < 2 ^ 32" "length out < 2 ^ 31" "unat buf + length out < 2 ^ 32"
  shows "\<exists>m'. vsnprintf nul m buf (of_nat sz) fmt args = Some (of_nat (length out), m') \<and>
      vscnprintf nul m buf (of_nat sz) fmt args = Some (of_nat (min (length out) (sz - 1)), m') \<and>
      (0 < sz \<longrightarrow> (\<forall>i < min (length out) (sz - 1). m' (buf + of_nat i) = out ! i) \<and>
                  m' (buf + of_nat (min (length out) (sz - 1))) = 0) \<and>
      (\<forall>a. a \<notin> region buf sz \<longrightarrow> m' a = m a)"
proof (intro exI conjI)
  let ?m = "mem_write m buf (fitted sz out)"
  show v: "vsnprintf nul m buf (of_nat sz) fmt args = Some (of_nat (length out), ?m)"
    by (rule vsnprintf_writes [OF assms])
  have "(of_nat (length out) :: u32) < of_nat sz \<longleftrightarrow> length out < sz" "(of_nat sz :: u32) = 0 \<longleftrightarrow> sz = 0"
    using assms(5,7) by (simp_all add: word_less_nat_alt unat_of_nat word_eq_iff_unsigned flip: unat_eq_0)
  then show "vscnprintf nul m buf (of_nat sz) fmt args = Some (of_nat (min (length out) (sz - 1)), ?m)"
    by (auto simp: vscnprintf_def v min_def of_nat_diff)
  show "0 < sz \<longrightarrow> (\<forall>i < min (length out) (sz - 1). ?m (buf + of_nat i) = out ! i) \<and>
      ?m (buf + of_nat (min (length out) (sz - 1))) = 0"
    using fitted_nth [of sz out m buf] assms(5) by simp
  show "\<forall>a. a \<notin> region buf sz \<longrightarrow> ?m a = m a"
    using fitted_frame by blast
qed

lemma null_text_bytes: "null_text = [40, 110, 117, 108, 108, 41]"
  by code_simp

definition text_at :: "u8 list \<Rightarrow> mem" where
  "text_at cs = mem_write (mem_write (\<lambda>_. 0) 2048 null_text) 4096 cs"

lemma text_at_upd:
  "text_at [a, b] = (\<lambda>_. 0)(2048 := 40, 2049 := 110, 2050 := 117, 2051 := 108, 2052 := 108, 2053 := 41, 4096 := a, 4097 := b)"
  by (simp add: text_at_def null_text_bytes)

lemma text_at_cstr: "cstr (text_at [37, 115]) 4096 [37, 115]" "cstr (text_at [37, 100]) 4096 [37, 100]"
  by (simp_all add: text_at_upd)

lemma region_numeral: "region p (numeral k) = insert p (region (p + 1) (pred_numeral k))"
  by (simp add: numeral_eq_Suc)

lemma text_at_regions: "region 2048 (Suc (length null_text)) \<inter> region 8192 4 = {}" "region 4096 (Suc (Suc (Suc 0))) \<inter> region 8192 4 = {}"
  by (simp_all add: region_numeral null_text_bytes)

lemma text_at_printable: "printable (region 8192 4) 2048 (\<lambda>_. None) (text_at [a, b])"
  using text_at_regions(1) by (simp add: printable_def null_text_bytes text_at_upd del: region_Suc)

definition spec_s :: printf_spec where
  "spec_s = \<lparr>ftype = FORMAT_TYPE_STR, flags = 0, base = 10, qualifier = - 1, field_width = - 1, precision = - 1\<rparr>"

theorem vsnprintf_formats_witness:
  "\<exists>m'. vsnprintf 2048 (text_at [37, 115]) 8192 4 4096 (\<lambda>_. 0) = Some (6, m') \<and>
        m' 8192 = 40 \<and> m' 8193 = 110 \<and> m' 8194 = 117 \<and> m' 8195 = 0"
proof -
  have "decode_l [37, 115] spec0 = ([], spec_s)" by code_simp
  moreover have "unat (- 1 :: u32) = 4294967295" by (simp add: unsigned_minus_1_eq_mask mask_eq_exp_minus_1)
  then have "string_out null_text spec_s = Some null_text"
    by (simp add: string_out_def spec_s_def null_text_bytes Let_def space_after_def)
  ultimately have "step_out (\<lambda>_. None) (\<lambda>_. 0) [37, 115] spec0 0 = Some (null_text, [], spec_s, 1)"
    by (simp add: step_out_def spec_s_def arg_string_def)
  moreover have "format_out (\<lambda>_. None) (\<lambda>_. 0) [] sp 1 = Some []" for sp by (subst format_out.simps) simp
  ultimately have o: "format_out (\<lambda>_. None) (\<lambda>_. 0) [37, 115] spec0 0 = Some null_text"
    by (subst format_out.simps) simp
  show ?thesis
    using vsnprintf_formats [OF o, of "text_at [37, 115]" 4096 8192 4 2048] text_at_printable text_at_regions(2) text_at_cstr(1)
    by (auto simp: null_text_bytes numeral_3_eq_3 less_Suc_eq simp del: region_Suc)
qed

text \<open>
  C27: with the format \<^verbatim>\<open>%d\<close>, \<^verbatim>\<open>snprintf\<close> stores the sign and the decimal digits of its argument when the
  magnitude is below \<open>10\<^sup>9\<close>, cut to the size of the buffer, and returns their number.  For a larger magnitude
  it does not return.
\<close>

theorem snprintf_decimal:
  assumes "cstr m fmt (ascii ''%d'')" "region fmt 3 \<inter> region buf sz = {}" "printable (region buf sz) nul (\<lambda>_. None) m"
    "sz < 2 ^ 31" "unat buf + sz < 2 ^ 32" "unat buf + 10 < 2 ^ 32"
  shows "snprintf nul m buf (of_nat sz) fmt args =
    (let v = sint (args 0)
     in if \<bar>v\<bar> < 10 ^ 9 then Some (of_nat (length (decimal_text v)), mem_write m buf (fitted sz (decimal_text v)))
        else None)"
proof (cases "\<bar>sint (args 0)\<bar> < 10 ^ 9")
  case True
  have fmt: "ascii ''%d'' = [37, 100]" by code_simp
  have len: "length (decimal_text (sint (args 0))) \<le> 10"
    using decimal_text_length [OF True] .
  show ?thesis
    using vsnprintf_writes [OF format_d [of args "\<lambda>_. None"], of m fmt buf sz nul] assms True len
    by (simp add: snprintf_def Let_def fmt numeral_3_eq_3 del: region_Suc)
next
  case False
  have fmt: "ascii ''%d'' = [37, 100]" by code_simp
  show ?thesis using vsnprintf_endless [of args m fmt sz nul buf] assms False by (simp add: snprintf_def Let_def fmt)
qed

theorem snprintf_decimal_witness:
  "snprintf 2048 (text_at [37, 100]) 8192 4 4096 (\<lambda>_. - 42) =
     Some (3, mem_write (text_at [37, 100]) 8192 [45, 52, 50, 0]) \<and>
   snprintf 2048 (text_at [37, 100]) 8192 4 4096 (\<lambda>_. 1000000000) = None"
proof -
  have fmt: "ascii ''%d'' = [37, 100]" by code_simp
  have "decimal_text (- 42) = [45, 52, 50]" by code_simp
  then show ?thesis
    using snprintf_decimal [of "text_at [37, 100]" 4096 8192 4 2048 "\<lambda>_. - 42"]
      snprintf_decimal [of "text_at [37, 100]" 4096 8192 4 2048 "\<lambda>_. 1000000000"]
      text_at_printable text_at_regions(2) text_at_cstr(2)
    by (simp add: fmt fitted_def Let_def numeral_3_eq_3 del: region_Suc)
qed

end
