(* ===== verification/Rtc.thy ===== *)
theory Rtc
  imports Telos_Prelude "HOL-Library.Monad_Syntax"
begin

text \<open>
  The real-time clock, \<^verbatim>\<open>src/kernel/rtc.c\<close>, and \<^verbatim>\<open>tm_to_unix\<close> of \<^verbatim>\<open>src/include/kernel/time.h\<close>.  The
  clock chip is a parameter: \<open>hw t r\<close> is what register \<open>r\<close> holds at the \<open>t\<close>-th access.  The fields of
  \<^verbatim>\<open>struct tm\<close> are integers; the loops that wait for the chip are partial functions.

  The property compares the clock set at boot with the calendar.
\<close>

section \<open>Reading the chip\<close>

type_synonym rtc_hw = "nat \<Rightarrow> u8 \<Rightarrow> u8"

abbreviation (input) "RTC_SECOND \<equiv> 0x00 :: u8"
abbreviation (input) "RTC_MINUTE \<equiv> 0x02 :: u8"
abbreviation (input) "RTC_HOUR \<equiv> 0x04 :: u8"
abbreviation (input) "RTC_DAY \<equiv> 0x07 :: u8"
abbreviation (input) "RTC_MONTH \<equiv> 0x08 :: u8"
abbreviation (input) "RTC_YEAR \<equiv> 0x09 :: u8"
abbreviation (input) "RTC_STATUSA \<equiv> 0x0A :: u8"
abbreviation (input) "RTC_STATUSB \<equiv> 0x0B :: u8"
abbreviation (input) "RTCF_24HOUR \<equiv> 0x02 :: u8"
abbreviation (input) "RTCF_BINARY \<equiv> 0x04 :: u8"

record tm =
  tm_sec :: int
  tm_min :: int
  tm_hour :: int
  tm_mday :: int
  tm_mon :: int
  tm_year :: int
  tm_yday :: int
  tm_isdst :: int

definition get_rtc_register :: "rtc_hw \<Rightarrow> u8 \<Rightarrow> nat \<Rightarrow> u8 \<times> nat" where
  "get_rtc_register hw reg t = (hw t reg, t + 1)"

definition update_in_progress :: "rtc_hw \<Rightarrow> nat \<Rightarrow> bool \<times> nat" where
  "update_in_progress hw t =
     (case get_rtc_register hw RTC_STATUSA t of (v, t) \<Rightarrow> (v AND 0x80 \<noteq> 0, t))"

partial_function (option) wait_update :: "rtc_hw \<Rightarrow> nat \<Rightarrow> nat option" where
  "wait_update hw t =
     (case update_in_progress hw t of (b, t) \<Rightarrow> if b then wait_update hw t else Some t)"

definition rtc_read_date :: "rtc_hw \<Rightarrow> tm \<Rightarrow> nat \<Rightarrow> (tm \<times> nat) option" where
  "rtc_read_date hw date t =
     wait_update hw t \<bind> (\<lambda>t.
       let (s, t) = get_rtc_register hw RTC_SECOND t;
           (m, t) = get_rtc_register hw RTC_MINUTE t;
           (h, t) = get_rtc_register hw RTC_HOUR t;
           (d, t) = get_rtc_register hw RTC_DAY t;
           (mo, t) = get_rtc_register hw RTC_MONTH t;
           (y, t) = get_rtc_register hw RTC_YEAR t
       in Some (date\<lparr>tm_sec := uint s, tm_min := uint m, tm_hour := uint h, tm_mday := uint d,
                  tm_mon := uint mo, tm_year := uint y\<rparr>, t))"

section \<open>Conversions\<close>

definition bcd_to_binary :: "tm \<Rightarrow> tm" where
  "bcd_to_binary t =
     t\<lparr>tm_sec := (tm_sec t AND 0x0F) + tm_sec t div 16 * 10,
       tm_min := (tm_min t AND 0x0F) + tm_min t div 16 * 10,
       tm_hour := ((tm_hour t AND 0x0F) + (tm_hour t AND 0x70) div 16 * 10) OR (tm_hour t AND 0x80),
       tm_mday := (tm_mday t AND 0x0F) + tm_mday t div 16 * 10,
       tm_mon := (tm_mon t AND 0x0F) + tm_mon t div 16 * 10,
       tm_year := (tm_year t AND 0x0F) + tm_year t div 16 * 10\<rparr>"

definition rtc_date_equal :: "tm \<Rightarrow> tm \<Rightarrow> bool" where
  "rtc_date_equal a b \<longleftrightarrow>
     tm_sec a = tm_sec b \<and> tm_min a = tm_min b \<and> tm_hour a = tm_hour b
     \<and> tm_mday a = tm_mday b \<and> tm_mon a = tm_mon b \<and> tm_year a = tm_year b"

definition days_by_month :: "int list" where
  "days_by_month = [0, 31, 59, 90, 120, 151, 181, 212, 243, 273, 304, 334]"

text \<open>A month outside the table reads past it.\<close>

definition rtc_to_posix :: "tm \<Rightarrow> tm outcome" where
  "rtc_to_posix t =
     (let leap = (if tm_year t mod 4 = 0 \<and> tm_year t \<noteq> 0 \<and> tm_mon t > 2 then 1 else 0);
          t = t\<lparr>tm_mday := tm_mday t - 1, tm_year := tm_year t + 100\<rparr>
      in if tm_mon t < 1 \<or> 12 < tm_mon t then Stuck
         else Ret (t\<lparr>tm_yday := days_by_month ! nat (tm_mon t - 1) + leap + tm_mday t, tm_isdst := -1\<rparr>))"

partial_function (option) rtc_settle :: "rtc_hw \<Rightarrow> tm \<Rightarrow> nat \<Rightarrow> (tm \<times> nat) option" where
  "rtc_settle hw date t =
     rtc_read_date hw date t \<bind> (\<lambda>(date', t).
       if \<not> rtc_date_equal date date' then rtc_settle hw date' t else Some (date', t))"

definition rtc_date :: "rtc_hw \<Rightarrow> tm \<Rightarrow> nat \<Rightarrow> tm outcome option" where
  "rtc_date hw date t =
     rtc_read_date hw date t \<bind> (\<lambda>(date, t).
       rtc_settle hw date t \<bind> (\<lambda>(date, t).
         let (status, t) = get_rtc_register hw RTC_STATUSB t;
             date = (if status AND RTCF_BINARY = 0 then bcd_to_binary date else date);
             date = (if status AND RTCF_24HOUR = 0 \<and> tm_hour date AND 0x80 \<noteq> 0
                     then date\<lparr>tm_hour := ((tm_hour date AND 0x7F) + 12) mod 24\<rparr> else date)
         in Some (rtc_to_posix date)))"

text \<open>The divisions round towards zero; for the years the clock chip knows they are on positive numbers.\<close>

definition tm_to_unix :: "tm \<Rightarrow> u32" where
  "tm_to_unix t =
     of_int (tm_sec t + tm_min t * 60 + tm_hour t * 3600 + tm_yday t * 86400
       + (tm_year t - 70) * 31536000 + (tm_year t - 69) div 4 * 86400
       - (tm_year t - 1) div 100 * 86400 + (tm_year t + 299) div 400 * 86400)"

definition clock_init :: "rtc_hw \<Rightarrow> tm \<Rightarrow> nat \<Rightarrow> u32 outcome option" where
  "clock_init hw date t =
     map_option (\<lambda>r. bind_outcome r (\<lambda>date. Ret (tm_to_unix date))) (rtc_date hw date t)"

section \<open>The calendar\<close>

definition is_leap :: "nat \<Rightarrow> bool" where
  "is_leap y \<longleftrightarrow> y mod 4 = 0 \<and> (y mod 100 \<noteq> 0 \<or> y mod 400 = 0)"

text \<open>The days from the start of 1970 to the start of a year.\<close>

definition year_days :: "nat \<Rightarrow> nat" where
  "year_days y = sum_list (map (\<lambda>k. if is_leap k then 366 else 365) [1970..<y])"

definition month_len :: "nat \<Rightarrow> nat \<Rightarrow> nat" where
  "month_len y m = (if m = 2 then if is_leap y then 29 else 28 else if m \<in> {4, 6, 9, 11} then 30 else 31)"

definition month_days :: "nat \<Rightarrow> nat \<Rightarrow> nat" where
  "month_days y m = sum_list (map (month_len y) [1..<m])"

text \<open>Seconds from the start of 1970 to a date and time.\<close>

definition unix_time :: "nat \<Rightarrow> nat \<Rightarrow> nat \<Rightarrow> nat \<Rightarrow> nat \<Rightarrow> nat \<Rightarrow> nat" where
  "unix_time y mo d h m s =
     (year_days y + month_days y mo + (d - 1)) * 86400 + h * 3600 + m * 60 + s"

definition bcd :: "nat \<Rightarrow> nat" where
  "bcd n = 16 * (n div 10) + n mod 10"

text \<open>A chip whose registers stand still, in one of its two number formats and in 24-hour mode.\<close>

definition still :: "bool \<Rightarrow> nat \<Rightarrow> nat \<Rightarrow> nat \<Rightarrow> nat \<Rightarrow> nat \<Rightarrow> nat \<Rightarrow> rtc_hw" where
  "still binary y mo d h m s t r =
     (let enc = (\<lambda>n. of_nat (if binary then n else bcd n))
      in if r = RTC_SECOND then enc s else if r = RTC_MINUTE then enc m
         else if r = RTC_HOUR then enc h else if r = RTC_DAY then enc d
         else if r = RTC_MONTH then enc mo else if r = RTC_YEAR then enc (y - 2000)
         else if r = RTC_STATUSB then (if binary then RTCF_24HOUR OR RTCF_BINARY else RTCF_24HOUR)
         else 0)"

lemma leap_2000s:
  assumes "n < 100"
  shows "is_leap (2000 + n) \<longleftrightarrow> n mod 4 = 0"
proof -
  have 4: "(2000 + n) mod 4 = n mod 4" using mod_mult_self1 [of n 500 4] by (simp only: add.commute) simp
  have 100: "(2000 + n) mod 100 = n"
    using mod_mult_self1 [of n 20 100] mod_less [OF assms] by (simp only: add.commute) simp
  show ?thesis
  proof (cases "n = 0")
    case True
    then show ?thesis by (simp add: is_leap_def)
  next
    case False
    then show ?thesis unfolding is_leap_def 4 100 by blast
  qed
qed

lemma year_days_2000: "year_days 2000 = 10957"
  by (simp add: year_days_def is_leap_def upt_rec_numeral)

lemma year_days_2000s:
  "n < 101 \<Longrightarrow> year_days (2000 + n) = 365 * (30 + n) + (31 + n) div 4"
proof (induction n)
  case 0
  then show ?case by (simp add: year_days_2000)
next
  case (Suc n)
  have "(31 + n) div 4 = 7 + (n + 3) div 4" "(31 + Suc n) div 4 = 8 + n div 4" by linarith+
  then have quarter: "(31 + Suc n) div 4 = (31 + n) div 4 + (if n mod 4 = 0 then 1 else 0)"
    using ceil_div [of 4 n] by (simp add: dvd_eq_mod_eq_0)
  have "year_days (2000 + Suc n) = year_days (2000 + n) + (if n mod 4 = 0 then 366 else 365)"
    using leap_2000s [of n] Suc.prems unfolding year_days_def add_Suc_right
    by (subst upt_Suc_append) simp_all
  also have "\<dots> = 365 * (30 + Suc n) + (31 + Suc n) div 4"
    using Suc quarter by simp
  finally show ?case .
qed

lemma month_days_table:
  assumes "1 \<le> m" "m \<le> 12"
  shows "int (month_days y m) = days_by_month ! (m - 1) + (if is_leap y \<and> m > 2 then 1 else 0)"
proof -
  have "m = 1 \<or> m = 2 \<or> m = 3 \<or> m = 4 \<or> m = 5 \<or> m = 6 \<or> m = 7 \<or> m = 8 \<or> m = 9 \<or> m = 10
    \<or> m = 11 \<or> m = 12" using assms by presburger
  then show ?thesis
    by (elim disjE) (simp_all add: month_days_def month_len_def days_by_month_def upt_conv_Cons [of 1] upt_rec_numeral numeral_eq_Suc)
qed

section \<open>The clock at boot\<close>

lemma bcd_less: "n < 100 \<Longrightarrow> bcd n < 160"
proof -
  assume "n < 100"
  then have "n div 10 \<le> 9" by simp
  moreover have "n mod 10 < 10" by simp
  ultimately show ?thesis unfolding bcd_def by linarith
qed

lemma bcd_decode: "(int (bcd n) AND 0x0F) + int (bcd n) div 16 * 10 = int n"
proof -
  have "int (bcd n) AND 0x0F = int (bcd n) mod 16"
    using take_bit_eq_mask [of 4 "int (bcd n)"] by (simp add: take_bit_eq_mod mask_eq_exp_minus_1)
  moreover have r: "n mod 10 < 16" using mod_less_divisor [of 10 n] by linarith
  then have "int (bcd n) mod 16 = int (n mod 10)" "int (bcd n) div 16 = int (n div 10)"
    by (simp_all add: bcd_def flip: zmod_int zdiv_int)
  moreover have "int (n mod 10) + int (n div 10) * 10 = int n"
    by (metis mod_mult_div_eq mult.commute of_nat_add of_nat_mult of_nat_numeral add.commute)
  ultimately show ?thesis by simp
qed

lemma bcd_hour_decode:
  assumes "h < 24"
  shows "((int (bcd h) AND 0x0F) + (int (bcd h) AND 0x70) div 16 * 10) OR (int (bcd h) AND 0x80) = int h"
proof -
  have "\<forall>h \<in> set [0..<24]. ((int (bcd h) AND 0x0F) + (int (bcd h) AND 0x70) div 16 * 10)
      OR (int (bcd h) AND 0x80) = int h" by code_simp
  with assms show ?thesis by simp
qed

lemma wait_still: "wait_update (still b y mo d h m s) t = Some (t + 1)"
  by (subst wait_update.simps) (simp add: update_in_progress_def get_rtc_register_def still_def)

definition enc :: "bool \<Rightarrow> nat \<Rightarrow> nat" where
  "enc binary n = (if binary then n else bcd n)"

lemma uint_enc: "n < 100 \<Longrightarrow> uint (of_nat (enc b n) :: u8) = int (enc b n)"
  using bcd_less [of n] by (simp add: enc_def unsigned_of_nat take_bit_nat_eq_self)

lemma read_still:
  assumes "y < 2100" "mo < 100" "d < 100" "h < 100" "m < 100" "s < 100"
  shows "rtc_read_date (still b y mo d h m s) date t =
    Some (date\<lparr>tm_sec := int (enc b s), tm_min := int (enc b m), tm_hour := int (enc b h),
      tm_mday := int (enc b d), tm_mon := int (enc b mo), tm_year := int (enc b (y - 2000))\<rparr>, t + 7)"
proof -
  have "still b y mo d h m s t' RTC_SECOND = of_nat (enc b s)"
    "still b y mo d h m s t' RTC_MINUTE = of_nat (enc b m)"
    "still b y mo d h m s t' RTC_HOUR = of_nat (enc b h)"
    "still b y mo d h m s t' RTC_DAY = of_nat (enc b d)"
    "still b y mo d h m s t' RTC_MONTH = of_nat (enc b mo)"
    "still b y mo d h m s t' RTC_YEAR = of_nat (enc b (y - 2000))" for t'
    by (simp_all add: still_def enc_def)
  then show ?thesis using assms
    by (simp add: rtc_read_date_def wait_still get_rtc_register_def uint_enc)
qed

text \<open>After decoding, the fields hold the numbers themselves.\<close>

lemma rtc_date_still:
  assumes "2000 \<le> y" "y < 2100" "mo < 100" "d < 100" "h < 24" "m < 100" "s < 100"
  shows "rtc_date (still b y mo d h m s) date t =
    Some (rtc_to_posix (date\<lparr>tm_sec := int s, tm_min := int m, tm_hour := int h, tm_mday := int d,
      tm_mon := int mo, tm_year := int (y - 2000)\<rparr>))"
proof -
  let ?hw = "still b y mo d h m s"
  let ?raw = "date\<lparr>tm_sec := int (enc b s), tm_min := int (enc b m), tm_hour := int (enc b h),
      tm_mday := int (enc b d), tm_mon := int (enc b mo), tm_year := int (enc b (y - 2000))\<rparr>"
  have rd: "rtc_read_date ?hw D t = Some (D\<lparr>tm_sec := int (enc b s), tm_min := int (enc b m),
      tm_hour := int (enc b h), tm_mday := int (enc b d), tm_mon := int (enc b mo),
      tm_year := int (enc b (y - 2000))\<rparr>, t + 7)" for D t
    using assms by (intro read_still) auto
  have "rtc_settle ?hw ?raw (t + 7) = Some (?raw, t + 14)"
    by (subst rtc_settle.simps) (simp add: rd rtc_date_equal_def)
  then have "rtc_date ?hw date t =
      Some (rtc_to_posix (if b then ?raw else bcd_to_binary ?raw))"
    by (simp add: rtc_date_def rd get_rtc_register_def still_def)
  then show ?thesis
    using bcd_hour_decode [OF assms(5)] by (simp add: enc_def bcd_to_binary_def bcd_decode)
qed

text \<open>
  C30: The system clock at boot.  When the registers of the clock chip hold still, in binary or in
  binary coded decimal and in 24-hour mode, \<^verbatim>\<open>clock_init\<close> returns and sets the clock to the seconds
  since 1970 of that date, for every date of the years 2000 to 2099; but in 2000, which the code
  does not take for a leap year, dates after February come out a day early.
\<close>

theorem clock_init_calendar:
  assumes "2000 \<le> y" "y < 2100" "1 \<le> mo" "mo \<le> 12" "1 \<le> d" "d \<le> month_len y mo"
    "h < 24" "m < 60" "s < 60"
  shows "clock_init (still b y mo d h m s) date t =
    Some (Ret (of_nat (unix_time y mo d h m s) - (if y = 2000 \<and> 2 < mo then 86400 else 0)))"
proof -
  define n where "n = y - 2000"
  then have y: "y = 2000 + n" "n < 100" using assms(1,2) by simp_all
  have "month_len y mo \<le> 31" by (simp add: month_len_def)
  then have d: "d < 100" using assms(6) by simp
  define L where "L = (if int n mod 4 = 0 \<and> int n \<noteq> 0 \<and> int mo > 2 then 1 else 0 :: int)"
  define A where "A = (if is_leap y \<and> mo > 2 then 1 else 0 :: int)"
  define E where "E = (if y = 2000 \<and> 2 < mo then 1 else 0 :: int)"
  have "int n mod 4 = 0 \<longleftrightarrow> n mod 4 = 0" by (metis of_nat_0_eq_iff of_nat_mod of_nat_numeral)
  then have leap: "L = A - E"
    unfolding L_def A_def E_def leap_2000s [OF y(2), folded y(1)] using y(1) by simp
  have md: "int (month_days y mo) = days_by_month ! (mo - 1) + A"
    unfolding A_def using assms(3,4) by (rule month_days_table)
  have yd: "int (year_days y) = 365 * (30 + int n) + (31 + int n) div 4"
    using year_days_2000s [of n] y by (simp add: zdiv_int)
  have q: "(int n + 99) div 100 = (if n = 0 then 0 else 1)" "(int n + 399) div 400 = (if n = 0 then 0 else 1)"
    using y(2) by auto
  let ?X = "int s + int m * 60 + int h * 3600 + (days_by_month ! (mo - 1) + L + (int d - 1)) * 86400
    + (int n + 30) * 31536000 + (int n + 31) div 4 * 86400
    - (int n + 99) div 100 * 86400 + (int n + 399) div 400 * 86400"
  have X: "?X = int (unix_time y mo d h m s) - E * 86400"
    using md yd assms(5) q by (simp add: leap unix_time_def of_nat_diff algebra_simps)
  have "clock_init (still b y mo d h m s) date t = Some (Ret (of_int ?X))"
    using rtc_date_still [OF assms(1,2) _ d assms(7), of mo m s b date t] assms y
    by (simp add: clock_init_def rtc_to_posix_def Let_def tm_to_unix_def nat_diff_distrib algebra_simps L_def)
  then show ?thesis unfolding X E_def by simp
qed

definition tm0 :: tm where
  "tm0 = \<lparr>tm_sec = 0, tm_min = 0, tm_hour = 0, tm_mday = 0, tm_mon = 0, tm_year = 0, tm_yday = 0, tm_isdst = 0\<rparr>"

theorem clock_init_calendar_witness:
  "clock_init (still False 2000 3 1 12 30 59) tm0 0
     = Some (Ret (of_nat (unix_time 2000 3 1 12 30 59) - 86400))
   \<and> clock_init (still True 2024 2 29 23 59 59) tm0 0
     = Some (Ret (of_nat (unix_time 2024 2 29 23 59 59)))"
proof -
  have "month_len 2000 3 = 31" "month_len 2024 2 = 29" by (simp_all add: month_len_def is_leap_def)
  then show ?thesis
    using clock_init_calendar [of 2000 3 1 12 30 59 False tm0 0]
      clock_init_calendar [of 2024 2 29 23 59 59 True tm0 0]
    by simp
qed

end
