(* ===== verification/Spec2Isabelle.thy ===== *)
theory Spec2Isabelle
  imports KList Kmalloc Slab Paging_Spec Process Printf_Spec Keyboard Rtc
begin

text \<open>
  A verification library for the Telos kernel.
\<close>

end
